(* ===== verification/Prelude.thy ===== *)
theory Prelude
  imports Main "HOL-Library.Word" "HOL-Library.Multiset"
begin

text \<open>
  Shared vocabulary of the development: the machine integer types of the sources, the
  fault values that stand for undefined behaviour and failed assertions, sequencing of
  fallible operations, arithmetic of ring indices, sums over updated slot lists, and
  reachability of transition systems with the interface of an inductive invariant.
\<close>

named_theorems cache_simps \<open>unfolding rules for the operations of the ring cache\<close>
named_theorems inv_defs \<open>definitions of the invariant conjuncts\<close>

section \<open>Machine integers\<close>

type_synonym size_t = "64 word"
type_synonym uint8 = "8 word"
type_synonym uint16 = "16 word"
type_synonym uint32 = "32 word"
type_synonym uint64 = "64 word"

lemma unat_of_nat_64 [simp]: "n < 2 ^ 64 \<Longrightarrow> unat (of_nat n :: 64 word) = n"
  by (simp add: unat_of_nat take_bit_nat_eq_self)

lemma unat_diff_le: "b \<le> a \<Longrightarrow> unat (a - b) = unat a - unat (b :: 'a::len word)"
  by (simp add: unat_sub)

lemma unat_add_no_wrap:
  "unat a + unat b < 2 ^ LENGTH('a) \<Longrightarrow> unat (a + b) = unat a + unat (b :: 'a::len word)"
  by (simp add: unat_word_ariths)

section \<open>Faults and sequencing of fallible operations\<close>

text \<open>
  What the C++ and C sources leave undefined, or assert, is a value of the model: reading
  through a null pointer, touching a freed object, indexing past the end of a vector,
  dividing by zero, failing an assertion, and a loop that exceeds its bound.
\<close>

datatype fault =
    NullDeref
  | UseAfterFree
  | OutOfBounds
  | DivideByZero
  | AssertFailed string
  | OutOfFuel

definition and_then :: "'e + 'a \<Rightarrow> ('a \<Rightarrow> 'e + 'b) \<Rightarrow> 'e + 'b" where
  "and_then r f = (case r of Inl e \<Rightarrow> Inl e | Inr x \<Rightarrow> f x)"

lemma and_then_simps [simp]:
  "and_then (Inl e) f = Inl e"
  "and_then (Inr x) f = f x"
  by (simp_all add: and_then_def)

lemma and_then_eq_Inr [simp]:
  "and_then r f = Inr y \<longleftrightarrow> (\<exists>x. r = Inr x \<and> f x = Inr y)"
  by (cases r) simp_all

definition deref :: "fault \<Rightarrow> 'a option \<Rightarrow> fault + 'a" where
  "deref f p = (case p of None \<Rightarrow> Inl f | Some x \<Rightarrow> Inr x)"

lemma deref_simps [simp]:
  "deref f None = Inl f"
  "deref f (Some x) = Inr x"
  by (simp_all add: deref_def)

lemma deref_eq_Inr [simp]: "deref f p = Inr x \<longleftrightarrow> p = Some x"
  by (cases p) auto

definition check :: "fault \<Rightarrow> bool \<Rightarrow> fault + unit" where
  "check f b = (if b then Inr () else Inl f)"

lemma check_simps [simp]:
  "check f True = Inr ()"
  "check f False = Inl f"
  by (simp_all add: check_def)

lemma check_eq_Inr [simp]: "check f b = Inr u \<longleftrightarrow> b"
  by (simp add: check_def)

section \<open>Ring indices\<close>

text \<open>
  \<open>ahead n h j\<close>: how many steps forward from index \<open>h\<close> index \<open>j\<close> lies in a ring of
  \<open>n\<close> slots; \<open>laps n start h\<close>: how many steps remain until a scan that began at
  \<open>start\<close> and now stands at \<open>h\<close> is back at its start (a full turn when it has not moved).
\<close>

definition ring_next :: "nat \<Rightarrow> nat \<Rightarrow> nat" where
  "ring_next n h = (if h + 1 = n then 0 else h + 1)"

definition ahead :: "nat \<Rightarrow> nat \<Rightarrow> nat \<Rightarrow> nat" where
  "ahead n h j = (if h \<le> j then j - h else j + n - h)"

definition laps :: "nat \<Rightarrow> nat \<Rightarrow> nat \<Rightarrow> nat" where
  "laps n start h = (if h < start then start - h else start + n - h)"

lemma ring_next_less: "h < n \<Longrightarrow> ring_next n h < n"
  by (auto simp: ring_next_def)

lemma ring_next_eq_mod: "h < n \<Longrightarrow> (h + 1) mod n = ring_next n h"
  by (auto simp: ring_next_def)

lemma laps_start [simp]: "laps n h h = n"
  by (simp add: laps_def)

lemma laps_pos: "h < n \<Longrightarrow> 0 < laps n start h"
  by (auto simp: laps_def)

lemma laps_next:
  "h < n \<Longrightarrow> start < n \<Longrightarrow> ring_next n h \<noteq> start \<Longrightarrow> laps n start h = Suc (laps n start (ring_next n h))"
  by (auto simp: laps_def ring_next_def split: if_splits)

lemma laps_next_start:
  "h < n \<Longrightarrow> start < n \<Longrightarrow> ring_next n h = start \<Longrightarrow> laps n start h = 1"
  by (auto simp: laps_def ring_next_def split: if_splits)

lemma ahead_less: "h < n \<Longrightarrow> j < n \<Longrightarrow> ahead n h j < n"
  by (auto simp: ahead_def)

lemma ahead_self [simp]: "ahead n h h = 0"
  by (simp add: ahead_def)

lemma ahead_next:
  "h < n \<Longrightarrow> j < n \<Longrightarrow> j \<noteq> h \<Longrightarrow> ahead n h j = Suc (ahead n (ring_next n h) j)"
  by (auto simp: ahead_def ring_next_def split: if_splits)

lemma unat_ring_next:
  fixes h n :: "64 word"
  assumes "h < n"
  shows "unat ((h + 1) mod n) = ring_next (unat n) (unat h)"
proof -
  have lt: "unat h < unat n" using assms by (simp add: word_less_nat_alt)
  have "unat n < 2 ^ 64" using unsigned_less [of n, where ?'a = nat] by simp
  with lt have "unat (h + 1) = unat h + 1"
    by (subst unat_add_no_wrap) simp_all
  then show ?thesis
    using lt by (simp add: unat_mod ring_next_eq_mod [symmetric])
qed

lemma ring_next_word_less:
  fixes h n :: "64 word"
  assumes "h < n"
  shows "(h + 1) mod n < n"
proof -
  have "unat h < unat n" using assms by (simp add: word_less_nat_alt)
  then have "unat ((h + 1) mod n) < unat n"
    by (simp add: unat_ring_next [OF assms] ring_next_less)
  then show ?thesis by (simp add: word_less_nat_alt)
qed

section \<open>Lists\<close>

lemma sum_list_map_update:
  fixes f :: "'a \<Rightarrow> nat"
  assumes "i < length xs"
  shows "sum_list (map f (xs[i := y])) + f (xs ! i) = sum_list (map f xs) + f y"
  using assms
proof (induction xs arbitrary: i)
  case Nil
  then show ?case by simp
next
  case (Cons x xs)
  then show ?case by (cases i) auto
qed

lemma sum_list_member_le:
  fixes f :: "'a \<Rightarrow> nat"
  shows "x \<in> set xs \<Longrightarrow> f x \<le> sum_list (map f xs)"
  by (induction xs) auto

lemma nth_in_set_update:
  "i < length xs \<Longrightarrow> j < length xs \<Longrightarrow> j \<noteq> i \<Longrightarrow> xs ! j \<in> set (xs[i := y])"
  by (metis length_list_update nth_list_update_neq nth_mem)

section \<open>Reachability and inductive invariants\<close>

inductive reach :: "('s \<Rightarrow> bool) \<Rightarrow> ('s \<Rightarrow> 's \<Rightarrow> bool) \<Rightarrow> 's \<Rightarrow> bool"
  for init :: "'s \<Rightarrow> bool" and step :: "'s \<Rightarrow> 's \<Rightarrow> bool" where
  reach_init: "init s \<Longrightarrow> reach init step s"
| reach_step: "reach init step s \<Longrightarrow> step s t \<Longrightarrow> reach init step t"

text \<open>
  The contract between a transition system and a property of all its reachable states:
  the property holds initially and every step keeps it.
\<close>

locale inductive_invariant =
  fixes init :: "'s \<Rightarrow> bool" and step :: "'s \<Rightarrow> 's \<Rightarrow> bool" and inv :: "'s \<Rightarrow> bool"
  assumes inv_init: "init s \<Longrightarrow> inv s"
    and inv_step: "inv s \<Longrightarrow> step s t \<Longrightarrow> inv t"
begin

lemma inv_reach: "reach init step s \<Longrightarrow> inv s"
  by (induction rule: reach.induct) (auto intro: inv_init inv_step)

lemma inv_steps: "step\<^sup>*\<^sup>* s t \<Longrightarrow> inv s \<Longrightarrow> inv t"
  by (induction rule: rtranclp_induct) (auto intro: inv_step)

end

lemma reach_steps: "step\<^sup>*\<^sup>* s t \<Longrightarrow> reach init step s \<Longrightarrow> reach init step t"
  by (induction rule: rtranclp_induct) (auto intro: reach.reach_step)

end
