(* ===== verification/Ring_Cache.thy ===== *)
theory Ring_Cache
  imports Prelude
begin

text \<open>
  The response cache of \<^verbatim>\<open>ring-cache/cache.h\<close> and \<^verbatim>\<open>ring-cache/cache.cc\<close>, class
  \<^verbatim>\<open>RingBufferCache\<close>: its state, and every member function.

  \<^item> \<^verbatim>\<open>size_t\<close> is \<^typ>\<open>64 word\<close> and the pin counter a \<^typ>\<open>32 word\<close>, so sums and
    differences wrap as they do in the code.
  \<^item> An \<^verbatim>\<open>Entry*\<close> and a \<^verbatim>\<open>WaiterSharedPtr\<close> are addresses into two stores
    (\<open>entries\<close>, \<open>waiters\<close>): pointer comparison, sharing of an entry between the slot
    vector, the key map and handed-out fragments, and use after free are visible in the
    model.  Allocation takes an address never used before.
  \<^item> The header map of Envoy is a type parameter \<open>'h\<close>; the one function of it the cache
    calls beside copying, \<^verbatim>\<open>HeaderMap::size()\<close>, is the parameter \<open>hs\<close>.
  \<^item> A buffer is the string of its bytes.
  \<^item> A critical section is one definition, and the posts that a publishing call makes
    after it has unlocked are returned as a list of tasks, in the order of the loop.
\<close>

section \<open>Data\<close>

type_synonym key_t = string
type_synonym entry_ptr = nat
type_synonym waiter_ptr = nat

text \<open>\<^verbatim>\<open>StreamDecoderFilterCallbacks*\<close>: the stream's callbacks and their dispatcher.\<close>

datatype callbacks = Callbacks (cb_id: nat) (cb_dispatcher: nat)

record Waiter =
  wdispatcher :: nat
  wcallbacks :: nat
  wcancelled :: bool

record 'h Entry =
  ekey :: key_t
  eheaders :: "'h option"
  ebody :: string
  epins :: uint32

record 'h Inflight =
  iheaders :: "'h option"
  ibody :: string
  iwaiters :: "waiter_ptr list"

datatype ResultType = Hit | Leader | Follower

text \<open>
  \<open>hfragment\<close> is the entry whose body the hit's buffer fragment refers to; an empty body
  makes no fragment.
\<close>

record 'h HitData =
  hheaders :: 'h
  hbody :: string
  hfragment :: "entry_ptr option"

record 'h LookupResult =
  rtype :: ResultType
  rhit :: "'h HitData option"
  rwaiter :: "waiter_ptr option"

record 'h cache =
  capacity :: size_t
  slot_count :: size_t
  used_size :: size_t
  cache_map :: "key_t \<Rightarrow> entry_ptr option"
  inflight_map :: "key_t \<Rightarrow> 'h Inflight option"
  slots :: "entry_ptr option list"
  head :: size_t
  entries :: "entry_ptr \<Rightarrow> 'h Entry option"
  next_entry :: entry_ptr
  waiters :: "waiter_ptr \<Rightarrow> Waiter option"
  next_waiter :: waiter_ptr

text \<open>
  The closures given to \<^verbatim>\<open>dispatcher_->post\<close>: one constructor per \<^verbatim>\<open>post\<close> call of the
  file, with the captured values.
\<close>

datatype 'h task =
    FeedHeaders (task_waiter: waiter_ptr) 'h bool
  | FeedData (task_waiter: waiter_ptr) string bool
  | Backfill (task_waiter: waiter_ptr) 'h string

text \<open>What a filter's callbacks receive.\<close>

datatype 'h event = EncodeHeaders 'h bool string | EncodeData string bool

definition RingCacheDetailsMessageHit :: string where
  "RingCacheDetailsMessageHit = ''ring_cache.hit''"
definition RingCacheDetailsMessageCoalesced :: string where
  "RingCacheDetailsMessageCoalesced = ''ring_cache.coalesced''"
definition RingCacheDetailsMessageCoalescedBackfill :: string where
  "RingCacheDetailsMessageCoalescedBackfill = ''ring_cache.coalesced_backfill''"

section \<open>Construction and sizes\<close>

definition RingBufferCache :: "size_t \<Rightarrow> size_t \<Rightarrow> 'h cache" where
  "RingBufferCache cap n =
     \<lparr>capacity = cap, slot_count = n, used_size = 0,
      cache_map = Map.empty, inflight_map = Map.empty,
      slots = replicate (unat n) None, head = 0,
      entries = Map.empty, next_entry = 0,
      waiters = Map.empty, next_waiter = 0\<rparr>"

definition string_size :: "string \<Rightarrow> size_t" where
  "string_size s = of_nat (length s)"

definition entry_size :: "('h \<Rightarrow> size_t) \<Rightarrow> 'h Entry \<Rightarrow> fault + size_t" where
  "entry_size hs e =
     and_then (deref NullDeref (eheaders e)) (\<lambda>h.
       Inr (string_size (ekey e) + hs h + string_size (ebody e)))"

definition inflight_size :: "('h \<Rightarrow> size_t) \<Rightarrow> 'h Inflight \<Rightarrow> fault + size_t" where
  "inflight_size hs i =
     and_then (deref NullDeref (iheaders i)) (\<lambda>h.
       Inr (hs h + string_size (ibody i)))"

definition empty_inflight :: "'h Inflight" where
  "empty_inflight = \<lparr>iheaders = None, ibody = [], iwaiters = []\<rparr>"

section \<open>Eviction and insertion\<close>

text \<open>\<^verbatim>\<open>slots_[head_]\<close>, unchecked in C++, and \<^verbatim>\<open>head_ = (head_ + 1) % slot_count_\<close>.\<close>

definition slot_at_head :: "'h cache \<Rightarrow> fault + entry_ptr option" where
  "slot_at_head c =
     (if unat (head c) < length (slots c) then Inr (slots c ! unat (head c))
      else Inl OutOfBounds)"

definition advance_head :: "'h cache \<Rightarrow> fault + 'h cache" where
  "advance_head c =
     (if slot_count c = 0 then Inl DivideByZero
      else Inr (c\<lparr>head := (head c + 1) mod slot_count c\<rparr>))"

text \<open>
  Resetting the slot runs the destructor of the entry, which asserts that nothing pins it.
\<close>

definition evictHeadLocked :: "('h \<Rightarrow> size_t) \<Rightarrow> 'h cache \<Rightarrow> fault + 'h cache" where
  "evictHeadLocked hs c =
     and_then (slot_at_head c) (\<lambda>s.
     and_then (deref (AssertFailed ''Head slot should be occupied before eviction'') s) (\<lambda>p.
     and_then (deref UseAfterFree (entries c p)) (\<lambda>e.
     and_then (entry_size hs e) (\<lambda>sz.
     and_then (check (AssertFailed ''pins_ == 0'') (epins e = 0)) (\<lambda>_.
       Inr (c\<lparr>used_size := used_size c - sz,
              cache_map := (cache_map c)(ekey e := None),
              slots := (slots c)[unat (head c) := None],
              entries := (entries c)(p := None)\<rparr>))))))"

text \<open>The body of the eviction loop: evict the head entry unless it is pinned.\<close>

definition try_evict_head :: "('h \<Rightarrow> size_t) \<Rightarrow> 'h cache \<Rightarrow> fault + 'h cache" where
  "try_evict_head hs c =
     and_then (slot_at_head c) (\<lambda>s.
       case s of
         None \<Rightarrow> Inr c
       | Some p \<Rightarrow>
           and_then (deref UseAfterFree (entries c p)) (\<lambda>e.
             if epins e = 0 then evictHeadLocked hs c else Inr c))"

definition lacks_space :: "size_t \<Rightarrow> 'h cache \<Rightarrow> bool" where
  "lacks_space size_needed c = (capacity c - used_size c < size_needed)"

text \<open>
  The two loops of \<^verbatim>\<open>evictTillCapacityLocked\<close>.  Each turns the ring at most once, so
  one unit of fuel more than there are slots is enough; running out is a fault, which the
  invariant theory excludes.
\<close>

fun evict_loop :: "nat \<Rightarrow> ('h \<Rightarrow> size_t) \<Rightarrow> size_t \<Rightarrow> size_t \<Rightarrow> 'h cache \<Rightarrow> fault + bool \<times> 'h cache" where
  "evict_loop 0 hs start size_needed c = Inl OutOfFuel"
| "evict_loop (Suc fuel) hs start size_needed c =
     (if lacks_space size_needed c then
        and_then (try_evict_head hs c) (\<lambda>c1.
        and_then (advance_head c1) (\<lambda>c2.
          if start = head c2 \<and> lacks_space size_needed c2 then Inr (False, c2)
          else evict_loop fuel hs start size_needed c2))
      else Inr (True, c))"

fun free_slot_loop :: "nat \<Rightarrow> size_t \<Rightarrow> 'h cache \<Rightarrow> fault + bool \<times> 'h cache" where
  "free_slot_loop 0 start_slot c = Inl OutOfFuel"
| "free_slot_loop (Suc fuel) start_slot c =
     and_then (slot_at_head c) (\<lambda>s.
       case s of
         None \<Rightarrow> Inr (True, c)
       | Some p \<Rightarrow>
           and_then (advance_head c) (\<lambda>c1.
             if head c1 = start_slot then Inr (False, c1)
             else free_slot_loop fuel start_slot c1))"

definition evictTillCapacityLocked ::
    "('h \<Rightarrow> size_t) \<Rightarrow> size_t \<Rightarrow> 'h cache \<Rightarrow> fault + bool \<times> 'h cache" where
  "evictTillCapacityLocked hs size_needed c =
     (if capacity c < size_needed then Inr (False, c)
      else
        and_then (evict_loop (Suc (unat (slot_count c))) hs (head c) size_needed c) (\<lambda>(ok, c1).
          if \<not> ok then Inr (False, c1)
          else free_slot_loop (Suc (unat (slot_count c1))) (head c1) c1))"

definition insertEntryLocked ::
    "('h \<Rightarrow> size_t) \<Rightarrow> key_t \<Rightarrow> 'h option \<Rightarrow> string \<Rightarrow> 'h cache \<Rightarrow> fault + 'h cache" where
  "insertEntryLocked hs key hdrs body c =
     and_then (slot_at_head c) (\<lambda>s.
     and_then (check (AssertFailed ''Head slot should be empty before insert'') (s = None)) (\<lambda>_.
       let p = next_entry c;
           e = \<lparr>ekey = key, eheaders = hdrs, ebody = body, epins = 0\<rparr>;
           c1 = c\<lparr>slots := (slots c)[unat (head c) := Some p],
                  entries := (entries c)(p := Some e),
                  next_entry := Suc p,
                  cache_map := (cache_map c)(key := Some p)\<rparr>
       in and_then (advance_head c1) (\<lambda>c2.
          and_then (entry_size hs e) (\<lambda>sz.
            Inr (c2\<lparr>used_size := used_size c2 + sz\<rparr>)))))"

definition finalizeLocked :: "('h \<Rightarrow> size_t) \<Rightarrow> key_t \<Rightarrow> 'h cache \<Rightarrow> fault + 'h cache" where
  "finalizeLocked hs key c =
     and_then (deref (AssertFailed ''Finalize called on non-inflight key'') (inflight_map c key)) (\<lambda>i.
     and_then (inflight_size hs i) (\<lambda>isz.
     and_then (evictTillCapacityLocked hs (isz + string_size key) c) (\<lambda>(ok, c1).
     and_then (if ok then insertEntryLocked hs key (iheaders i) (ibody i) c1 else Inr c1) (\<lambda>c2.
       Inr (c2\<lparr>inflight_map := (inflight_map c2)(key := None)\<rparr>)))))"

section \<open>Lookup\<close>

text \<open>
  \<^verbatim>\<open>attachBackfillWaiterLocked\<close> updates the inflight record it is given and posts at most
  one task, while the mutex is held.
\<close>

definition attachBackfillWaiterLocked ::
    "'h Inflight \<Rightarrow> waiter_ptr \<Rightarrow> fault + 'h Inflight \<times> 'h task list" where
  "attachBackfillWaiterLocked inflight w =
     (let i = inflight\<lparr>iwaiters := iwaiters inflight @ [w]\<rparr> in
      and_then (check (AssertFailed ''inflight.headers_ || inflight.body_.empty()'')
                  (iheaders i \<noteq> None \<or> ibody i = [])) (\<lambda>_.
        case iheaders i of
          None \<Rightarrow> Inr (i, [])
        | Some h \<Rightarrow> Inr (i, [Backfill w h (ibody i)])))"

datatype 'h locked_lookup = LockedHit entry_ptr | LockedDone "'h LookupResult"

text \<open>The critical section of \<^verbatim>\<open>lookup\<close>.\<close>

definition lookup_locked ::
    "key_t \<Rightarrow> callbacks option \<Rightarrow> 'h cache \<Rightarrow> fault + 'h locked_lookup \<times> 'h cache \<times> 'h task list" where
  "lookup_locked key cb c =
     (case cache_map c key of
        Some p \<Rightarrow>
          and_then (deref UseAfterFree (entries c p)) (\<lambda>e.
            Inr (LockedHit p,
                 c\<lparr>entries := (entries c)(p := Some (e\<lparr>epins := epins e + 1\<rparr>))\<rparr>, []))
      | None \<Rightarrow>
         (case inflight_map c key of
            None \<Rightarrow>
              Inr (LockedDone \<lparr>rtype = Leader, rhit = None, rwaiter = None\<rparr>,
                   c\<lparr>inflight_map := (inflight_map c)(key := Some empty_inflight)\<rparr>, [])
          | Some i \<Rightarrow>
              and_then (deref (AssertFailed ''callbacks != nullptr'') cb) (\<lambda>cbs.
                let w = next_waiter c;
                    wt = \<lparr>wdispatcher = cb_dispatcher cbs, wcallbacks = cb_id cbs, wcancelled = False\<rparr>
                in and_then (attachBackfillWaiterLocked i w) (\<lambda>(i', ts).
                     Inr (LockedDone \<lparr>rtype = Follower, rhit = None, rwaiter = Some w\<rparr>,
                          c\<lparr>waiters := (waiters c)(w := Some wt), next_waiter := Suc w,
                            inflight_map := (inflight_map c)(key := Some i')\<rparr>, ts)))))"

text \<open>
  Serving a hit after the mutex is released: the headers are copied through the entry
  pointer, and the pin is dropped at once when there is no body to refer to.
\<close>

definition unpin :: "entry_ptr \<Rightarrow> 'h cache \<Rightarrow> fault + 'h cache" where
  "unpin p c =
     and_then (deref UseAfterFree (entries c p)) (\<lambda>e.
       Inr (c\<lparr>entries := (entries c)(p := Some (e\<lparr>epins := epins e - 1\<rparr>))\<rparr>))"

definition serve_hit :: "entry_ptr \<Rightarrow> 'h cache \<Rightarrow> fault + 'h LookupResult \<times> 'h cache" where
  "serve_hit p c =
     and_then (deref UseAfterFree (entries c p)) (\<lambda>e.
     and_then (deref NullDeref (eheaders e)) (\<lambda>h.
       if length (ebody e) = 0 then
         and_then (unpin p c) (\<lambda>c1.
           Inr (\<lparr>rtype = Hit, rhit = Some \<lparr>hheaders = h, hbody = [], hfragment = None\<rparr>,
                 rwaiter = None\<rparr>, c1))
       else
         Inr (\<lparr>rtype = Hit, rhit = Some \<lparr>hheaders = h, hbody = ebody e, hfragment = Some p\<rparr>,
               rwaiter = None\<rparr>, c)))"

definition lookup ::
    "key_t \<Rightarrow> callbacks option \<Rightarrow> 'h cache \<Rightarrow> fault + 'h LookupResult \<times> 'h cache \<times> 'h task list" where
  "lookup key cb c =
     and_then (lookup_locked key cb c) (\<lambda>(l, c1, ts).
       case l of
         LockedDone r \<Rightarrow> Inr (r, c1, ts)
       | LockedHit p \<Rightarrow> and_then (serve_hit p c1) (\<lambda>(r, c2). Inr (r, c2, ts)))"

text \<open>The deleter of a hit's buffer fragment, run when the last buffer holding it is gone.\<close>

definition release_fragment :: "entry_ptr \<Rightarrow> 'h cache \<Rightarrow> fault + 'h cache" where
  "release_fragment p c = unpin p c"

section \<open>Publishing\<close>

definition publishHeaders ::
    "('h \<Rightarrow> size_t) \<Rightarrow> key_t \<Rightarrow> 'h \<Rightarrow> bool \<Rightarrow> 'h cache \<Rightarrow> fault + 'h cache \<times> 'h task list" where
  "publishHeaders hs key response_headers end_stream c =
     (case inflight_map c key of
        None \<Rightarrow> Inr (c, [])
      | Some inflight \<Rightarrow>
          let hdrs = (case iheaders inflight of None \<Rightarrow> response_headers | Some h \<Rightarrow> h);
              c1 = c\<lparr>inflight_map := (inflight_map c)(key := Some (inflight\<lparr>iheaders := Some hdrs\<rparr>))\<rparr>
          in and_then (if end_stream then finalizeLocked hs key c1 else Inr c1) (\<lambda>c2.
               Inr (c2, map (\<lambda>w. FeedHeaders w hdrs end_stream) (iwaiters inflight))))"

definition publishData ::
    "('h \<Rightarrow> size_t) \<Rightarrow> key_t \<Rightarrow> string \<Rightarrow> bool \<Rightarrow> 'h cache \<Rightarrow> fault + 'h cache \<times> 'h task list" where
  "publishData hs key data end_stream c =
     (case inflight_map c key of
        None \<Rightarrow> Inr (c, [])
      | Some inflight \<Rightarrow>
          let c1 = c\<lparr>inflight_map := (inflight_map c)(key := Some (inflight\<lparr>ibody := ibody inflight @ data\<rparr>))\<rparr>
          in and_then (if end_stream then finalizeLocked hs key c1 else Inr c1) (\<lambda>c2.
               Inr (c2, map (\<lambda>w. FeedData w data end_stream) (iwaiters inflight))))"

section \<open>Removing a waiter\<close>

text \<open>The search loop of \<^verbatim>\<open>removeWaiter\<close> with its swap and pop; \<open>None\<close> when it finds nothing.\<close>

function swap_pop_from :: "nat \<Rightarrow> waiter_ptr \<Rightarrow> waiter_ptr list \<Rightarrow> waiter_ptr list option" where
  "swap_pop_from i w ws =
     (if i < length ws then
        (if ws ! i = w then
           Some (butlast (ws[i := ws ! (length ws - 1), length ws - 1 := ws ! i]))
         else swap_pop_from (Suc i) w ws)
      else None)"
  by pat_completeness auto
termination
  by (relation "measure (\<lambda>(i, w, ws). length ws - i)") auto

declare swap_pop_from.simps [simp del]

definition removeWaiter :: "key_t \<Rightarrow> waiter_ptr \<Rightarrow> 'h cache \<Rightarrow> 'h cache" where
  "removeWaiter key w c =
     (case inflight_map c key of
        None \<Rightarrow> c
      | Some inflight \<Rightarrow>
          (case swap_pop_from 0 w (iwaiters inflight) of
             None \<Rightarrow> c
           | Some ws \<Rightarrow> c\<lparr>inflight_map := (inflight_map c)(key := Some (inflight\<lparr>iwaiters := ws\<rparr>))\<rparr>))"

text \<open>\<^verbatim>\<open>waiter_->cancelled.store(true)\<close>, done by the filter on the shared waiter object.\<close>

definition cancel_waiter :: "waiter_ptr \<Rightarrow> 'h cache \<Rightarrow> fault + 'h cache" where
  "cancel_waiter w c =
     and_then (deref UseAfterFree (waiters c w)) (\<lambda>wt.
       Inr (c\<lparr>waiters := (waiters c)(w := Some (wt\<lparr>wcancelled := True\<rparr>))\<rparr>))"

section \<open>The posted closures\<close>

text \<open>
  The three lambdas posted by \<^verbatim>\<open>publishHeaders\<close>, \<^verbatim>\<open>publishData\<close> and
  \<^verbatim>\<open>attachBackfillWaiterLocked\<close>: each returns at once for a cancelled waiter, else it calls
  the waiter's callbacks.
\<close>

definition feed_headers_closure :: "waiter_ptr \<Rightarrow> 'h \<Rightarrow> bool \<Rightarrow> 'h cache \<Rightarrow> fault + 'h event list" where
  "feed_headers_closure w h end c =
     and_then (deref UseAfterFree (waiters c w)) (\<lambda>wt.
       if wcancelled wt then Inr []
       else Inr [EncodeHeaders h end RingCacheDetailsMessageCoalesced])"

definition feed_data_closure :: "waiter_ptr \<Rightarrow> string \<Rightarrow> bool \<Rightarrow> 'h cache \<Rightarrow> fault + 'h event list" where
  "feed_data_closure w chunk end c =
     and_then (deref UseAfterFree (waiters c w)) (\<lambda>wt.
       if wcancelled wt then Inr [] else Inr [EncodeData chunk end])"

definition backfill_closure :: "waiter_ptr \<Rightarrow> 'h \<Rightarrow> string \<Rightarrow> 'h cache \<Rightarrow> fault + 'h event list" where
  "backfill_closure w h body c =
     and_then (deref UseAfterFree (waiters c w)) (\<lambda>wt.
       if wcancelled wt then Inr []
       else Inr (EncodeHeaders h False RingCacheDetailsMessageCoalescedBackfill
                   # (if 0 < length body then [EncodeData body False] else [])))"

text \<open>Running a posted closure.\<close>

fun run_task :: "'h task \<Rightarrow> 'h cache \<Rightarrow> fault + 'h event list" where
  "run_task (FeedHeaders w h end) c = feed_headers_closure w h end c"
| "run_task (FeedData w d end) c = feed_data_closure w d end c"
| "run_task (Backfill w h b) c = backfill_closure w h b c"

text \<open>What a closure sends when its waiter is not cancelled.\<close>

fun task_events :: "'h task \<Rightarrow> 'h event list" where
  "task_events (FeedHeaders w h end) = [EncodeHeaders h end RingCacheDetailsMessageCoalesced]"
| "task_events (FeedData w d end) = [EncodeData d end]"
| "task_events (Backfill w h b) =
     EncodeHeaders h False RingCacheDetailsMessageCoalescedBackfill
       # (if 0 < length b then [EncodeData b False] else [])"

lemma run_task_events:
  "run_task t c =
     and_then (deref UseAfterFree (waiters c (task_waiter t))) (\<lambda>wt.
       Inr (if wcancelled wt then [] else task_events t))"
  by (cases t)
    (auto simp: feed_headers_closure_def feed_data_closure_def backfill_closure_def and_then_def split: sum.split)

lemmas cache_op_defs [cache_simps] =
  entry_size_def inflight_size_def string_size_def slot_at_head_def advance_head_def
  empty_inflight_def lacks_space_def

end
