(* ===== verification/Ring_Storage.thy ===== *)
theory Ring_Storage
  imports Ring_Cache
begin

text \<open>
  The permanent storage of the cache: the invariant that ties the slot vector, the key map,
  the entry objects and the size counter together, and the behaviour of
  \<^verbatim>\<open>evictHeadLocked\<close>, \<^verbatim>\<open>evictTillCapacityLocked\<close> and \<^verbatim>\<open>insertEntryLocked\<close> under it.
\<close>

section \<open>Sizes as natural numbers\<close>

definition response_bytes :: "('h \<Rightarrow> size_t) \<Rightarrow> key_t \<Rightarrow> 'h option \<Rightarrow> string \<Rightarrow> nat" where
  "response_bytes hs k hdrs b =
     length k + (case hdrs of None \<Rightarrow> 0 | Some h \<Rightarrow> unat (hs h)) + length b"

definition entry_bytes :: "('h \<Rightarrow> size_t) \<Rightarrow> 'h Entry \<Rightarrow> nat" where
  "entry_bytes hs e = response_bytes hs (ekey e) (eheaders e) (ebody e)"

definition slot_bytes :: "('h \<Rightarrow> size_t) \<Rightarrow> (entry_ptr \<Rightarrow> 'h Entry option) \<Rightarrow> entry_ptr option \<Rightarrow> nat" where
  "slot_bytes hs m s =
     (case s of None \<Rightarrow> 0 | Some p \<Rightarrow> (case m p of None \<Rightarrow> 0 | Some e \<Rightarrow> entry_bytes hs e))"

lemma slot_bytes_simps [simp]:
  "slot_bytes hs m None = 0"
  "slot_bytes hs m (Some p) = (case m p of None \<Rightarrow> 0 | Some e \<Rightarrow> entry_bytes hs e)"
  by (simp_all add: slot_bytes_def)

definition stored_bytes :: "('h \<Rightarrow> size_t) \<Rightarrow> 'h cache \<Rightarrow> nat" where
  "stored_bytes hs c = sum_list (map (slot_bytes hs (entries c)) (slots c))"

definition entry_ok :: "('h \<Rightarrow> size_t) \<Rightarrow> 'h Entry \<Rightarrow> bool" where
  "entry_ok hs e \<longleftrightarrow> eheaders e \<noteq> None \<and> entry_bytes hs e < 2 ^ 64"

section \<open>The storage invariant\<close>

definition ring_ok :: "'h cache \<Rightarrow> bool" where
  "ring_ok c \<longleftrightarrow>
     0 < slot_count c \<and> length (slots c) = unat (slot_count c) \<and> head c < slot_count c"

definition owns_entries :: "'h cache \<Rightarrow> bool" where
  "owns_entries c \<longleftrightarrow>
     (\<forall>p. Some p \<in> set (slots c) \<longleftrightarrow> entries c p \<noteq> None) \<and>
     (\<forall>i j. i < length (slots c) \<longrightarrow> j < length (slots c) \<longrightarrow>
        slots c ! i \<noteq> None \<longrightarrow> slots c ! i = slots c ! j \<longrightarrow> i = j) \<and>
     (\<forall>p. entries c p \<noteq> None \<longrightarrow> p < next_entry c)"

definition indexed :: "'h cache \<Rightarrow> bool" where
  "indexed c \<longleftrightarrow> (\<forall>k p. cache_map c k = Some p \<longleftrightarrow> (\<exists>e. entries c p = Some e \<and> ekey e = k))"

definition accounted :: "('h \<Rightarrow> size_t) \<Rightarrow> 'h cache \<Rightarrow> bool" where
  "accounted hs c \<longleftrightarrow>
     (\<forall>p e. entries c p = Some e \<longrightarrow> entry_ok hs e) \<and>
     unat (used_size c) = stored_bytes hs c \<and> used_size c \<le> capacity c"

definition storage_inv :: "('h \<Rightarrow> size_t) \<Rightarrow> 'h cache \<Rightarrow> bool" where
  "storage_inv hs c \<longleftrightarrow> ring_ok c \<and> owns_entries c \<and> indexed c \<and> accounted hs c"

lemmas storage_inv_defs [inv_defs] =
  storage_inv_def ring_ok_def owns_entries_def indexed_def accounted_def

lemma storage_inv_init: "0 < n \<Longrightarrow> storage_inv hs (RingBufferCache cap n)"
proof -
  have "sum_list (map (slot_bytes hs Map.empty) (replicate m None)) = 0" for m
    by (induction m) (simp_all add: slot_bytes_def)
  then show "0 < n \<Longrightarrow> ?thesis"
    by (simp add: storage_inv_defs RingBufferCache_def stored_bytes_def)
qed

lemma ring_head_in_range: "ring_ok c \<Longrightarrow> unat (head c) < length (slots c)"
  by (simp add: ring_ok_def word_less_nat_alt)

lemma slot_at_head_ok:
  "ring_ok c \<Longrightarrow> slot_at_head c = Inr (slots c ! unat (head c))"
  by (simp add: slot_at_head_def ring_head_in_range)

lemma owned_iff: "owns_entries c \<Longrightarrow> Some p \<in> set (slots c) \<longleftrightarrow> entries c p \<noteq> None"
  by (simp add: owns_entries_def)

lemma slot_unique:
  "owns_entries c \<Longrightarrow> i < length (slots c) \<Longrightarrow> j < length (slots c) \<Longrightarrow>
     slots c ! i = Some p \<Longrightarrow> slots c ! j = Some p \<Longrightarrow> i = j"
  unfolding owns_entries_def by (metis option.distinct(1))

lemma slot_entry:
  assumes "owns_entries c" "i < length (slots c)" "slots c ! i = Some p"
  obtains e where "entries c p = Some e"
  using assms by (metis owns_entries_def nth_mem not_None_eq)

lemma entry_slot:
  assumes "owns_entries c" "entries c p = Some e"
  obtains i where "i < length (slots c)" "slots c ! i = Some p"
  using assms by (metis owns_entries_def in_set_conv_nth option.distinct(1))

lemma indexed_unique:
  "indexed c \<Longrightarrow> entries c p = Some e \<Longrightarrow> entries c q = Some f \<Longrightarrow> ekey e = ekey f \<Longrightarrow> p = q"
  by (metis indexed_def option.inject)

lemma entry_size_ok:
  "entry_ok hs e \<Longrightarrow> entry_size hs e = Inr (of_nat (entry_bytes hs e))"
  by (auto simp: entry_ok_def entry_size_def entry_bytes_def response_bytes_def string_size_def)

lemma stored_bytes_update:
  assumes own: "owns_entries c" and i: "i < length (slots c)" and p: "slots c ! i = Some p"
    and e: "entries c p = Some e"
  shows "sum_list (map (slot_bytes hs ((entries c)(p := None))) ((slots c)[i := None]))
           + entry_bytes hs e = stored_bytes hs c"
proof -
  have notin: "Some p \<notin> set ((slots c)[i := None])"
  proof
    assume "Some p \<in> set ((slots c)[i := None])"
    then obtain j where j: "j < length (slots c)" "(slots c)[i := None] ! j = Some p"
      by (auto simp: in_set_conv_nth)
    then have "j \<noteq> i" using i by auto
    with j have "slots c ! j = Some p" by simp
    with own i p j(1) \<open>j \<noteq> i\<close> show False
      by (metis owns_entries_def option.distinct(1))
  qed
  have "map (slot_bytes hs ((entries c)(p := None))) ((slots c)[i := None])
        = map (slot_bytes hs (entries c)) ((slots c)[i := None])"
    by (rule map_cong [OF refl]) (use notin in \<open>auto simp: slot_bytes_def split: option.splits\<close>)
  then have "sum_list (map (slot_bytes hs ((entries c)(p := None))) ((slots c)[i := None]))
      = sum_list (map (slot_bytes hs (entries c)) ((slots c)[i := None]))"
    by (rule arg_cong)
  then show ?thesis
    using sum_list_map_update [OF i, of "slot_bytes hs (entries c)" None] p e
    by (simp only: stored_bytes_def slot_bytes_simps add_0_right option.case)
qed

lemma entry_bytes_le_stored:
  "owns_entries c \<Longrightarrow> entries c p = Some e \<Longrightarrow> entry_bytes hs e \<le> stored_bytes hs c"
proof -
  assume "owns_entries c" and e: "entries c p = Some e"
  then have "Some p \<in> set (slots c)" by (auto simp: owns_entries_def)
  then have "slot_bytes hs (entries c) (Some p) \<le> stored_bytes hs c"
    unfolding stored_bytes_def by (rule sum_list_member_le)
  with e show ?thesis by (simp add: slot_bytes_def)
qed

section \<open>Evicting the head entry\<close>

definition without_head :: "('h \<Rightarrow> size_t) \<Rightarrow> entry_ptr \<Rightarrow> 'h Entry \<Rightarrow> 'h cache \<Rightarrow> 'h cache" where
  "without_head hs p e c =
     c\<lparr>used_size := used_size c - of_nat (entry_bytes hs e),
       cache_map := (cache_map c)(ekey e := None),
       slots := (slots c)[unat (head c) := None],
       entries := (entries c)(p := None)\<rparr>"

lemma evictHeadLocked_ok:
  assumes "storage_inv hs c" "slots c ! unat (head c) = Some p" "entries c p = Some e" "epins e = 0"
  shows "evictHeadLocked hs c = Inr (without_head hs p e c)"
proof -
  have "entry_ok hs e" using assms by (auto simp: storage_inv_defs)
  then show ?thesis
    using assms by (simp add: evictHeadLocked_def slot_at_head_ok storage_inv_def
        entry_size_ok without_head_def)
qed

lemma without_head_owns:
  assumes own: "owns_entries c" and h: "unat (head c) < length (slots c)" and p: "slots c ! unat (head c) = Some p"
  shows "owns_entries (without_head hs p e c)"
proof -
  let ?h = "unat (head c)" and ?d = "without_head hs p e c"
  have uniq: "j = ?h" if "j < length (slots c)" "slots c ! j = Some p" for j
    using own h p that by (metis owns_entries_def option.distinct(1))
  have upd: "(slots c)[?h := None] ! j = (if j = ?h then None else slots c ! j)"
    if "j < length (slots c)" for j
    using that by simp
  have members: "Some q \<in> set ((slots c)[?h := None]) \<longleftrightarrow> Some q \<in> set (slots c) \<and> q \<noteq> p" for q
  proof
    assume "Some q \<in> set ((slots c)[?h := None])"
    then obtain j where "j < length (slots c)" "(slots c)[?h := None] ! j = Some q"
      by (auto simp: in_set_conv_nth)
    with upd have "j \<noteq> ?h" "slots c ! j = Some q" by (auto split: if_splits)
    then show "Some q \<in> set (slots c) \<and> q \<noteq> p"
      using \<open>j < length (slots c)\<close> uniq by (metis nth_mem)
  next
    assume "Some q \<in> set (slots c) \<and> q \<noteq> p"
    then obtain j where "j < length (slots c)" "slots c ! j = Some q" "q \<noteq> p"
      by (auto simp: in_set_conv_nth)
    then show "Some q \<in> set ((slots c)[?h := None])"
      using p h by (metis nth_in_set_update option.inject)
  qed
  show ?thesis
    unfolding owns_entries_def
  proof (intro conjI allI impI)
    fix q show "Some q \<in> set (slots ?d) \<longleftrightarrow> entries ?d q \<noteq> None"
      using own by (auto simp: without_head_def members owns_entries_def)
  next
    fix i j assume "i < length (slots ?d)" "j < length (slots ?d)"
      "slots ?d ! i \<noteq> None" "slots ?d ! i = slots ?d ! j"
    then show "i = j"
      using own upd by (auto simp: without_head_def owns_entries_def split: if_splits)
  next
    fix q assume "entries ?d q \<noteq> None"
    then show "q < next_entry ?d"
      using own by (auto simp: without_head_def owns_entries_def split: if_splits)
  qed
qed

lemma without_head_indexed:
  assumes idx: "indexed c" and e: "entries c p = Some e"
  shows "indexed (without_head hs p e c)"
  unfolding indexed_def
proof (intro allI)
  fix k q
  have map_c: "cache_map c k = Some q \<longleftrightarrow> (\<exists>f. entries c q = Some f \<and> ekey f = k)"
    using idx by (simp add: indexed_def)
  show "cache_map (without_head hs p e c) k = Some q \<longleftrightarrow> (\<exists>f. entries (without_head hs p e c) q = Some f \<and> ekey f = k)"
  proof (cases "k = ekey e")
    case True
    then show ?thesis using indexed_unique [OF idx e] by (auto simp: without_head_def)
  next
    case False
    then show ?thesis using map_c e by (auto simp: without_head_def)
  qed
qed

lemma without_head_accounted:
  assumes own: "owns_entries c" and acc: "accounted hs c" and h: "unat (head c) < length (slots c)"
    and p: "slots c ! unat (head c) = Some p" and e: "entries c p = Some e"
  shows "accounted hs (without_head hs p e c)"
proof -
  let ?d = "without_head hs p e c"
  have ok: "entry_ok hs e" using acc e by (auto simp: accounted_def)
  have sum: "stored_bytes hs ?d + entry_bytes hs e = stored_bytes hs c"
    using stored_bytes_update [OF own h p e, of hs] by (simp add: stored_bytes_def without_head_def)
  have "entry_bytes hs e < 2 ^ 64" using ok by (simp add: entry_ok_def)
  then have sz: "unat (of_nat (entry_bytes hs e) :: size_t) = entry_bytes hs e" by simp
  have used: "unat (used_size c) = stored_bytes hs c" using acc by (simp add: accounted_def)
  then have le: "(of_nat (entry_bytes hs e) :: size_t) \<le> used_size c"
    using sum sz by (simp add: word_le_nat_alt)
  have dif: "unat (used_size ?d) = stored_bytes hs ?d"
    using sum sz used unat_diff_le [OF le] by (simp add: without_head_def)
  have "used_size ?d \<le> capacity ?d"
    using acc dif used sum by (simp add: accounted_def word_le_nat_alt without_head_def)
  then show ?thesis
    using acc dif by (auto simp: accounted_def without_head_def split: if_splits)
qed

lemma without_head_inv:
  assumes inv: "storage_inv hs c" and p: "slots c ! unat (head c) = Some p"
    and e: "entries c p = Some e"
  shows "storage_inv hs (without_head hs p e c)"
proof -
  from inv have ring: "ring_ok c" and own: "owns_entries c" and idx: "indexed c"
    and acc: "accounted hs c" by (simp_all add: storage_inv_def)
  note h = ring_head_in_range [OF ring]
  have "ring_ok (without_head hs p e c)" using ring by (simp add: ring_ok_def without_head_def)
  then show ?thesis
    using without_head_owns [OF own h p] without_head_indexed [OF idx e] without_head_accounted [OF own acc h p e]
    by (simp add: storage_inv_def)
qed

section \<open>What eviction may change\<close>

text \<open>
  \<open>evicts_to c c'\<close>: \<open>c'\<close> results from \<open>c\<close> by moving the head and dropping entries that are
  not pinned; everything else is the same.
\<close>

definition evict_frame :: "'h cache \<Rightarrow> 'h cache \<Rightarrow> bool" where
  "evict_frame c c' \<longleftrightarrow>
     capacity c' = capacity c \<and> slot_count c' = slot_count c \<and>
     inflight_map c' = inflight_map c \<and> waiters c' = waiters c \<and>
     next_waiter c' = next_waiter c \<and> next_entry c' = next_entry c \<and>
     length (slots c') = length (slots c)"

definition evicts_to :: "'h cache \<Rightarrow> 'h cache \<Rightarrow> bool" where
  "evicts_to c c' \<longleftrightarrow>
     evict_frame c c' \<and>
     (\<forall>i. i < length (slots c) \<longrightarrow> slots c' ! i = slots c ! i \<or> slots c' ! i = None) \<and>
     (\<forall>p e. entries c' p = Some e \<longrightarrow> entries c p = Some e) \<and>
     (\<forall>p e. entries c p = Some e \<longrightarrow> epins e \<noteq> 0 \<longrightarrow> entries c' p = Some e)"

lemma evicts_to_slot:
  "evicts_to c c' \<Longrightarrow> i < length (slots c) \<Longrightarrow> slots c' ! i = slots c ! i \<or> slots c' ! i = None"
  unfolding evicts_to_def by simp

lemma evicts_to_sub: "evicts_to c c' \<Longrightarrow> entries c' p = Some e \<Longrightarrow> entries c p = Some e"
  unfolding evicts_to_def by blast

lemma evicts_to_pinned:
  "evicts_to c c' \<Longrightarrow> entries c p = Some e \<Longrightarrow> epins e \<noteq> 0 \<Longrightarrow> entries c' p = Some e"
  unfolding evicts_to_def by blast

lemma evicts_to_frame:
  assumes "evicts_to c c'"
  shows "capacity c' = capacity c" "slot_count c' = slot_count c"
    "inflight_map c' = inflight_map c" "waiters c' = waiters c"
    "next_waiter c' = next_waiter c" "next_entry c' = next_entry c"
    and evicts_to_len: "length (slots c') = length (slots c)"
  using assms unfolding evicts_to_def evict_frame_def by simp_all

lemma evicts_to_refl: "evicts_to c c"
  by (simp add: evicts_to_def evict_frame_def)

lemma evicts_to_head: "evicts_to c (c\<lparr>head := h\<rparr>)"
  by (simp add: evicts_to_def evict_frame_def)

lemma evicts_to_trans:
  assumes "evicts_to a b" "evicts_to b c"
  shows "evicts_to a c"
proof -
  have "slots c ! i = slots a ! i \<or> slots c ! i = None" if "i < length (slots a)" for i
    using evicts_to_slot [OF assms(1) that] evicts_to_slot [OF assms(2), of i]
      evicts_to_len [OF assms(1)] that by auto
  moreover have "entries a p = Some e" if "entries c p = Some e" for p e
    by (rule evicts_to_sub [OF assms(1) evicts_to_sub [OF assms(2) that]])
  moreover have "entries c p = Some e" if "entries a p = Some e" "epins e \<noteq> 0" for p e
    by (rule evicts_to_pinned [OF assms(2) evicts_to_pinned [OF assms(1) that] that(2)])
  moreover have "evict_frame a c"
    using evicts_to_frame [OF assms(1)] evicts_to_frame [OF assms(2)]
      evicts_to_len [OF assms(1)] evicts_to_len [OF assms(2)] by (simp add: evict_frame_def)
  ultimately show ?thesis unfolding evicts_to_def by blast
qed

lemma evicts_to_without_head:
  assumes "entries c p = Some e" "epins e = 0"
  shows "evicts_to c (without_head hs p e c)"
proof -
  have "(slots c)[unat (head c) := None] ! i = slots c ! i
      \<or> (slots c)[unat (head c) := None] ! i = None" if "i < length (slots c)" for i
    using that by (cases "i = unat (head c)") simp_all
  then show ?thesis using assms by (simp add: evicts_to_def evict_frame_def without_head_def)
qed

lemma storage_inv_head:
  "storage_inv hs c \<Longrightarrow> h < slot_count c \<Longrightarrow> storage_inv hs (c\<lparr>head := h\<rparr>)"
  by (auto simp: storage_inv_defs stored_bytes_def)

lemma try_evict_head_ok:
  assumes inv: "storage_inv hs c"
  obtains c' where "try_evict_head hs c = Inr c'" "storage_inv hs c'" "evicts_to c c'" "head c' = head c"
    "\<forall>p e. slots c' ! unat (head c) = Some p \<longrightarrow> entries c' p = Some e \<longrightarrow> epins e \<noteq> 0"
proof (cases "slots c ! unat (head c)")
  case None
  then have "try_evict_head hs c = Inr c"
    using inv by (simp add: try_evict_head_def slot_at_head_ok storage_inv_def)
  with None inv that [of c] show ?thesis by (simp add: evicts_to_refl)
next
  case (Some p)
  have ring: "ring_ok c" and own: "owns_entries c" using inv by (simp_all add: storage_inv_def)
  obtain e where e: "entries c p = Some e"
    by (rule slot_entry [OF own ring_head_in_range [OF ring] Some])
  show ?thesis
  proof (cases "epins e = 0")
    case True
    then have "try_evict_head hs c = Inr (without_head hs p e c)"
      using inv Some e by (simp add: try_evict_head_def slot_at_head_ok storage_inv_def evictHeadLocked_ok)
    moreover have "slots (without_head hs p e c) ! unat (head c) = None"
      using ring_head_in_range [OF ring] by (simp add: without_head_def)
    ultimately show ?thesis
      using that [of "without_head hs p e c"] without_head_inv [OF inv Some e]
        evicts_to_without_head [where hs = hs, OF e True]
      by (simp add: without_head_def)
  next
    case False
    then have "try_evict_head hs c = Inr c"
      using inv Some e by (simp add: try_evict_head_def slot_at_head_ok storage_inv_def)
    with inv Some e False show ?thesis by (intro that [of c]) (auto simp: evicts_to_refl)
  qed
qed

lemma advance_head_ok:
  assumes "storage_inv hs c"
  shows "advance_head c = Inr (c\<lparr>head := (head c + 1) mod slot_count c\<rparr>)"
    and "storage_inv hs (c\<lparr>head := (head c + 1) mod slot_count c\<rparr>)"
proof -
  have "head c < slot_count c" using assms by (simp add: storage_inv_defs)
  then show "advance_head c = Inr (c\<lparr>head := (head c + 1) mod slot_count c\<rparr>)"
    and "storage_inv hs (c\<lparr>head := (head c + 1) mod slot_count c\<rparr>)"
    using assms ring_next_word_less
    by (auto simp: advance_head_def intro: storage_inv_head)
qed

section \<open>The eviction loop\<close>

text \<open>
  The scan has passed every slot that lies at least \<open>laps\<close> steps ahead of the head; it
  leaves only pinned entries behind.
\<close>

definition swept :: "nat \<Rightarrow> 'h cache \<Rightarrow> bool" where
  "swept start c \<longleftrightarrow>
     (\<forall>j p e. j < length (slots c) \<longrightarrow>
        laps (length (slots c)) start (unat (head c)) \<le> ahead (length (slots c)) (unat (head c)) j \<longrightarrow>
        slots c ! j = Some p \<longrightarrow> entries c p = Some e \<longrightarrow> epins e \<noteq> 0)"

lemma swept_start: "ring_ok c \<Longrightarrow> swept (unat (head c)) c"
  using ahead_less [OF ring_head_in_range, of c] by (fastforce simp: swept_def)

lemma swept_step:
  assumes inv: "storage_inv hs c'" and ev: "evicts_to c c'" and hd: "head c' = head c"
    and sw: "swept start c" and st: "start < length (slots c)"
    and own: "owns_entries c"
    and pin: "\<forall>p e. slots c' ! unat (head c) = Some p \<longrightarrow> entries c' p = Some e \<longrightarrow> epins e \<noteq> 0"
    and d: "d = c'\<lparr>head := (head c' + 1) mod slot_count c'\<rparr>"
  shows "start \<noteq> unat (head d) \<Longrightarrow> swept start d"
    and "start = unat (head d) \<Longrightarrow> \<forall>p e. entries d p = Some e \<longrightarrow> epins e \<noteq> 0"
proof -
  let ?n = "length (slots c')" and ?h = "unat (head c)"
  have ring: "ring_ok c'" using inv by (simp add: storage_inv_def)
  have len: "length (slots c) = ?n" using evicts_to_len [OF ev] by simp
  have h: "?h < ?n" using ring_head_in_range [OF ring] hd by simp
  have hd': "unat (head d) = ring_next ?n ?h"
    using ring hd d unat_ring_next [of "head c'" "slot_count c'"] by (simp add: ring_ok_def)
  have slots_d: "slots d = slots c'" "entries d = entries c'" using d by simp_all
  have pinned: "epins e \<noteq> 0"
    if j: "j < ?n" "j = ?h \<or> laps ?n start ?h \<le> ahead ?n ?h j"
      and s: "slots c' ! j = Some p" "entries c' p = Some e" for j p e
  proof (cases "j = ?h")
    case True
    then show ?thesis using pin s by simp
  next
    case False
    have "slots c ! j = Some p" "entries c p = Some e"
      using evicts_to_slot [OF ev, of j] evicts_to_sub [OF ev s(2)] s(1) j(1) len by auto
    then show ?thesis using sw j False len by (auto simp: swept_def)
  qed
  show "\<forall>p e. entries d p = Some e \<longrightarrow> epins e \<noteq> 0" if eq: "start = unat (head d)"
  proof (intro allI impI)
    fix p e assume "entries d p = Some e"
    then obtain j where j: "j < ?n" "slots c' ! j = Some p"
      using inv entry_slot slots_d by (metis storage_inv_def)
    have "laps ?n start ?h = 1" using eq hd' h st len by (intro laps_next_start) auto
    then have "j = ?h \<or> laps ?n start ?h \<le> ahead ?n ?h j"
      using ahead_next [OF h j(1)] by (cases "j = ?h") auto
    then show "epins e \<noteq> 0"
      using pinned j \<open>entries d p = Some e\<close> slots_d by metis
  qed
  show "swept start d" if ne: "start \<noteq> unat (head d)"
    unfolding swept_def slots_d hd'
  proof (intro allI impI)
    fix j p e
    assume j: "j < ?n" and le: "laps ?n start (ring_next ?n ?h) \<le> ahead ?n (ring_next ?n ?h) j"
      and s: "slots c' ! j = Some p" "entries c' p = Some e"
    have "laps ?n start ?h = Suc (laps ?n start (ring_next ?n ?h))"
      using ne hd' h st len by (intro laps_next) auto
    then have "j = ?h \<or> laps ?n start ?h \<le> ahead ?n ?h j"
      using ahead_next [OF h j] le by (cases "j = ?h") auto
    then show "epins e \<noteq> 0" using pinned j s by blast
  qed
qed

lemma evict_loop_ok:
  assumes "storage_inv hs c" "unat start < length (slots c)" "swept (unat start) c"
    and "laps (length (slots c)) (unat start) (unat (head c)) < fuel
         \<or> (\<not> lacks_space need c \<and> 0 < fuel)"
  shows "\<exists>ok c'. evict_loop fuel hs start need c = Inr (ok, c') \<and> storage_inv hs c' \<and> evicts_to c c'
      \<and> (ok \<longrightarrow> \<not> lacks_space need c')
      \<and> (\<not> ok \<longrightarrow> lacks_space need c' \<and> (\<forall>p e. entries c' p = Some e \<longrightarrow> epins e \<noteq> 0))"
  using assms
proof (induction fuel arbitrary: c)
  case 0
  then show ?case by simp
next
  case (Suc fuel)
  show ?case
  proof (cases "lacks_space need c")
    case False
    then show ?thesis
      using Suc.prems(1) by (intro exI [of _ True] exI [of _ c]) (simp add: evicts_to_refl)
  next
    case True
    let ?n = "length (slots c)"
    obtain c1 where c1: "try_evict_head hs c = Inr c1" "storage_inv hs c1" "evicts_to c c1"
        "head c1 = head c"
        "\<forall>p e. slots c1 ! unat (head c) = Some p \<longrightarrow> entries c1 p = Some e \<longrightarrow> epins e \<noteq> 0"
      using try_evict_head_ok [OF Suc.prems(1)] by blast
    define d where "d = c1\<lparr>head := (head c1 + 1) mod slot_count c1\<rparr>"
    have adv: "advance_head c1 = Inr d" and inv_d: "storage_inv hs d"
      unfolding d_def by (rule advance_head_ok [OF c1(2)])+
    have ev_d: "evicts_to c d"
      unfolding d_def by (rule evicts_to_trans [OF c1(3) evicts_to_head])
    have own: "owns_entries c" using Suc.prems(1) by (simp add: storage_inv_def)
    note sw = swept_step [OF c1(2,3,4) Suc.prems(3,2) own c1(5) d_def]
    have len_d: "length (slots d) = ?n" by (rule evicts_to_len [OF ev_d])
    show ?thesis
    proof (cases "start = head d")
      case True
      note home = this
      show ?thesis
      proof (cases "lacks_space need d")
        case True
        with home have "evict_loop (Suc fuel) hs start need c = Inr (False, d)"
          using \<open>lacks_space need c\<close> c1(1) adv by simp
        then show ?thesis using True inv_d ev_d sw(2) home by (intro exI [of _ False] exI [of _ d]) simp
      next
        case False
        have "laps ?n (unat start) (unat (head c)) < Suc fuel" using Suc.prems(4) \<open>lacks_space need c\<close> by simp
        moreover have "0 < laps ?n (unat start) (unat (head c))"
          using Suc.prems(1) by (intro laps_pos ring_head_in_range) (simp add: storage_inv_def)
        ultimately obtain f where "fuel = Suc f" by (cases fuel) auto
        with False home have "evict_loop (Suc fuel) hs start need c = Inr (True, d)"
          using \<open>lacks_space need c\<close> c1(1) adv by simp
        then show ?thesis
          using False inv_d ev_d by (intro exI [of _ True] exI [of _ d]) simp
      qed
    next
      case False
      note ne0 = this
      then have ne: "unat start \<noteq> unat (head d)" by (metis unsigned_word_eqI)
      have head_d: "unat (head d) = ring_next ?n (unat (head c))"
        using c1(2,4) evicts_to_len [OF c1(3)] unat_ring_next [of "head c1" "slot_count c1"]
        by (simp add: d_def storage_inv_def ring_ok_def)
      have "laps ?n (unat start) (unat (head c)) = Suc (laps ?n (unat start) (unat (head d)))"
        unfolding head_d
      proof (rule laps_next)
        show "unat (head c) < ?n"
          using Suc.prems(1) by (intro ring_head_in_range) (simp add: storage_inv_def)
        show "unat start < ?n" by (rule Suc.prems(2))
        show "ring_next ?n (unat (head c)) \<noteq> unat start" using ne head_d by simp
      qed
      then have fuel: "laps ?n (unat start) (unat (head d)) < fuel"
        using Suc.prems(4) \<open>lacks_space need c\<close> by simp
      have "\<exists>ok c'. evict_loop fuel hs start need d = Inr (ok, c') \<and> storage_inv hs c' \<and> evicts_to d c'
          \<and> (ok \<longrightarrow> \<not> lacks_space need c')
          \<and> (\<not> ok \<longrightarrow> lacks_space need c' \<and> (\<forall>p e. entries c' p = Some e \<longrightarrow> epins e \<noteq> 0))"
      proof (rule Suc.IH [OF inv_d])
        show "unat start < length (slots d)" using Suc.prems(2) len_d by simp
        show "swept (unat start) d" by (rule sw(1) [OF ne])
        show "laps (length (slots d)) (unat start) (unat (head d)) < fuel
              \<or> \<not> lacks_space need d \<and> 0 < fuel" using fuel len_d by simp
      qed
      moreover have "evict_loop (Suc fuel) hs start need c = evict_loop fuel hs start need d"
        using \<open>lacks_space need c\<close> c1(1) adv ne0 by simp
      ultimately show ?thesis using ev_d evicts_to_trans by metis
    qed
  qed
qed

section \<open>Searching a free slot\<close>

lemma free_slot_loop_ok:
  assumes "storage_inv hs c" "unat start < length (slots c)"
    and "\<forall>j. j < length (slots c) \<longrightarrow>
      laps (length (slots c)) (unat start) (unat (head c)) \<le> ahead (length (slots c)) (unat (head c)) j \<longrightarrow>
      slots c ! j \<noteq> None"
    and "laps (length (slots c)) (unat start) (unat (head c)) \<le> fuel"
  shows "(\<exists>h. free_slot_loop fuel start c = Inr (True, c\<lparr>head := h\<rparr>) \<and> h < slot_count c
            \<and> slots c ! unat h = None)
       \<or> (free_slot_loop fuel start c = Inr (False, c\<lparr>head := start\<rparr>)
            \<and> (\<forall>j. j < length (slots c) \<longrightarrow> slots c ! j \<noteq> None))"
  using assms
proof (induction fuel arbitrary: c)
  case 0
  then show ?case
    using laps_pos [OF ring_head_in_range, of c "unat start"] by (simp add: storage_inv_def)
next
  case (Suc fuel)
  let ?n = "length (slots c)" and ?h = "unat (head c)"
  let ?d = "c\<lparr>head := (head c + 1) mod slot_count c\<rparr>"
  have ring: "ring_ok c" using Suc.prems(1) by (simp add: storage_inv_def)
  have h: "?h < ?n" by (rule ring_head_in_range [OF ring])
  note adv = advance_head_ok [OF Suc.prems(1)]
  have head_d: "unat (head ?d) = ring_next ?n ?h"
    using ring unat_ring_next [of "head c" "slot_count c"] by (simp add: ring_ok_def)
  show ?case
  proof (cases "slots c ! ?h")
    case None
    then have "free_slot_loop (Suc fuel) start c = Inr (True, c\<lparr>head := head c\<rparr>)"
      by (simp add: slot_at_head_ok [OF ring])
    moreover have "head c < slot_count c" using ring by (simp add: ring_ok_def)
    ultimately show ?thesis using None by (intro disjI1 exI [of _ "head c"]) simp
  next
    case (Some p)
    then have occ: "slots c ! j \<noteq> None" if "j < ?n" "j = ?h \<or> laps ?n (unat start) ?h \<le> ahead ?n ?h j" for j
      using that Suc.prems(3) by auto
    show ?thesis
    proof (cases "head ?d = start")
      case True
      then have "laps ?n (unat start) ?h = 1"
        using head_d h Suc.prems(2) by (intro laps_next_start) auto
      then have "slots c ! j \<noteq> None" if "j < ?n" for j
        using occ [OF that] ahead_next [OF h that] by (cases "j = ?h") auto
      moreover have "free_slot_loop (Suc fuel) start c = Inr (False, c\<lparr>head := start\<rparr>)"
        using Some True adv(1) by (simp add: slot_at_head_ok [OF ring])
      ultimately show ?thesis by simp
    next
      case False
      then have ne: "ring_next ?n ?h \<noteq> unat start"
        using head_d by (metis unsigned_word_eqI)
      have step: "free_slot_loop (Suc fuel) start c = free_slot_loop fuel start ?d"
        using Some False adv(1) by (simp add: slot_at_head_ok [OF ring])
      have laps: "laps ?n (unat start) ?h = Suc (laps ?n (unat start) (ring_next ?n ?h))"
        by (rule laps_next [OF h Suc.prems(2) ne])
      have seen: "slots ?d ! j \<noteq> None"
        if "j < ?n" "laps ?n (unat start) (ring_next ?n ?h) \<le> ahead ?n (ring_next ?n ?h) j" for j
        using occ [OF that(1)] ahead_next [OF h that(1)] that(2) laps by (cases "j = ?h") auto
      have "(\<exists>h. free_slot_loop fuel start ?d = Inr (True, ?d\<lparr>head := h\<rparr>) \<and> h < slot_count ?d
              \<and> slots ?d ! unat h = None)
          \<or> (free_slot_loop fuel start ?d = Inr (False, ?d\<lparr>head := start\<rparr>)
              \<and> (\<forall>j. j < length (slots ?d) \<longrightarrow> slots ?d ! j \<noteq> None))"
        by (rule Suc.IH [OF adv(2)]) (use seen Suc.prems(2,4) laps head_d in auto)
      then show ?thesis unfolding step by simp
    qed
  qed
qed

section \<open>Making room\<close>

lemma freed_slot:
  assumes inv: "storage_inv hs c" "storage_inv hs c'" and ev: "evicts_to c c'"
    and lacks: "lacks_space need c" "\<not> lacks_space need c'"
  shows "\<exists>i. i < length (slots c') \<and> slots c' ! i = None"
proof (rule ccontr)
  assume "\<not> ?thesis"
  then have full: "slots c' ! i = slots c ! i" if "i < length (slots c)" for i
    using that evicts_to_slot [OF ev that] evicts_to_len [OF ev] by auto
  then have slots: "slots c' = slots c"
    using evicts_to_len [OF ev] by (simp add: list_eq_iff_nth_eq)
  have "entries c' p = entries c p" if "Some p \<in> set (slots c)" for p
  proof -
    have "entries c' p \<noteq> None"
      using owned_iff [of c' p] that inv(2) slots by (simp add: storage_inv_def)
    then obtain e where "entries c' p = Some e" by blast
    then show ?thesis using evicts_to_sub [OF ev] by simp
  qed
  then have "map (slot_bytes hs (entries c')) (slots c') = map (slot_bytes hs (entries c)) (slots c)"
    unfolding slots by (intro map_cong refl) (auto simp: slot_bytes_def split: option.splits)
  then have "stored_bytes hs c' = stored_bytes hs c" by (simp only: stored_bytes_def)
  then have "unat (used_size c') = unat (used_size c)"
    using inv by (simp add: storage_inv_def accounted_def)
  then have "used_size c' = used_size c" by (rule unsigned_word_eqI)
  then show False using lacks evicts_to_frame(1) [OF ev] by (simp add: lacks_space_def)
qed

definition refused :: "size_t \<Rightarrow> 'h cache \<Rightarrow> 'h cache \<Rightarrow> bool" where
  "refused need c c' \<longleftrightarrow>
     (capacity c < need \<and> c' = c)
     \<or> (lacks_space need c' \<and> (\<forall>p e. entries c' p = Some e \<longrightarrow> epins e \<noteq> 0))
     \<or> (\<not> lacks_space need c \<and> c' = c \<and> (\<forall>j. j < length (slots c) \<longrightarrow> slots c ! j \<noteq> None))"

lemma evictTillCapacityLocked_ok:
  assumes inv: "storage_inv hs c"
  shows "\<exists>ok c'. evictTillCapacityLocked hs need c = Inr (ok, c') \<and> storage_inv hs c' \<and> evicts_to c c'
      \<and> (ok \<longrightarrow> \<not> lacks_space need c' \<and> slots c' ! unat (head c') = None)
      \<and> (\<not> ok \<longrightarrow> refused need c c')"
proof (cases "capacity c < need")
  case True
  then show ?thesis
    using inv by (intro exI [of _ False] exI [of _ c])
      (simp add: evictTillCapacityLocked_def evicts_to_refl refused_def)
next
  case False
  have ring: "ring_ok c" using inv by (simp add: storage_inv_def)
  have "\<exists>ok c'. evict_loop (Suc (unat (slot_count c))) hs (head c) need c = Inr (ok, c')
      \<and> storage_inv hs c' \<and> evicts_to c c' \<and> (ok \<longrightarrow> \<not> lacks_space need c')
      \<and> (\<not> ok \<longrightarrow> lacks_space need c' \<and> (\<forall>p e. entries c' p = Some e \<longrightarrow> epins e \<noteq> 0))"
    by (rule evict_loop_ok [OF inv ring_head_in_range [OF ring] swept_start [OF ring]])
      (use ring in \<open>simp add: ring_ok_def\<close>)
  then obtain ok c1 where loop: "evict_loop (Suc (unat (slot_count c))) hs (head c) need c = Inr (ok, c1)"
    and c1: "storage_inv hs c1" "evicts_to c c1" "ok \<Longrightarrow> \<not> lacks_space need c1"
      "\<not> ok \<Longrightarrow> lacks_space need c1 \<and> (\<forall>p e. entries c1 p = Some e \<longrightarrow> epins e \<noteq> 0)"
    by blast
  have unfold: "evictTillCapacityLocked hs need c =
      (if ok then free_slot_loop (Suc (unat (slot_count c1))) (head c1) c1 else Inr (False, c1))"
    using False loop by (simp add: evictTillCapacityLocked_def)
  show ?thesis
  proof (cases ok)
    case False
    then show ?thesis
      using unfold c1 by (intro exI [of _ False] exI [of _ c1]) (simp add: refused_def)
  next
    case True
    note ok = this
    have ring1: "ring_ok c1" using c1(1) by (simp add: storage_inv_def)
    have "(\<exists>h. free_slot_loop (Suc (unat (slot_count c1))) (head c1) c1 = Inr (True, c1\<lparr>head := h\<rparr>)
              \<and> h < slot_count c1 \<and> slots c1 ! unat h = None)
        \<or> (free_slot_loop (Suc (unat (slot_count c1))) (head c1) c1 = Inr (False, c1\<lparr>head := head c1\<rparr>)
              \<and> (\<forall>j. j < length (slots c1) \<longrightarrow> slots c1 ! j \<noteq> None))"
      by (rule free_slot_loop_ok [OF c1(1) ring_head_in_range [OF ring1]])
        (use ring1 ahead_less [OF ring_head_in_range [OF ring1]] in \<open>auto simp: ring_ok_def dest: leD\<close>)
    then consider (found) h where "evictTillCapacityLocked hs need c = Inr (True, c1\<lparr>head := h\<rparr>)"
        "h < slot_count c1" "slots c1 ! unat h = None"
      | (full) "evictTillCapacityLocked hs need c = Inr (False, c1)"
        "\<forall>j. j < length (slots c1) \<longrightarrow> slots c1 ! j \<noteq> None"
      using unfold ok by auto
    then show ?thesis
    proof cases
      case found
      have "storage_inv hs (c1\<lparr>head := h\<rparr>)" by (rule storage_inv_head [OF c1(1) found(2)])
      moreover have "evicts_to c (c1\<lparr>head := h\<rparr>)" by (rule evicts_to_trans [OF c1(2) evicts_to_head])
      ultimately show ?thesis
        using found c1(3) [OF ok]
        by (intro exI [of _ True] exI [of _ "c1\<lparr>head := h\<rparr>"]) (simp add: lacks_space_def)
    next
      case full
      have "\<not> lacks_space need c"
        using freed_slot [OF inv c1(1,2) _ c1(3) [OF ok]] full(2) by blast
      moreover from this have "c1 = c" using loop by simp
      ultimately show ?thesis
        using full inv by (intro exI [of _ False] exI [of _ c]) (simp add: refused_def evicts_to_refl)
    qed
  qed
qed

section \<open>Inserting an entry\<close>

definition with_entry :: "('h \<Rightarrow> size_t) \<Rightarrow> 'h Entry \<Rightarrow> 'h cache \<Rightarrow> 'h cache" where
  "with_entry hs e c =
     c\<lparr>slots := (slots c)[unat (head c) := Some (next_entry c)],
       entries := (entries c)(next_entry c := Some e),
       next_entry := Suc (next_entry c),
       cache_map := (cache_map c)(ekey e := Some (next_entry c)),
       head := (head c + 1) mod slot_count c,
       used_size := used_size c + of_nat (entry_bytes hs e)\<rparr>"

lemma insertEntryLocked_ok:
  assumes "storage_inv hs c" "slots c ! unat (head c) = None"
    and "entry_ok hs \<lparr>ekey = key, eheaders = hdrs, ebody = body, epins = 0\<rparr>"
  shows "insertEntryLocked hs key hdrs body c
         = Inr (with_entry hs \<lparr>ekey = key, eheaders = hdrs, ebody = body, epins = 0\<rparr> c)"
  using assms
  by (simp add: insertEntryLocked_def slot_at_head_ok storage_inv_def entry_size_ok Let_def
      advance_head_def ring_ok_def with_entry_def word_gt_0)

lemma fresh_not_stored: "owns_entries c \<Longrightarrow> entries c (next_entry c) = None"
  by (auto simp: owns_entries_def)

lemma with_entry_owns:
  assumes own: "owns_entries c" and h: "unat (head c) < length (slots c)" and free: "slots c ! unat (head c) = None"
  shows "owns_entries (with_entry hs e c)"
proof -
  let ?h = "unat (head c)" and ?p = "next_entry c" and ?d = "with_entry hs e c"
  have fresh: "entries c ?p = None" by (rule fresh_not_stored [OF own])
  have notin: "Some ?p \<notin> set (slots c)" using own fresh by (simp add: owned_iff)
  have upd: "(slots c)[?h := Some ?p] ! j = (if j = ?h then Some ?p else slots c ! j)"
    if "j < length (slots c)" for j using that by simp
  have members: "Some q \<in> set ((slots c)[?h := Some ?p]) \<longleftrightarrow> Some q \<in> set (slots c) \<or> q = ?p" for q
  proof -
    have "Some q \<in> set ((slots c)[?h := Some ?p])" if "Some q \<in> set (slots c)"
      using that free h by (metis in_set_conv_nth nth_in_set_update option.distinct(1))
    moreover have "Some ?p \<in> set ((slots c)[?h := Some ?p])" using h by (simp add: set_update_memI)
    ultimately show ?thesis using set_update_subset_insert [of "slots c" ?h "Some ?p"] by auto
  qed
  show ?thesis
    unfolding owns_entries_def
  proof (intro conjI allI impI)
    fix q show "Some q \<in> set (slots ?d) \<longleftrightarrow> entries ?d q \<noteq> None"
      using own by (simp add: with_entry_def members owned_iff)
  next
    fix i j assume ij: "i < length (slots ?d)" "j < length (slots ?d)"
      and eq: "slots ?d ! i \<noteq> None" "slots ?d ! i = slots ?d ! j"
    have len: "i < length (slots c)" "j < length (slots c)" using ij by (simp_all add: with_entry_def)
    then have ne: "slots c ! i \<noteq> Some ?p" "slots c ! j \<noteq> Some ?p" using notin nth_mem by metis+
    obtain q where q: "slots ?d ! i = Some q" "slots ?d ! j = Some q" using eq by auto
    show "i = j"
    proof (cases "i = ?h \<or> j = ?h")
      case True
      then show ?thesis using q ne upd [OF len(1)] upd [OF len(2)]
        by (auto simp: with_entry_def split: if_splits)
    next
      case False
      then have "slots c ! i = Some q" "slots c ! j = Some q"
        using q upd [OF len(1)] upd [OF len(2)] by (simp_all add: with_entry_def)
      then show ?thesis by (rule slot_unique [OF own len])
    qed
  next
    fix q assume "entries ?d q \<noteq> None"
    then show "q < next_entry ?d"
      using own by (auto simp: with_entry_def owns_entries_def less_Suc_eq split: if_splits)
  qed
qed

lemma with_entry_indexed:
  assumes own: "owns_entries c" and idx: "indexed c" and new: "cache_map c (ekey e) = None"
  shows "indexed (with_entry hs e c)"
  unfolding indexed_def
proof (intro allI)
  fix k q
  have map_c: "cache_map c k = Some q \<longleftrightarrow> (\<exists>f. entries c q = Some f \<and> ekey f = k)"
    using idx by (simp add: indexed_def)
  have "entries c q = Some f \<Longrightarrow> ekey f \<noteq> ekey e" for q f
    using idx new unfolding indexed_def by (metis option.distinct(1))
  then show "cache_map (with_entry hs e c) k = Some q \<longleftrightarrow> (\<exists>f. entries (with_entry hs e c) q = Some f \<and> ekey f = k)"
    using map_c fresh_not_stored [OF own] by (auto simp: with_entry_def)
qed

lemma with_entry_bytes:
  assumes own: "owns_entries c" and h: "unat (head c) < length (slots c)" and free: "slots c ! unat (head c) = None"
  shows "stored_bytes hs (with_entry hs e c) = stored_bytes hs c + entry_bytes hs e"
proof -
  let ?p = "next_entry c" and ?d = "with_entry hs e c"
  have notin: "Some ?p \<notin> set (slots c)" using own fresh_not_stored [OF own] by (simp add: owned_iff)
  have "map (slot_bytes hs (entries ?d)) (slots c) = map (slot_bytes hs (entries c)) (slots c)"
    using notin by (intro map_cong refl) (auto simp: with_entry_def slot_bytes_def split: option.splits)
  then have "sum_list (map (slot_bytes hs (entries ?d)) (slots c)) = stored_bytes hs c"
    by (simp only: stored_bytes_def)
  moreover have "slot_bytes hs (entries ?d) (Some ?p) = entry_bytes hs e"
    by (simp add: with_entry_def)
  ultimately show ?thesis
    using sum_list_map_update [OF h, of "slot_bytes hs (entries ?d)" "Some ?p"] free
    by (simp add: stored_bytes_def with_entry_def)
qed

lemma with_entry_accounted:
  assumes acc: "accounted hs c" and ok: "entry_ok hs e" and room: "\<not> lacks_space (of_nat (entry_bytes hs e)) c"
    and sum: "stored_bytes hs (with_entry hs e c) = stored_bytes hs c + entry_bytes hs e"
  shows "accounted hs (with_entry hs e c)"
proof -
  let ?d = "with_entry hs e c"
  have sz: "unat (of_nat (entry_bytes hs e) :: size_t) = entry_bytes hs e"
    using ok by (simp add: entry_ok_def)
  have used: "unat (used_size c) = stored_bytes hs c" "used_size c \<le> capacity c"
    using acc by (simp_all add: accounted_def)
  have "entry_bytes hs e \<le> unat (capacity c) - unat (used_size c)"
    using room used(2) sz by (simp add: lacks_space_def word_less_nat_alt not_less unat_diff_le)
  then have le: "unat (used_size c) + entry_bytes hs e \<le> unat (capacity c)"
    using used(2) by (simp add: word_le_nat_alt)
  moreover have "unat (capacity c) < 2 ^ 64" using unsigned_less [of "capacity c", where ?'a = nat] by simp
  ultimately have "unat (used_size ?d) = stored_bytes hs ?d"
    using sum sz used(1) by (simp add: with_entry_def unat_add_no_wrap)
  moreover have "used_size ?d \<le> capacity ?d"
    using le calculation sum used(1) by (simp add: word_le_nat_alt with_entry_def)
  ultimately show ?thesis
    using acc ok by (auto simp: accounted_def with_entry_def split: if_splits)
qed

lemma with_entry_inv:
  assumes inv: "storage_inv hs c" and free: "slots c ! unat (head c) = None"
    and ok: "entry_ok hs e" and new: "cache_map c (ekey e) = None"
    and room: "\<not> lacks_space (of_nat (entry_bytes hs e)) c"
  shows "storage_inv hs (with_entry hs e c)"
proof -
  from inv have ring: "ring_ok c" and own: "owns_entries c" and idx: "indexed c"
    and acc: "accounted hs c" by (simp_all add: storage_inv_def)
  note h = ring_head_in_range [OF ring]
  have "ring_ok (with_entry hs e c)"
    using ring ring_next_word_less [of "head c" "slot_count c"] by (simp add: ring_ok_def with_entry_def)
  then show ?thesis
    using with_entry_owns [OF own h free] with_entry_indexed [OF own idx new]
      with_entry_accounted [OF acc ok room with_entry_bytes [OF own h free]]
    by (simp add: storage_inv_def)
qed

end
