(* ===== verification/Ring_Cache_Inv.thy ===== *)
theory Ring_Cache_Inv
  imports Ring_Storage
begin

text \<open>
  The invariant of the whole cache object, preserved by every public operation, with the
  result of each operation: \<^verbatim>\<open>finalizeLocked\<close>, \<^verbatim>\<open>lookup\<close>, \<^verbatim>\<open>publishHeaders\<close>,
  \<^verbatim>\<open>publishData\<close>, \<^verbatim>\<open>removeWaiter\<close> and the release of a hit.
\<close>

section \<open>The invariant\<close>

definition separate :: "'h cache \<Rightarrow> bool" where
  "separate c \<longleftrightarrow> (\<forall>k. cache_map c k = None \<or> inflight_map c k = None)"

definition inflight_ok :: "('h \<Rightarrow> size_t) \<Rightarrow> key_t \<Rightarrow> 'h Inflight \<Rightarrow> bool" where
  "inflight_ok hs k i \<longleftrightarrow>
     (iheaders i = None \<longrightarrow> ibody i = []) \<and> response_bytes hs k (iheaders i) (ibody i) < 2 ^ 64"

definition inflights_ok :: "('h \<Rightarrow> size_t) \<Rightarrow> 'h cache \<Rightarrow> bool" where
  "inflights_ok hs c \<longleftrightarrow> (\<forall>k i. inflight_map c k = Some i \<longrightarrow> inflight_ok hs k i)"

definition waiters_ok :: "'h cache \<Rightarrow> bool" where
  "waiters_ok c \<longleftrightarrow>
     (\<forall>k i. inflight_map c k = Some i \<longrightarrow> distinct (iwaiters i)) \<and>
     (\<forall>k i w. inflight_map c k = Some i \<longrightarrow> w \<in> set (iwaiters i) \<longrightarrow> waiters c w \<noteq> None) \<and>
     (\<forall>k k' i i' w. inflight_map c k = Some i \<longrightarrow> inflight_map c k' = Some i' \<longrightarrow>
        w \<in> set (iwaiters i) \<longrightarrow> w \<in> set (iwaiters i') \<longrightarrow> k = k') \<and>
     (\<forall>w. waiters c w \<noteq> None \<longrightarrow> w < next_waiter c)"

definition cache_inv :: "('h \<Rightarrow> size_t) \<Rightarrow> 'h cache \<Rightarrow> bool" where
  "cache_inv hs c \<longleftrightarrow> storage_inv hs c \<and> separate c \<and> inflights_ok hs c \<and> waiters_ok c"

lemma cache_inv_init: "0 < n \<Longrightarrow> cache_inv hs (RingBufferCache cap n)"
  by (simp add: cache_inv_def storage_inv_init separate_def inflights_ok_def waiters_ok_def)
    (simp add: RingBufferCache_def)

lemma cache_invD:
  assumes "cache_inv hs c"
  shows "storage_inv hs c" "separate c" "inflights_ok hs c" "waiters_ok c" "indexed c"
    "owns_entries c" "ring_ok c" "accounted hs c"
  using assms by (simp_all add: cache_inv_def storage_inv_def)

text \<open>Changing only the inflight records.\<close>

lemma storage_inv_inflight [simp]:
  "storage_inv hs (c\<lparr>inflight_map := m\<rparr>) = storage_inv hs c"
  by (simp add: storage_inv_defs stored_bytes_def)

lemma storage_inv_waiters [simp]:
  "storage_inv hs (c\<lparr>waiters := m\<rparr>) = storage_inv hs c"
  by (simp add: storage_inv_defs stored_bytes_def)

lemma indexed_inflight [simp]: "indexed (c\<lparr>inflight_map := m\<rparr>) = indexed c"
  by (simp add: indexed_def)

lemma waiters_ok_cong:
  "inflight_map d = inflight_map c \<Longrightarrow> waiters d = waiters c \<Longrightarrow> next_waiter d = next_waiter c \<Longrightarrow>
     waiters_ok c = waiters_ok d"
  by (simp only: waiters_ok_def)

lemma waiters_ok_update:
  assumes "waiters_ok c" and "set (iwaiters i') \<subseteq> (case inflight_map c key of None \<Rightarrow> {} | Some i \<Rightarrow> set (iwaiters i))"
    and "distinct (iwaiters i')"
  shows "waiters_ok (c\<lparr>inflight_map := (inflight_map c)(key := Some i')\<rparr>)"
proof -
  have sub: "\<exists>i. inflight_map c key = Some i \<and> w \<in> set (iwaiters i)" if "w \<in> set (iwaiters i')" for w
    using assms(2) that by (auto split: option.splits)
  have known: "\<And>k i w. inflight_map c k = Some i \<Longrightarrow> w \<in> set (iwaiters i) \<Longrightarrow> waiters c w \<noteq> None"
    and uniq: "\<And>k k' i i' w. inflight_map c k = Some i \<Longrightarrow> inflight_map c k' = Some i' \<Longrightarrow>
        w \<in> set (iwaiters i) \<Longrightarrow> w \<in> set (iwaiters i') \<Longrightarrow> k = k'"
    and dist: "\<And>k i. inflight_map c k = Some i \<Longrightarrow> distinct (iwaiters i)"
    and bound: "\<And>w. waiters c w \<noteq> None \<Longrightarrow> w < next_waiter c"
    using assms(1) unfolding waiters_ok_def by blast+
  show ?thesis
    unfolding waiters_ok_def
    by (intro conjI allI impI; simp split: if_splits)
      (use assms(3) dist known bound sub uniq in \<open>blast+\<close>)
qed

lemma waiters_ok_erase:
  "waiters_ok c \<Longrightarrow> waiters_ok (c\<lparr>inflight_map := (inflight_map c)(key := None)\<rparr>)"
  unfolding waiters_ok_def by (intro conjI allI impI; simp split: if_splits; blast)

lemma cache_inv_inflight:
  assumes inv: "cache_inv hs c" and key: "inflight_map c key = Some i"
    and ok: "inflight_ok hs key i'" and ws: "set (iwaiters i') \<subseteq> set (iwaiters i)" "distinct (iwaiters i')"
  shows "cache_inv hs (c\<lparr>inflight_map := (inflight_map c)(key := Some i')\<rparr>)"
proof -
  have "separate (c\<lparr>inflight_map := (inflight_map c)(key := Some i')\<rparr>)"
    using cache_invD(2) [OF inv] key by (auto simp: separate_def)
  moreover have "inflights_ok hs (c\<lparr>inflight_map := (inflight_map c)(key := Some i')\<rparr>)"
    using cache_invD(3) [OF inv] ok by (simp add: inflights_ok_def)
  moreover have "waiters_ok (c\<lparr>inflight_map := (inflight_map c)(key := Some i')\<rparr>)"
    using cache_invD(4) [OF inv] ws key by (intro waiters_ok_update) simp_all
  ultimately show ?thesis using cache_invD(1) [OF inv] by (simp add: cache_inv_def)
qed

lemma inflight_distinct: "cache_inv hs c \<Longrightarrow> inflight_map c k = Some i \<Longrightarrow> distinct (iwaiters i)"
  by (simp add: cache_inv_def waiters_ok_def)

section \<open>Finalizing a response\<close>

definition finished_entry :: "key_t \<Rightarrow> 'h Inflight \<Rightarrow> 'h Entry" where
  "finished_entry key i = \<lparr>ekey = key, eheaders = iheaders i, ebody = ibody i, epins = 0\<rparr>"

lemma finished_entry_bytes:
  "entry_bytes hs (finished_entry key i) = response_bytes hs key (iheaders i) (ibody i)"
  by (simp add: entry_bytes_def finished_entry_def)

definition needed :: "('h \<Rightarrow> size_t) \<Rightarrow> key_t \<Rightarrow> 'h Inflight \<Rightarrow> size_t" where
  "needed hs key i = of_nat (response_bytes hs key (iheaders i) (ibody i))"

lemma finalizeLocked_cases:
  assumes inv: "cache_inv hs c" and i: "inflight_map c key = Some i" and h: "iheaders i \<noteq> None"
  obtains (cached) c1 where "evictTillCapacityLocked hs (needed hs key i) c = Inr (True, c1)"
      "finalizeLocked hs key c =
         Inr ((with_entry hs (finished_entry key i) c1)\<lparr>inflight_map := (inflight_map c)(key := None)\<rparr>)"
      "storage_inv hs c1" "evicts_to c c1" "storage_inv hs (with_entry hs (finished_entry key i) c1)"
    | (dropped) c1 where "evictTillCapacityLocked hs (needed hs key i) c = Inr (False, c1)"
      "finalizeLocked hs key c = Inr (c1\<lparr>inflight_map := (inflight_map c)(key := None)\<rparr>)"
      "storage_inv hs c1" "evicts_to c c1" "refused (needed hs key i) c c1"
proof -
  let ?e = "finished_entry key i"
  have fits: "response_bytes hs key (iheaders i) (ibody i) < 2 ^ 64"
    using cache_invD(3) [OF inv] i by (simp add: inflights_ok_def inflight_ok_def)
  then have ok_e: "entry_ok hs ?e" using h by (simp add: entry_ok_def finished_entry_bytes) (simp add: finished_entry_def)
  obtain isz where isz: "inflight_size hs i = Inr isz" "isz + string_size key = needed hs key i"
    using h by (auto simp: inflight_size_def needed_def response_bytes_def string_size_def)
  obtain ok c1 where room: "evictTillCapacityLocked hs (needed hs key i) c = Inr (ok, c1)"
    and c1: "storage_inv hs c1" "evicts_to c c1"
      "ok \<Longrightarrow> \<not> lacks_space (needed hs key i) c1 \<and> slots c1 ! unat (head c1) = None"
      "\<not> ok \<Longrightarrow> refused (needed hs key i) c c1"
    using evictTillCapacityLocked_ok [OF cache_invD(1) [OF inv], of "needed hs key i"] by blast
  have unfold: "finalizeLocked hs key c =
      and_then (if ok then insertEntryLocked hs key (iheaders i) (ibody i) c1 else Inr c1) (\<lambda>c2.
        Inr (c2\<lparr>inflight_map := (inflight_map c2)(key := None)\<rparr>))"
    using i isz room by (simp add: finalizeLocked_def)
  have same: "inflight_map c1 = inflight_map c" by (rule evicts_to_frame(3) [OF c1(2)])
  show thesis
  proof (cases ok)
    case False
    then show ?thesis using dropped [of c1] unfold room c1 same by simp
  next
    case True
    have "cache_map c1 key = None"
    proof (rule ccontr)
      assume "cache_map c1 key \<noteq> None"
      then obtain p e where "entries c1 p = Some e" "ekey e = key"
        using c1(1) by (auto simp: storage_inv_def indexed_def)
      then have "cache_map c key \<noteq> None"
        using evicts_to_sub [OF c1(2)] cache_invD(5) [OF inv] by (metis indexed_def option.distinct(1))
      then show False using cache_invD(2) [OF inv] i by (metis separate_def option.distinct(1))
    qed
    then have "storage_inv hs (with_entry hs ?e c1)"
      using c1(1) c1(3) [OF True] ok_e
      by (intro with_entry_inv) (simp_all add: finished_entry_bytes [unfolded finished_entry_def]
          finished_entry_def needed_def)
    moreover have "insertEntryLocked hs key (iheaders i) (ibody i) c1 = Inr (with_entry hs ?e c1)"
      using c1(1) c1(3) [OF True] ok_e unfolding finished_entry_def by (intro insertEntryLocked_ok) simp_all
    ultimately show ?thesis
      using cached [of c1] unfold room c1 same True by (simp add: with_entry_def)
  qed
qed

section \<open>The responses a cache holds\<close>

definition cached_response :: "'h cache \<Rightarrow> key_t \<Rightarrow> ('h \<times> string) option" where
  "cached_response c k =
     (case cache_map c k of
        None \<Rightarrow> None
      | Some p \<Rightarrow> (case entries c p of
           None \<Rightarrow> None
         | Some e \<Rightarrow> map_option (\<lambda>h. (h, ebody e)) (eheaders e)))"

definition pending_response :: "'h cache \<Rightarrow> key_t \<Rightarrow> ('h option \<times> string) option" where
  "pending_response c k = map_option (\<lambda>i. (iheaders i, ibody i)) (inflight_map c k)"

lemma cached_response_None: "cache_map c k = None \<Longrightarrow> cached_response c k = None"
  by (simp add: cached_response_def)

lemma cached_response_inflight [simp]:
  "cached_response (c\<lparr>inflight_map := m\<rparr>) k = cached_response c k"
  by (simp add: cached_response_def split: option.splits)

lemma cached_response_iff:
  assumes "indexed c"
  shows "cached_response c k = Some (h, b) \<longleftrightarrow>
     (\<exists>p e. entries c p = Some e \<and> ekey e = k \<and> eheaders e = Some h \<and> ebody e = b)"
proof
  assume "cached_response c k = Some (h, b)"
  then obtain p e where "cache_map c k = Some p" "entries c p = Some e" "eheaders e = Some h" "ebody e = b"
    by (auto simp: cached_response_def split: option.splits)
  then show "\<exists>p e. entries c p = Some e \<and> ekey e = k \<and> eheaders e = Some h \<and> ebody e = b"
    using assms by (metis indexed_def option.inject)
next
  assume "\<exists>p e. entries c p = Some e \<and> ekey e = k \<and> eheaders e = Some h \<and> ebody e = b"
  then obtain p e where pe: "entries c p = Some e" "ekey e = k" "eheaders e = Some h" "ebody e = b" by blast
  then have "cache_map c k = Some p" using assms by (metis indexed_def)
  then show "cached_response c k = Some (h, b)" using pe by (simp add: cached_response_def)
qed

text \<open>
  What a finalization does to the stored entries: pinned entries stay, no entry changes,
  and at most one is new, at a fresh address and unpinned.
\<close>

definition entry_step :: "'h cache \<Rightarrow> 'h cache \<Rightarrow> bool" where
  "entry_step c c' \<longleftrightarrow>
     (\<forall>p e. entries c p = Some e \<longrightarrow> epins e \<noteq> 0 \<longrightarrow> entries c' p = Some e) \<and>
     (\<forall>p e. entries c' p = Some e \<longrightarrow> entries c p = Some e \<or> (next_entry c \<le> p \<and> epins e = 0)) \<and>
     next_entry c \<le> next_entry c'"

lemma entry_step_refl: "entry_step c c"
  by (simp add: entry_step_def)

lemma entry_step_same_entries:
  "entries c' = entries c \<Longrightarrow> next_entry c' = next_entry c \<Longrightarrow> entry_step c c'"
  by (simp add: entry_step_def)

definition finalized :: "('h \<Rightarrow> size_t) \<Rightarrow> key_t \<Rightarrow> 'h Inflight \<Rightarrow> 'h cache \<Rightarrow> 'h cache \<Rightarrow> bool" where
  "finalized hs key i c c' \<longleftrightarrow>
     inflight_map c' = (inflight_map c)(key := None) \<and>
     waiters c' = waiters c \<and> next_waiter c' = next_waiter c \<and>
     capacity c' = capacity c \<and> slot_count c' = slot_count c \<and> entry_step c c' \<and>
     (\<forall>k h b. cached_response c' k = Some (h, b) \<longrightarrow>
        (k = key \<and> iheaders i = Some h \<and> b = ibody i) \<or> (k \<noteq> key \<and> cached_response c k = Some (h, b)))"

lemma cached_response_evict:
  assumes "evicts_to c c1" "indexed c" "indexed c1" "cached_response c1 k = Some r"
  shows "cached_response c k = Some r"
  using assms evicts_to_sub [OF assms(1)] by (cases r) (auto simp: cached_response_iff)

lemma cache_inv_finalized:
  assumes inv: "cache_inv hs c" and i: "inflight_map c key = Some i"
    and st: "storage_inv hs d" and maps: "\<And>k. k \<noteq> key \<Longrightarrow> cache_map d k \<noteq> None \<Longrightarrow> cache_map c k \<noteq> None"
    and ws: "waiters d = waiters c" "next_waiter d = next_waiter c"
  shows "cache_inv hs (d\<lparr>inflight_map := (inflight_map c)(key := None)\<rparr>)"
proof -
  have "separate (d\<lparr>inflight_map := (inflight_map c)(key := None)\<rparr>)"
    unfolding separate_def
  proof
    fix k
    have "cache_map d k = None" if "k \<noteq> key" "inflight_map c k \<noteq> None"
      using cache_invD(2) [OF inv] maps [OF that(1)] that(2) by (metis separate_def)
    then show "cache_map (d\<lparr>inflight_map := (inflight_map c)(key := None)\<rparr>) k = None
        \<or> inflight_map (d\<lparr>inflight_map := (inflight_map c)(key := None)\<rparr>) k = None"
      by (cases "k = key") auto
  qed
  moreover have "inflights_ok hs (d\<lparr>inflight_map := (inflight_map c)(key := None)\<rparr>)"
    using cache_invD(3) [OF inv] by (simp add: inflights_ok_def)
  moreover have "waiters_ok (d\<lparr>inflight_map := (inflight_map c)(key := None)\<rparr>)"
    using waiters_ok_erase [OF cache_invD(4) [OF inv], of key]
    by (rule waiters_ok_cong [THEN iffD1, rotated -1]) (simp_all add: ws)
  ultimately show ?thesis using st by (simp add: cache_inv_def)
qed

lemma evict_key_subset:
  "evicts_to c c1 \<Longrightarrow> indexed c \<Longrightarrow> indexed c1 \<Longrightarrow> cache_map c1 k \<noteq> None \<Longrightarrow> cache_map c k \<noteq> None"
  by (metis evicts_to_sub indexed_def not_None_eq)

lemma finalized_cached:
  assumes inv: "cache_inv hs c" and i: "inflight_map c key = Some i"
    and ev: "evicts_to c c1" and st: "storage_inv hs c1" "storage_inv hs (with_entry hs (finished_entry key i) c1)"
  shows "let c' = (with_entry hs (finished_entry key i) c1)\<lparr>inflight_map := (inflight_map c)(key := None)\<rparr>
    in cache_inv hs c' \<and> finalized hs key i c c'"
proof -
  let ?e = "finished_entry key i"
  let ?d = "with_entry hs ?e c1"
  let ?c' = "?d\<lparr>inflight_map := (inflight_map c)(key := None)\<rparr>"
  note frame = evicts_to_frame [OF ev]
  have idx: "indexed c" "indexed c1" "indexed ?c'"
    using cache_invD(5) [OF inv] st(1,2) by (simp_all add: storage_inv_def indexed_def)
  have key_e: "ekey ?e = key" by (simp add: finished_entry_def)
  have ent: "entries ?c' = (entries c1)(next_entry c := Some ?e)" by (simp add: with_entry_def frame)
  have fresh: "entries c (next_entry c) = None" by (rule fresh_not_stored [OF cache_invD(6) [OF inv]])
  have "cache_inv hs ?c'"
  proof (rule cache_inv_finalized [OF inv i st(2)])
    show "cache_map c k \<noteq> None" if "k \<noteq> key" "cache_map ?d k \<noteq> None" for k
      using that evict_key_subset [OF ev idx(1,2), of k] by (simp add: with_entry_def key_e)
  qed (simp_all add: with_entry_def frame)
  moreover have "finalized hs key i c ?c'"
    unfolding finalized_def
  proof (intro conjI allI impI)
    show "entry_step c ?c'"
      unfolding entry_step_def ent
    proof (intro conjI allI impI)
      fix p e assume "entries c p = Some e" "epins e \<noteq> 0"
      then show "((entries c1)(next_entry c := Some ?e)) p = Some e"
        using evicts_to_pinned [OF ev] fresh by (cases "p = next_entry c") simp_all
    next
      fix p e assume "((entries c1)(next_entry c := Some ?e)) p = Some e"
      then show "entries c p = Some e \<or> next_entry c \<le> p \<and> epins e = 0"
        using evicts_to_sub [OF ev]
        by (cases "p = next_entry c") (auto simp: finished_entry_def)
    qed (simp add: with_entry_def frame)
    fix k hd b assume "cached_response ?c' k = Some (hd, b)"
    then obtain p e where pe: "entries ?c' p = Some e" "ekey e = k" "eheaders e = Some hd" "ebody e = b"
      using idx(3) by (auto simp: cached_response_iff)
    show "(k = key \<and> iheaders i = Some hd \<and> b = ibody i) \<or> (k \<noteq> key \<and> cached_response c k = Some (hd, b))"
    proof (cases "p = next_entry c")
      case True
      then show ?thesis using pe ent by (auto simp: finished_entry_def)
    next
      case False
      then have "entries c p = Some e" using pe(1) ent evicts_to_sub [OF ev] by simp
      moreover from this have "k \<noteq> key"
        using cache_invD(2) [OF inv] idx(1) pe(2) i by (metis indexed_def separate_def option.distinct(1))
      ultimately show ?thesis using pe idx(1) by (auto simp: cached_response_iff)
    qed
  qed (simp_all add: with_entry_def frame)
  ultimately show ?thesis by (simp add: Let_def)
qed

lemma finalized_dropped:
  assumes inv: "cache_inv hs c" and i: "inflight_map c key = Some i" and ev: "evicts_to c c1" and st: "storage_inv hs c1"
  shows "let c' = c1\<lparr>inflight_map := (inflight_map c)(key := None)\<rparr> in cache_inv hs c' \<and> finalized hs key i c c'"
proof -
  let ?c' = "c1\<lparr>inflight_map := (inflight_map c)(key := None)\<rparr>"
  note frame = evicts_to_frame [OF ev]
  have idx: "indexed c" "indexed c1"
    using cache_invD(5) [OF inv] st by (simp_all add: storage_inv_def)
  have "cache_inv hs ?c'"
    using evict_key_subset [OF ev idx] frame
    by (intro cache_inv_finalized [OF inv i st]) simp_all
  moreover have "finalized hs key i c ?c'"
    unfolding finalized_def
  proof (intro conjI allI impI)
    show "entry_step c ?c'"
      unfolding entry_step_def
    proof (intro conjI allI impI)
      fix p e assume "entries c p = Some e" "epins e \<noteq> 0"
      then show "entries ?c' p = Some e" using evicts_to_pinned [OF ev] by simp
    next
      fix p e assume "entries ?c' p = Some e"
      then show "entries c p = Some e \<or> next_entry c \<le> p \<and> epins e = 0"
        using evicts_to_sub [OF ev] by simp
    qed (simp add: frame)
    fix k hd b assume "cached_response ?c' k = Some (hd, b)"
    then have "cached_response c1 k = Some (hd, b)" by simp
    then have ck: "cached_response c k = Some (hd, b)" by (rule cached_response_evict [OF ev idx])
    then have "k \<noteq> key"
      using cache_invD(2) [OF inv] i cached_response_None [of c k] by (metis separate_def option.distinct(1))
    with ck show "(k = key \<and> iheaders i = Some hd \<and> b = ibody i) \<or> (k \<noteq> key \<and> cached_response c k = Some (hd, b))"
      by simp
  qed (simp_all add: frame)
  ultimately show ?thesis by (simp add: Let_def)
qed

lemma finalizeLocked_ok:
  assumes inv: "cache_inv hs c" and i: "inflight_map c key = Some i" and h: "iheaders i \<noteq> None"
  shows "\<exists>c'. finalizeLocked hs key c = Inr c' \<and> cache_inv hs c' \<and> finalized hs key i c c'"
  using inv i h
proof (cases rule: finalizeLocked_cases)
  case (cached c1)
  then show ?thesis using finalized_cached [OF inv i cached(4,3,5)] by (simp add: Let_def)
next
  case (dropped c1)
  then show ?thesis using finalized_dropped [OF inv i dropped(4,3)] by (simp add: Let_def)
qed

section \<open>Pins\<close>

definition set_pins :: "entry_ptr \<Rightarrow> 'h Entry \<Rightarrow> uint32 \<Rightarrow> 'h cache \<Rightarrow> 'h cache" where
  "set_pins p e n c = c\<lparr>entries := (entries c)(p := Some (e\<lparr>epins := n\<rparr>))\<rparr>"

lemma set_pins_frame [simp]:
  "capacity (set_pins p e n c) = capacity c" "slot_count (set_pins p e n c) = slot_count c"
  "used_size (set_pins p e n c) = used_size c" "cache_map (set_pins p e n c) = cache_map c"
  "inflight_map (set_pins p e n c) = inflight_map c" "slots (set_pins p e n c) = slots c"
  "head (set_pins p e n c) = head c" "next_entry (set_pins p e n c) = next_entry c"
  "waiters (set_pins p e n c) = waiters c" "next_waiter (set_pins p e n c) = next_waiter c"
  "entries (set_pins p e n c) = (entries c)(p := Some (e\<lparr>epins := n\<rparr>))"
  by (simp_all add: set_pins_def)

lemma entry_bytes_pins [simp]: "entry_bytes hs (e\<lparr>epins := n\<rparr>) = entry_bytes hs e"
  by (simp add: entry_bytes_def)

lemma slot_bytes_pins:
  "m p = Some e \<Longrightarrow> slot_bytes hs (m(p := Some (e\<lparr>epins := n\<rparr>))) = slot_bytes hs m"
  by (rule ext) (auto simp: slot_bytes_def split: option.splits)

lemma storage_inv_set_pins:
  assumes inv: "storage_inv hs c" and e: "entries c p = Some e"
  shows "storage_inv hs (set_pins p e n c)"
proof -
  have dom: "entries (set_pins p e n c) q \<noteq> None \<longleftrightarrow> entries c q \<noteq> None" for q
    using e by simp
  have "stored_bytes hs (set_pins p e n c) = stored_bytes hs c"
    using e by (simp add: stored_bytes_def slot_bytes_pins)
  then have "accounted hs (set_pins p e n c)"
    using inv e by (auto simp: storage_inv_def accounted_def entry_ok_def)
  moreover have "owns_entries (set_pins p e n c)"
  proof -
    have "owns_entries c" using inv by (simp add: storage_inv_def)
    then show ?thesis unfolding owns_entries_def dom unfolding set_pins_frame(6,8) .
  qed
  moreover have "indexed (set_pins p e n c)"
    using inv e unfolding storage_inv_def indexed_def by auto
  moreover have "ring_ok (set_pins p e n c)" using inv by (simp add: storage_inv_def ring_ok_def)
  ultimately show ?thesis by (simp add: storage_inv_def)
qed

lemma cache_inv_set_pins:
  assumes "cache_inv hs c" "entries c p = Some e"
  shows "cache_inv hs (set_pins p e n c)"
  using assms storage_inv_set_pins [of hs c p e n]
    waiters_ok_cong [of "set_pins p e n c" c]
  by (simp add: cache_inv_def separate_def inflights_ok_def)

lemma cached_response_set_pins [simp]:
  "entries c p = Some e \<Longrightarrow> cached_response (set_pins p e n c) k = cached_response c k"
  by (auto simp: cached_response_def split: option.splits)

section \<open>Lookup\<close>

lemma hit_entry:
  assumes "cache_inv hs c" "cache_map c k = Some p"
  obtains e h where "entries c p = Some e" "ekey e = k" "eheaders e = Some h"
    "cached_response c k = Some (h, ebody e)"
proof -
  obtain e where e: "entries c p = Some e" "ekey e = k"
    using cache_invD(5) [OF assms(1)] assms(2) by (metis indexed_def)
  then obtain h where "eheaders e = Some h"
    using cache_invD(8) [OF assms(1)] by (auto simp: accounted_def entry_ok_def)
  with e assms(2) show thesis by (intro that) (auto simp: cached_response_def)
qed

lemma lookup_hit:
  assumes "cache_map c k = Some p" "entries c p = Some e" "eheaders e = Some h"
  shows "lookup_locked k cb c = Inr (LockedHit p, set_pins p e (epins e + 1) c, [])"
    and "lookup k cb c =
      (if ebody e = [] then
         Inr (\<lparr>rtype = Hit, rhit = Some \<lparr>hheaders = h, hbody = [], hfragment = None\<rparr>, rwaiter = None\<rparr>,
              set_pins p e (epins e) c, [])
       else
         Inr (\<lparr>rtype = Hit, rhit = Some \<lparr>hheaders = h, hbody = ebody e, hfragment = Some p\<rparr>, rwaiter = None\<rparr>,
              set_pins p e (epins e + 1) c, []))"
  using assms by (simp_all add: lookup_def lookup_locked_def serve_hit_def unpin_def set_pins_def)

lemma lookup_leader:
  assumes "cache_map c k = None" "inflight_map c k = None"
  shows "lookup_locked k cb c = Inr (LockedDone \<lparr>rtype = Leader, rhit = None, rwaiter = None\<rparr>,
           c\<lparr>inflight_map := (inflight_map c)(k := Some empty_inflight)\<rparr>, [])"
    and "lookup k cb c = Inr (\<lparr>rtype = Leader, rhit = None, rwaiter = None\<rparr>,
           c\<lparr>inflight_map := (inflight_map c)(k := Some empty_inflight)\<rparr>, [])"
  using assms by (simp_all add: lookup_def lookup_locked_def)

definition backfill_tasks :: "waiter_ptr \<Rightarrow> 'h Inflight \<Rightarrow> 'h task list" where
  "backfill_tasks w i = (case iheaders i of None \<Rightarrow> [] | Some h \<Rightarrow> [Backfill w h (ibody i)])"

definition attach_waiter :: "key_t \<Rightarrow> 'h Inflight \<Rightarrow> callbacks \<Rightarrow> 'h cache \<Rightarrow> 'h cache" where
  "attach_waiter k i cbs c =
     c\<lparr>waiters := (waiters c)(next_waiter c := Some
            \<lparr>wdispatcher = cb_dispatcher cbs, wcallbacks = cb_id cbs, wcancelled = False\<rparr>),
       next_waiter := Suc (next_waiter c),
       inflight_map := (inflight_map c)(k := Some (i\<lparr>iwaiters := iwaiters i @ [next_waiter c]\<rparr>))\<rparr>"

lemma lookup_follower:
  assumes "cache_map c k = None" "inflight_map c k = Some i" "iheaders i = None \<longrightarrow> ibody i = []"
  shows "lookup_locked k (Some cbs) c =
           Inr (LockedDone \<lparr>rtype = Follower, rhit = None, rwaiter = Some (next_waiter c)\<rparr>,
                attach_waiter k i cbs c, backfill_tasks (next_waiter c) i)"
    and "lookup k (Some cbs) c =
           Inr (\<lparr>rtype = Follower, rhit = None, rwaiter = Some (next_waiter c)\<rparr>,
                attach_waiter k i cbs c, backfill_tasks (next_waiter c) i)"
  using assms
  by (simp_all add: lookup_def lookup_locked_def attachBackfillWaiterLocked_def attach_waiter_def
      backfill_tasks_def Let_def split: option.splits)

lemma cache_inv_leader:
  assumes inv: "cache_inv hs c" and none: "cache_map c k = None" "inflight_map c k = None"
    and fits: "length k < 2 ^ 64"
  shows "cache_inv hs (c\<lparr>inflight_map := (inflight_map c)(k := Some empty_inflight)\<rparr>)"
proof -
  let ?c' = "c\<lparr>inflight_map := (inflight_map c)(k := Some empty_inflight)\<rparr>"
  have "waiters_ok ?c'"
    using cache_invD(4) [OF inv] by (intro waiters_ok_update) (simp_all add: empty_inflight_def)
  moreover have "separate ?c'" using cache_invD(2) [OF inv] none by (simp add: separate_def)
  moreover have "inflights_ok hs ?c'"
    using cache_invD(3) [OF inv] fits
    by (simp add: inflights_ok_def inflight_ok_def empty_inflight_def response_bytes_def)
  ultimately show ?thesis using cache_invD(1) [OF inv] by (simp add: cache_inv_def)
qed

lemma storage_inv_attach: "storage_inv hs (attach_waiter k i cbs c) = storage_inv hs c"
  by (simp add: storage_inv_defs attach_waiter_def stored_bytes_def)

lemma cache_inv_attach:
  assumes inv: "cache_inv hs c" and i: "inflight_map c k = Some i"
  shows "cache_inv hs (attach_waiter k i cbs c)"
proof -
  let ?w = "next_waiter c" and ?c' = "attach_waiter k i cbs c"
  have wok: "waiters_ok c" by (rule cache_invD(4) [OF inv])
  have fresh: "waiters c ?w = None" using wok unfolding waiters_ok_def by blast
  have notin: "?w \<notin> set (iwaiters j)" if "inflight_map c k' = Some j" for k' j
    using wok fresh that unfolding waiters_ok_def by blast
  have dist: "distinct (iwaiters j)" if "inflight_map c k' = Some j" for k' j
    using wok that unfolding waiters_ok_def by blast
  have known: "waiters c v \<noteq> None" if "inflight_map c k' = Some j" "v \<in> set (iwaiters j)" for k' j v
    using wok that unfolding waiters_ok_def by blast
  have uniq: "k1 = k2" if "inflight_map c k1 = Some j1" "inflight_map c k2 = Some j2"
    "v \<in> set (iwaiters j1)" "v \<in> set (iwaiters j2)" for k1 k2 j1 j2 v
    using wok that unfolding waiters_ok_def by blast
  have bound: "v < ?w" if "waiters c v \<noteq> None" for v
    using wok that unfolding waiters_ok_def by blast
  have mem: "v \<in> set (iwaiters j) \<Longrightarrow> inflight_map ?c' k' = Some j \<Longrightarrow>
      (v = ?w \<and> k' = k) \<or> (\<exists>j'. inflight_map c k' = Some j' \<and> v \<in> set (iwaiters j'))" for v j k'
    using i by (auto simp: attach_waiter_def split: if_splits)
  have "waiters_ok ?c'"
    unfolding waiters_ok_def
  proof (intro conjI allI impI)
    fix k' j assume "inflight_map ?c' k' = Some j"
    then show "distinct (iwaiters j)"
      using dist [OF i] notin [OF i] dist [of k' j] by (auto simp: attach_waiter_def split: if_splits)
  next
    fix k' j v assume "inflight_map ?c' k' = Some j" "v \<in> set (iwaiters j)"
    then show "waiters ?c' v \<noteq> None"
      using mem known by (fastforce simp: attach_waiter_def)
  next
    fix k1 k2 j1 j2 v assume "inflight_map ?c' k1 = Some j1" "inflight_map ?c' k2 = Some j2"
      "v \<in> set (iwaiters j1)" "v \<in> set (iwaiters j2)"
    then show "k1 = k2" using mem notin uniq by metis
  next
    fix v assume "waiters ?c' v \<noteq> None"
    then show "v < next_waiter ?c'"
      using bound [of v] by (cases "v = ?w") (auto simp: attach_waiter_def)
  qed
  moreover have "separate ?c'"
    using cache_invD(2) [OF inv] i by (auto simp: separate_def attach_waiter_def)
  moreover have "inflights_ok hs ?c'"
    using cache_invD(3) [OF inv] i by (simp add: inflights_ok_def inflight_ok_def attach_waiter_def)
  moreover have "storage_inv hs ?c'" using cache_invD(1) [OF inv] by (simp add: storage_inv_attach)
  ultimately show ?thesis by (simp add: cache_inv_def)
qed

section \<open>Publishing\<close>

lemma finalized_inflight [simp]:
  "finalized hs key i (c\<lparr>inflight_map := (inflight_map c)(key := x)\<rparr>) c' = finalized hs key i c c'"
  by (simp add: finalized_def entry_step_def)

definition with_headers :: "'h \<Rightarrow> 'h Inflight \<Rightarrow> 'h Inflight" where
  "with_headers h i = i\<lparr>iheaders := Some (case iheaders i of None \<Rightarrow> h | Some h' \<Rightarrow> h')\<rparr>"

definition with_data :: "string \<Rightarrow> 'h Inflight \<Rightarrow> 'h Inflight" where
  "with_data d i = i\<lparr>ibody := ibody i @ d\<rparr>"

definition set_inflight :: "key_t \<Rightarrow> 'h Inflight \<Rightarrow> 'h cache \<Rightarrow> 'h cache" where
  "set_inflight k i c = c\<lparr>inflight_map := (inflight_map c)(k := Some i)\<rparr>"

lemma with_simps [simp]:
  "iheaders (with_headers h i) = Some (case iheaders i of None \<Rightarrow> h | Some h' \<Rightarrow> h')"
  "ibody (with_headers h i) = ibody i" "iwaiters (with_headers h i) = iwaiters i"
  "iheaders (with_data d i) = iheaders i" "ibody (with_data d i) = ibody i @ d"
  "iwaiters (with_data d i) = iwaiters i"
  by (simp_all add: with_headers_def with_data_def)

lemma publish_missing:
  assumes "inflight_map c key = None"
  shows "publishHeaders hs key h fin c = Inr (c, [])" "publishData hs key d fin c = Inr (c, [])"
  using assms by (simp_all add: publishHeaders_def publishData_def)

lemma publishHeaders_unfold:
  assumes "inflight_map c key = Some i"
  shows "publishHeaders hs key h fin c =
    and_then (if fin then finalizeLocked hs key (set_inflight key (with_headers h i) c)
              else Inr (set_inflight key (with_headers h i) c)) (\<lambda>c2.
      Inr (c2, map (\<lambda>w. FeedHeaders w (case iheaders i of None \<Rightarrow> h | Some h' \<Rightarrow> h') fin) (iwaiters i)))"
  using assms by (simp add: publishHeaders_def set_inflight_def with_headers_def Let_def)

lemma publishData_unfold:
  assumes "inflight_map c key = Some i"
  shows "publishData hs key d fin c =
    and_then (if fin then finalizeLocked hs key (set_inflight key (with_data d i) c)
              else Inr (set_inflight key (with_data d i) c)) (\<lambda>c2.
      Inr (c2, map (\<lambda>w. FeedData w d fin) (iwaiters i)))"
  using assms by (simp add: publishData_def set_inflight_def with_data_def Let_def)

lemma cache_inv_set_inflight:
  assumes "cache_inv hs c" "inflight_map c key = Some i" "inflight_ok hs key i'" "iwaiters i' = iwaiters i"
  shows "cache_inv hs (set_inflight key i' c)"
  unfolding set_inflight_def
  by (rule cache_inv_inflight [OF assms(1,2,3)]) (simp_all add: assms(4) inflight_distinct [OF assms(1,2)])

text \<open>One lemma for the end of both kinds of publication: the record is finalized.\<close>

lemma finalize_updated:
  assumes inv: "cache_inv hs c" and i: "inflight_map c key = Some i"
    and ok: "inflight_ok hs key i'" "iwaiters i' = iwaiters i" and h: "iheaders i' \<noteq> None"
  shows "\<exists>c'. finalizeLocked hs key (set_inflight key i' c) = Inr c' \<and> cache_inv hs c' \<and> finalized hs key i' c c'"
proof -
  have "inflight_map (set_inflight key i' c) key = Some i'" by (simp add: set_inflight_def)
  from finalizeLocked_ok [OF cache_inv_set_inflight [OF inv i ok] this h] show ?thesis
    by (simp add: set_inflight_def)
qed

lemma inflight_ok_headers:
  assumes "inflight_ok hs key i" "response_bytes hs key (iheaders (with_headers h i)) (ibody i) < 2 ^ 64"
  shows "inflight_ok hs key (with_headers h i)"
  using assms by (simp add: inflight_ok_def)

lemma inflight_ok_data:
  assumes "iheaders i \<noteq> None" "response_bytes hs key (iheaders i) (ibody i @ d) < 2 ^ 64"
  shows "inflight_ok hs key (with_data d i)"
  using assms by (auto simp: inflight_ok_def)

lemma publishHeaders_ok:
  assumes inv: "cache_inv hs c" and i: "inflight_map c key = Some i"
    and fits: "response_bytes hs key (iheaders (with_headers h i)) (ibody i) < 2 ^ 64"
  shows "\<exists>c'. publishHeaders hs key h fin c =
           Inr (c', map (\<lambda>w. FeedHeaders w (case iheaders i of None \<Rightarrow> h | Some h' \<Rightarrow> h') fin) (iwaiters i))
         \<and> cache_inv hs c'
         \<and> (if fin then finalized hs key (with_headers h i) c c' else c' = set_inflight key (with_headers h i) c)"
proof -
  have old: "inflight_ok hs key i" using cache_invD(3) [OF inv] i by (simp add: inflights_ok_def)
  note ok = inflight_ok_headers [OF old fits]
  show ?thesis
  proof (cases fin)
    case True
    then show ?thesis
      using finalize_updated [OF inv i ok] by (auto simp: publishHeaders_unfold [OF i])
  next
    case False
    then show ?thesis
      using cache_inv_set_inflight [OF inv i ok] by (simp add: publishHeaders_unfold [OF i])
  qed
qed

lemma publishData_ok:
  assumes inv: "cache_inv hs c" and i: "inflight_map c key = Some i" and h: "iheaders i \<noteq> None"
    and fits: "response_bytes hs key (iheaders i) (ibody i @ d) < 2 ^ 64"
  shows "\<exists>c'. publishData hs key d fin c = Inr (c', map (\<lambda>w. FeedData w d fin) (iwaiters i))
         \<and> cache_inv hs c'
         \<and> (if fin then finalized hs key (with_data d i) c c' else c' = set_inflight key (with_data d i) c)"
proof -
  note ok = inflight_ok_data [OF h fits]
  show ?thesis
  proof (cases fin)
    case True
    then show ?thesis
      using finalize_updated [OF inv i ok] h by (auto simp: publishData_unfold [OF i])
  next
    case False
    then show ?thesis
      using cache_inv_set_inflight [OF inv i ok] by (simp add: publishData_unfold [OF i])
  qed
qed

section \<open>Removing and cancelling a waiter\<close>

lemma swap_pop_mset:
  "swap_pop_from i w ws = Some ws' \<Longrightarrow> mset ws = add_mset w (mset ws')"
proof (induction i w ws rule: swap_pop_from.induct)
  case (1 i w ws)
  show ?case
  proof (cases "i < length ws \<and> ws ! i = w")
    case False
    then show ?thesis
      using 1 by (subst (asm) (2) swap_pop_from.simps) (auto split: if_splits)
  next
    case True
    let ?n = "length ws - 1"
    let ?sw = "ws[i := ws ! ?n, ?n := ws ! i]"
    have lt: "i < length ws" "?n < length ws" using True by auto
    have ws': "ws' = butlast ?sw"
      using "1.prems" True by (subst (asm) swap_pop_from.simps) simp
    have "?sw \<noteq> []" using lt by auto
    moreover from this have "last ?sw = w" using lt True by (simp add: last_list_update)
    ultimately have "?sw = ws' @ [w]" using ws' append_butlast_last_id [of ?sw] by simp
    moreover have "mset ?sw = mset ws" using lt by (simp add: mset_swap)
    ultimately show ?thesis by (metis mset_append mset_single_iff_right union_mset_add_mset_right add.right_neutral mset.simps)
  qed
qed

lemma swap_pop_None: "swap_pop_from i w ws = None \<longleftrightarrow> w \<notin> set (drop i ws)"
proof (induction i w ws rule: swap_pop_from.induct)
  case (1 i w ws)
  show ?case
  proof (cases "i < length ws")
    case True
    then have "set (drop i ws) = insert (ws ! i) (set (drop (Suc i) ws))"
      by (simp add: Cons_nth_drop_Suc [symmetric])
    then show ?thesis using 1 True by (subst swap_pop_from.simps) auto
  next
    case False
    then show ?thesis by (subst swap_pop_from.simps) simp
  qed
qed

lemma removeWaiter_cases:
  assumes "inflight_map c key = Some i"
  obtains (found) ws where "w \<in> set (iwaiters i)" "mset (iwaiters i) = add_mset w (mset ws)"
      "removeWaiter key w c = set_inflight key (i\<lparr>iwaiters := ws\<rparr>) c"
    | (absent) "w \<notin> set (iwaiters i)" "removeWaiter key w c = c"
proof (cases "swap_pop_from 0 w (iwaiters i)")
  case None
  then show ?thesis
    using absent assms swap_pop_None [of 0 w "iwaiters i"] by (simp add: removeWaiter_def)
next
  case (Some ws)
  then show ?thesis
    using found [of ws] assms swap_pop_mset [OF Some] swap_pop_None [of 0 w "iwaiters i"]
    by (simp add: removeWaiter_def set_inflight_def)
qed

lemma cache_inv_removeWaiter:
  assumes inv: "cache_inv hs c"
  shows "cache_inv hs (removeWaiter key w c)"
proof (cases "inflight_map c key")
  case None
  then show ?thesis using inv by (simp add: removeWaiter_def)
next
  case (Some i)
  then show ?thesis
  proof (cases rule: removeWaiter_cases [where w = w])
    case (found ws)
    have "set ws \<subseteq> set (iwaiters i)" using found(2) by (metis set_mset_mset set_mset_add_mset_insert subset_insertI)
    moreover have "distinct ws"
      using found(2) inflight_distinct [OF inv Some] by (metis distinct.simps(2) mset.simps(2) mset_eq_imp_distinct_iff)
    moreover have "inflight_ok hs key (i\<lparr>iwaiters := ws\<rparr>)"
      using cache_invD(3) [OF inv] Some by (simp add: inflights_ok_def inflight_ok_def)
    ultimately show ?thesis
      unfolding found(3) set_inflight_def by (intro cache_inv_inflight [OF inv Some]) simp_all
  qed (use inv in simp)
qed

lemma cancel_waiter_ok:
  assumes inv: "cache_inv hs c" and w: "waiters c w = Some wt"
  shows "cancel_waiter w c = Inr (c\<lparr>waiters := (waiters c)(w := Some (wt\<lparr>wcancelled := True\<rparr>))\<rparr>)"
    and "cache_inv hs (c\<lparr>waiters := (waiters c)(w := Some (wt\<lparr>wcancelled := True\<rparr>))\<rparr>)"
proof -
  let ?c' = "c\<lparr>waiters := (waiters c)(w := Some (wt\<lparr>wcancelled := True\<rparr>))\<rparr>"
  have dom: "waiters ?c' v \<noteq> None \<longleftrightarrow> waiters c v \<noteq> None" for v using w by simp
  have "waiters_ok ?c'"
    using cache_invD(4) [OF inv] unfolding waiters_ok_def dom by simp
  moreover have "storage_inv hs ?c'"
    using cache_invD(1) [OF inv] by simp
  ultimately show "cache_inv hs ?c'"
    using inv by (simp add: cache_inv_def separate_def inflights_ok_def)
  show "cancel_waiter w c = Inr ?c'" using w by (simp add: cancel_waiter_def)
qed

end
