(* ===== verification/Ring_Filter.thy ===== *)
theory Ring_Filter
  imports Ring_Cache_Inv
begin

text \<open>
  The stream filter of \<^verbatim>\<open>ring-cache/filter.cc\<close> and its configuration
  (\<^verbatim>\<open>ring-cache/config.cc\<close>, \<^verbatim>\<open>config.h\<close>, \<^verbatim>\<open>cache.proto\<close>).  A filter is a record; a
  callback of it takes the filter and the shared cache and returns both, with the posts the
  cache asked for and the events sent to the stream's own callbacks.  The host and path of
  a request are arguments: they are read from Envoy's request header map.
\<close>

section \<open>Filter state\<close>

datatype Role = Unset | Cached | LeaderRole | FollowerRole

datatype FilterStatus = Continue | StopIteration

record filter_state =
  fkey :: string
  fdone :: bool
  frole :: Role
  fwaiter :: "waiter_ptr option"
  fdecoder :: "callbacks option"
  fencoder :: "nat option"

definition Separator :: string where
  "Separator = ''///''"

definition RingCacheFilter :: filter_state where
  "RingCacheFilter =
     \<lparr>fkey = [], fdone = False, frole = Unset, fwaiter = None, fdecoder = None, fencoder = None\<rparr>"

definition setDecoderFilterCallbacks :: "callbacks \<Rightarrow> filter_state \<Rightarrow> filter_state" where
  "setDecoderFilterCallbacks cb f = f\<lparr>fdecoder := Some cb\<rparr>"

definition setEncoderFilterCallbacks :: "nat \<Rightarrow> filter_state \<Rightarrow> filter_state" where
  "setEncoderFilterCallbacks cb f = f\<lparr>fencoder := Some cb\<rparr>"

definition buildKey :: "string \<Rightarrow> string \<Rightarrow> filter_state \<Rightarrow> bool \<times> filter_state" where
  "buildKey host path f =
     (if host = [] \<or> path = [] then (False, f)
      else (True, f\<lparr>fkey := ((fkey f @ host) @ Separator) @ path\<rparr>))"

section \<open>Callbacks\<close>

text \<open>The \<^verbatim>\<open>switch\<close> of \<^verbatim>\<open>decodeHeaders\<close> on the result of the lookup.\<close>

definition apply_lookup ::
    "'h LookupResult \<Rightarrow> filter_state \<Rightarrow> fault + FilterStatus \<times> filter_state \<times> 'h event list" where
  "apply_lookup r f =
     (case rtype r of
        Hit \<Rightarrow>
          and_then (deref (AssertFailed ''bad_optional_access'') (rhit r)) (\<lambda>hit.
          and_then (deref NullDeref (fdecoder f)) (\<lambda>_.
            let has_body = (0 < length (hbody hit)) in
            Inr (StopIteration, f\<lparr>frole := Cached, fdone := True\<rparr>,
                 EncodeHeaders (hheaders hit) (\<not> has_body) RingCacheDetailsMessageHit
                   # (if has_body then [EncodeData (hbody hit) True] else []))))
      | Leader \<Rightarrow> Inr (Continue, f\<lparr>frole := LeaderRole\<rparr>, [])
      | Follower \<Rightarrow> Inr (StopIteration, f\<lparr>frole := FollowerRole, fwaiter := rwaiter r\<rparr>, []))"

definition decodeHeaders ::
    "string \<Rightarrow> string \<Rightarrow> filter_state \<Rightarrow> 'h cache
      \<Rightarrow> fault + FilterStatus \<times> filter_state \<times> 'h cache \<times> 'h task list \<times> 'h event list" where
  "decodeHeaders host path f c =
     (let (built, f1) = buildKey host path f in
      if \<not> built then Inr (Continue, f1, c, [], [])
      else
        and_then (lookup (fkey f1) (fdecoder f1) c) (\<lambda>(r, c1, ts).
        and_then (apply_lookup r f1) (\<lambda>(st, f2, evs).
          Inr (st, f2, c1, ts, evs))))"

definition encodeHeaders ::
    "('h \<Rightarrow> size_t) \<Rightarrow> 'h \<Rightarrow> bool \<Rightarrow> filter_state \<Rightarrow> 'h cache
      \<Rightarrow> fault + FilterStatus \<times> filter_state \<times> 'h cache \<times> 'h task list" where
  "encodeHeaders hs headers end_stream f c =
     (let f1 = (if end_stream then f\<lparr>fdone := True\<rparr> else f) in
      if frole f1 \<noteq> LeaderRole then Inr (Continue, f1, c, [])
      else
        and_then (publishHeaders hs (fkey f1) headers end_stream c) (\<lambda>(c1, ts).
          Inr (Continue, f1, c1, ts)))"

definition encodeData ::
    "('h \<Rightarrow> size_t) \<Rightarrow> string \<Rightarrow> bool \<Rightarrow> filter_state \<Rightarrow> 'h cache
      \<Rightarrow> fault + FilterStatus \<times> filter_state \<times> 'h cache \<times> 'h task list" where
  "encodeData hs data end_stream f c =
     (let f1 = (if end_stream then f\<lparr>fdone := True\<rparr> else f) in
      if frole f1 \<noteq> LeaderRole then Inr (Continue, f1, c, [])
      else
        and_then (publishData hs (fkey f1) data end_stream c) (\<lambda>(c1, ts).
          Inr (Continue, f1, c1, ts)))"

text \<open>The callbacks that let everything pass: no state is read or written.\<close>

definition encodeTrailers :: "filter_state \<Rightarrow> 'h cache \<Rightarrow> FilterStatus \<times> filter_state \<times> 'h cache" where
  "encodeTrailers f c = (Continue, f, c)"

definition encodeMetadata :: "filter_state \<Rightarrow> 'h cache \<Rightarrow> FilterStatus \<times> filter_state \<times> 'h cache" where
  "encodeMetadata f c = (Continue, f, c)"

definition encode1xxHeaders :: "filter_state \<Rightarrow> 'h cache \<Rightarrow> FilterStatus \<times> filter_state \<times> 'h cache" where
  "encode1xxHeaders f c = (Continue, f, c)"

definition decodeData :: "filter_state \<Rightarrow> 'h cache \<Rightarrow> FilterStatus \<times> filter_state \<times> 'h cache" where
  "decodeData f c = (Continue, f, c)"

definition decodeTrailers :: "filter_state \<Rightarrow> 'h cache \<Rightarrow> FilterStatus \<times> filter_state \<times> 'h cache" where
  "decodeTrailers f c = (Continue, f, c)"

definition onDestroy :: "filter_state \<Rightarrow> 'h cache \<Rightarrow> fault + 'h cache" where
  "onDestroy f c =
     (if frole f = FollowerRole \<and> \<not> fdone f then
        and_then (deref NullDeref (fwaiter f)) (\<lambda>w.
        and_then (cancel_waiter w c) (\<lambda>c1.
          Inr (removeWaiter (fkey f) w c1)))
      else Inr c)"

section \<open>Configuration\<close>

record ProtoConfig =
  proto_capacity :: uint64
  proto_slot_count :: uint64

definition validate_proto :: "ProtoConfig \<Rightarrow> bool" where
  "validate_proto p \<longleftrightarrow> 0 < proto_capacity p \<and> 0 < proto_slot_count p"

record 'h filter_config =
  cfg_capacity :: uint64
  cfg_slot_count :: uint64
  cfg_cache :: "'h cache"

text \<open>
  The singleton manager of Envoy keeps one cache per process: the constructor takes what is
  registered and makes a cache only when nothing is.
\<close>

definition RingCacheFilterConfig :: "ProtoConfig \<Rightarrow> 'h cache option \<Rightarrow> 'h filter_config" where
  "RingCacheFilterConfig proto registered =
     \<lparr>cfg_capacity = proto_capacity proto, cfg_slot_count = proto_slot_count proto,
      cfg_cache = (case registered of
          Some c \<Rightarrow> c
        | None \<Rightarrow> RingBufferCache (proto_capacity proto) (proto_slot_count proto))\<rparr>"

definition config_capacity :: "'h filter_config \<Rightarrow> uint32" where
  "config_capacity cfg = ucast (cfg_capacity cfg)"

definition config_slotCount :: "'h filter_config \<Rightarrow> uint64" where
  "config_slotCount cfg = cfg_slot_count cfg"

datatype config_error = ProtoValidationError

definition createFilterFactoryFromProto ::
    "ProtoConfig \<Rightarrow> 'h cache option \<Rightarrow> config_error + 'h filter_config" where
  "createFilterFactoryFromProto proto registered =
     (if validate_proto proto then Inr (RingCacheFilterConfig proto registered)
      else Inl ProtoValidationError)"

text \<open>
  A process loads its configurations one after another.  The singleton is pinned
  (\<^verbatim>\<open>getTyped\<close> is called with \<^verbatim>\<open>true\<close>), so once it is made it stays registered.
\<close>

fun load_configs :: "'h cache option \<Rightarrow> ProtoConfig list \<Rightarrow> (config_error + 'h filter_config) list" where
  "load_configs registered [] = []"
| "load_configs registered (p # ps) =
     (case createFilterFactoryFromProto p registered of
        Inl e \<Rightarrow> Inl e # load_configs registered ps
      | Inr cfg \<Rightarrow> Inr cfg # load_configs (Some (cfg_cache cfg)) ps)"

definition first_cache :: "ProtoConfig list \<Rightarrow> 'h cache" where
  "first_cache ps = (case find validate_proto ps of
       None \<Rightarrow> RingBufferCache 0 0
     | Some q \<Rightarrow> RingBufferCache (proto_capacity q) (proto_slot_count q))"

lemma first_cache_skip:
  assumes "validate_proto q" "\<forall>p \<in> set qs. \<not> validate_proto p"
  shows "first_cache (qs @ q # rs) = RingBufferCache (proto_capacity q) (proto_slot_count q)"
proof -
  have "find validate_proto (qs @ q # rs) = Some q" using assms by (induction qs) simp_all
  then show ?thesis by (simp add: first_cache_def)
qed

definition config_result :: "'h cache \<Rightarrow> ProtoConfig \<Rightarrow> config_error + 'h filter_config" where
  "config_result c p =
     (if validate_proto p
      then Inr \<lparr>cfg_capacity = proto_capacity p, cfg_slot_count = proto_slot_count p, cfg_cache = c\<rparr>
      else Inl ProtoValidationError)"

lemma load_configs_registered: "load_configs (Some c) ps = map (config_result c) ps"
  by (induction ps) (simp_all add: createFilterFactoryFromProto_def RingCacheFilterConfig_def config_result_def)

lemma load_configs_first: "load_configs None ps = map (config_result (first_cache ps)) ps"
proof (induction ps)
  case (Cons p ps)
  show ?case
  proof (cases "validate_proto p")
    case True
    then show ?thesis
      by (simp add: createFilterFactoryFromProto_def RingCacheFilterConfig_def load_configs_registered
          config_result_def first_cache_def)
  next
    case False
    then have "first_cache (p # ps) = (first_cache ps :: 'a cache)" by (simp add: first_cache_def)
    then show ?thesis using Cons False by (simp add: createFilterFactoryFromProto_def config_result_def)
  qed
qed simp

section \<open>Splitting a callback at the mutex\<close>

text \<open>
  A hit is served after the mutex is released; \<open>begin_request\<close> is the part of
  \<^verbatim>\<open>decodeHeaders\<close> up to that point and \<open>finish_hit\<close> the rest.
\<close>

datatype 'h begun = Finished FilterStatus filter_state "'h event list" | Serving entry_ptr filter_state

definition begin_request ::
    "filter_state \<Rightarrow> 'h cache \<Rightarrow> fault + 'h begun \<times> 'h cache \<times> 'h task list" where
  "begin_request f c =
     and_then (lookup_locked (fkey f) (fdecoder f) c) (\<lambda>(l, c1, ts).
       case l of
         LockedHit p \<Rightarrow> Inr (Serving p f, c1, ts)
       | LockedDone r \<Rightarrow> and_then (apply_lookup r f) (\<lambda>(st, f1, evs). Inr (Finished st f1 evs, c1, ts)))"

definition finish_hit ::
    "entry_ptr \<Rightarrow> filter_state \<Rightarrow> 'h cache
      \<Rightarrow> fault + filter_state \<times> 'h cache \<times> entry_ptr option \<times> 'h event list" where
  "finish_hit p f c =
     and_then (serve_hit p c) (\<lambda>(r, c1).
     and_then (apply_lookup r f) (\<lambda>(st, f1, evs).
       Inr (f1, c1, Option.bind (rhit r) hfragment, evs)))"

lemma decodeHeaders_split:
  assumes "host \<noteq> []" "path \<noteq> []"
  shows "decodeHeaders host path f c =
    (let f1 = f\<lparr>fkey := fkey f @ host @ Separator @ path\<rparr> in
     and_then (begin_request f1 c) (\<lambda>(b, c1, ts).
       case b of
         Finished st f2 evs \<Rightarrow> Inr (st, f2, c1, ts, evs)
       | Serving p f2 \<Rightarrow> and_then (finish_hit p f2 c1) (\<lambda>(f3, c2, fr, evs). Inr (StopIteration, f3, c2, ts, evs))))"
proof -
  let ?f1 = "f\<lparr>fkey := fkey f @ host @ Separator @ path\<rparr>"
  have hit: "serve_hit p c1 = Inr (r, c2) \<Longrightarrow> rtype r = Hit" for p and c1 c2 :: "'h cache" and r
    by (auto simp: serve_hit_def split: if_splits)
  have st: "rtype r = Hit \<Longrightarrow> apply_lookup r g = Inr (st, g', evs) \<Longrightarrow> st = StopIteration"
    for r :: "'h LookupResult" and g st g' evs
    by (auto simp: apply_lookup_def Let_def)
  have stop: "serve_hit p c1 = Inr (r, c2) \<Longrightarrow> apply_lookup r g = Inr (st, g', evs) \<Longrightarrow> st = StopIteration"
    for p and c1 c2 :: "'h cache" and r g st g' evs
    by (rule st [OF hit])
  have serve: "and_then (and_then (serve_hit p c1) (\<lambda>(r, c2). Inr (r, c2, ts))) (\<lambda>(r, c1, ts).
        and_then (apply_lookup r ?f1) (\<lambda>(st, f2, evs). Inr (st, f2, c1, ts, evs)))
      = and_then (finish_hit p ?f1 c1) (\<lambda>(f3, c2, fr, evs). Inr (StopIteration, f3, c2, ts, evs))"
    for p and c1 :: "'h cache" and ts :: "'h task list"
    by (auto simp: finish_hit_def and_then_def split: sum.splits dest: stop)
  have key: "buildKey host path f = (True, ?f1)" using assms by (simp add: buildKey_def)
  show ?thesis
  proof (cases "lookup_locked (fkey ?f1) (fdecoder ?f1) c")
    case (Inl e)
    then show ?thesis by (simp add: decodeHeaders_def key begin_request_def lookup_def)
  next
    case (Inr x)
    obtain l c1 ts where x: "x = (l, c1, ts)" by (cases x)
    show ?thesis
    proof (cases l)
      case (LockedHit p)
      then show ?thesis using Inr x serve
        by (simp add: decodeHeaders_def key begin_request_def lookup_def)
    next
      case (LockedDone r)
      then show ?thesis using Inr x
        by (auto simp: decodeHeaders_def key begin_request_def lookup_def and_then_def split: sum.splits)
    qed
  qed
qed

section \<open>The cache key\<close>

lemma buildKey_fresh:
  assumes "host \<noteq> []" "path \<noteq> []"
  shows "buildKey host path RingCacheFilter = (True, RingCacheFilter\<lparr>fkey := host @ Separator @ path\<rparr>)"
  using assms by (simp add: buildKey_def RingCacheFilter_def)

lemma key_host: "CHR ''/'' \<notin> set host \<Longrightarrow> takeWhile (\<lambda>x. x \<noteq> CHR ''/'') (host @ Separator @ path) = host"
  by (induction host) (auto simp: Separator_def)

text \<open>
  Two keys agree although the requests differ when the separator can be read at two places:
  the cut moves by one or two slashes, or past a whole separator.
\<close>

definition shifted :: "string \<Rightarrow> string \<Rightarrow> string \<Rightarrow> string \<Rightarrow> bool" where
  "shifted host path host' path' \<longleftrightarrow>
     (\<exists>k \<in> {1, 2}. host' = host @ replicate k (CHR ''/'') \<and> path = replicate k (CHR ''/'') @ path') \<or>
     (\<exists>x. host' = host @ Separator @ x \<and> path = x @ Separator @ path')"

lemma separator_overlap:
  "Separator @ path = x @ Separator @ path' \<longleftrightarrow>
     (x = [] \<and> path = path') \<or> (\<exists>k \<in> {1, 2}. x = replicate k (CHR ''/'') \<and> path = replicate k (CHR ''/'') @ path') \<or>
     (\<exists>y. x = Separator @ y \<and> path = y @ Separator @ path')"
proof -
  consider "x = []" | a where "x = [a]" | a b where "x = [a, b]" | a b c y where "x = a # b # c # y"
    by (cases x; cases "tl x"; cases "tl (tl x)") auto
  then show ?thesis by cases (auto simp: Separator_def numeral_2_eq_2)
qed

lemma keys_agree:
  "host @ Separator @ path = host' @ Separator @ path' \<longleftrightarrow>
     (host = host' \<and> path = path') \<or> shifted host path host' path' \<or> shifted host' path' host path"
proof -
  have "host @ Separator @ path = host' @ Separator @ path' \<longleftrightarrow>
      (\<exists>x. host = host' @ x \<and> Separator @ path' = x @ Separator @ path) \<or>
      (\<exists>x. host' = host @ x \<and> Separator @ path = x @ Separator @ path')"
    unfolding append_eq_append_conv2 [of host "Separator @ path"] by metis
  also have "\<dots> \<longleftrightarrow> (host = host' \<and> path = path') \<or> shifted host path host' path' \<or> shifted host' path' host path"
    unfolding separator_overlap shifted_def by blast
  finally show ?thesis .
qed

end
