(* ===== verification/Ring_System.thy ===== *)
theory Ring_System
  imports Ring_Filter
begin

text \<open>
  The filter streams of one process around the shared cache, as a transition system.  The
  critical sections of \<^verbatim>\<open>cache.cc\<close> are atomic; between them every interleaving is a run:
  serving a hit after unlocking, each single \<^verbatim>\<open>post\<close> of a publishing loop, each closure a
  dispatcher runs, the release of a handed-out fragment, and the two halves of
  \<^verbatim>\<open>onDestroy\<close>.  The environment keeps what Envoy documents for a stream filter and
  what the cache's calling contract asks: one response per leader, headers before data and
  nothing after the end of the stream; a dispatcher runs its closures in the order they
  were posted.  Any other stream may at any time get a response, or parts of one, that the
  cache did not send: the upstream's, if it bypassed the cache, or a reply Envoy generates
  itself, for a timeout say (\<open>other_headers\<close>, \<open>other_data\<close>).  Such a reply to a leader reaches
  the filter like the upstream's and is the same step.  A closure of an uncancelled waiter
  whose stream is destroyed would use a dangling pointer; what happens then is undefined in
  C++, so it is no step, and the delivery theory says when it can occur.  A hit that would
  give an entry 2 to the 32 holders, more than its pin counter can count, is no step either.
\<close>

section \<open>The world\<close>

type_synonym stream = nat

datatype phase = AwaitHeaders | Streaming | Complete

text \<open>
  \<open>wserving\<close> are hits between the two halves of a lookup, \<open>wfragments\<close> the body fragments
  still referenced, \<open>wunposted\<close> what a publishing loop has not posted yet, \<open>wqueue\<close> the
  dispatchers' queues, \<open>wran\<close> and \<open>wevents\<close> what ran for a waiter and what its callbacks
  received.  The rest is history: \<open>wleader\<close> the stream that leads a key, \<open>wfeeder\<close> the stream
  that feeds a waiter, \<open>wsent\<close> what the upstream has sent to a stream, \<open>wfinal\<close> what the
  upstream had sent to the leader of a waiter when it ended, \<open>wcomplete\<close> the responses
  the upstream has completed for a key, and \<open>wreplied\<close> the streams that got a response, or a
  part of one, that is neither theirs as a leader nor sent by the cache.
\<close>

record 'h world =
  wcache :: "'h cache"
  wfilters :: "stream \<Rightarrow> filter_state option"
  wphase :: "stream \<Rightarrow> phase"
  wnext :: stream
  wserving :: "(stream \<times> entry_ptr \<times> filter_state) multiset"
  wfragments :: "entry_ptr multiset"
  wunposted :: "stream \<Rightarrow> 'h task list"
  wqueue :: "nat \<Rightarrow> 'h task list"
  wran :: "waiter_ptr \<Rightarrow> 'h task list"
  wevents :: "waiter_ptr \<Rightarrow> 'h event list"
  wleader :: "key_t \<Rightarrow> stream"
  wfeeder :: "waiter_ptr \<Rightarrow> stream"
  wsent :: "stream \<Rightarrow> 'h option \<times> string"
  wfinal :: "waiter_ptr \<Rightarrow> ('h option \<times> string) option"
  wcomplete :: "key_t \<Rightarrow> ('h option \<times> string) list"
  wreplied :: "stream set"

definition init_world :: "'h world \<Rightarrow> bool" where
  "init_world W \<longleftrightarrow>
     (\<exists>cap n. 0 < n \<and> wcache W = RingBufferCache cap n) \<and>
     wfilters W = Map.empty \<and> wnext W = 0 \<and> wserving W = {#} \<and> wfragments W = {#} \<and>
     wunposted W = (\<lambda>_. []) \<and> wqueue W = (\<lambda>_. []) \<and> wran W = (\<lambda>_. []) \<and>
     wevents W = (\<lambda>_. []) \<and> wfinal W = Map.empty \<and> wcomplete W = (\<lambda>_. []) \<and>
     wreplied W = {}"

definition new_filter :: "stream \<Rightarrow> nat \<Rightarrow> string \<Rightarrow> string \<Rightarrow> filter_state" where
  "new_filter s d host path =
     snd (buildKey host path (setDecoderFilterCallbacks (Callbacks s d) RingCacheFilter))"

text \<open>How many holders an entry has: hits being served and fragments handed out.\<close>

definition holders :: "'h world \<Rightarrow> entry_ptr \<Rightarrow> nat" where
  "holders W p = count (wfragments W) p + count (image_mset (\<lambda>(s, p, f). p) (wserving W)) p"

text \<open>
  Events sent to a stream's callbacks pass the encoder side of the same filter, so the
  filter sees the end of its own response.
\<close>

fun pass_events :: "('h \<Rightarrow> size_t) \<Rightarrow> 'h event list \<Rightarrow> filter_state \<Rightarrow> 'h cache \<Rightarrow> fault + filter_state \<times> 'h cache" where
  "pass_events hs [] f c = Inr (f, c)"
| "pass_events hs (EncodeHeaders h fin details # evs) f c =
     and_then (encodeHeaders hs h fin f c) (\<lambda>(st, f1, c1, ts). pass_events hs evs f1 c1)"
| "pass_events hs (EncodeData d fin # evs) f c =
     and_then (encodeData hs d fin f c) (\<lambda>(st, f1, c1, ts). pass_events hs evs f1 c1)"

definition mark_final ::
    "bool \<Rightarrow> 'h task list \<Rightarrow> 'r \<Rightarrow> (waiter_ptr \<Rightarrow> 'r option) \<Rightarrow> waiter_ptr \<Rightarrow> 'r option" where
  "mark_final fin ts r m w = (if fin \<and> w \<in> task_waiter ` set ts then Some r else m w)"

definition mark_complete :: "bool \<Rightarrow> key_t \<Rightarrow> 'r \<Rightarrow> (key_t \<Rightarrow> 'r list) \<Rightarrow> key_t \<Rightarrow> 'r list" where
  "mark_complete fin k r m = (if fin then m(k := r # m k) else m)"

section \<open>Steps\<close>

inductive step :: "('h \<Rightarrow> size_t) \<Rightarrow> 'h world \<Rightarrow> 'h world \<Rightarrow> bool" for hs :: "'h \<Rightarrow> size_t" where
  request_skip:
    "host = [] \<or> path = [] \<Longrightarrow>
     decodeHeaders host path (new_filter (wnext W) d host path) (wcache W) = Inr (st, f', c', ts, evs) \<Longrightarrow>
     step hs W (W\<lparr>wcache := c', wfilters := (wfilters W)(wnext W := Some f'),
                  wphase := (wphase W)(wnext W := AwaitHeaders), wnext := Suc (wnext W)\<rparr>)"
| request_leader:
    "host \<noteq> [] \<Longrightarrow> path \<noteq> [] \<Longrightarrow> f = new_filter (wnext W) d host path \<Longrightarrow> length (fkey f) < 2 ^ 64 \<Longrightarrow>
     begin_request f (wcache W) = Inr (Finished st f' evs, c', ts) \<Longrightarrow> frole f' = LeaderRole \<Longrightarrow>
     step hs W (W\<lparr>wcache := c', wfilters := (wfilters W)(wnext W := Some f'),
                  wphase := (wphase W)(wnext W := AwaitHeaders), wnext := Suc (wnext W),
                  wleader := (wleader W)(fkey f := wnext W),
                  wsent := (wsent W)(wnext W := (None, []))\<rparr>)"
| request_follower:
    "host \<noteq> [] \<Longrightarrow> path \<noteq> [] \<Longrightarrow> f = new_filter (wnext W) d host path \<Longrightarrow>
     begin_request f (wcache W) = Inr (Finished st f' evs, c', ts) \<Longrightarrow> frole f' = FollowerRole \<Longrightarrow>
     fwaiter f' = Some w \<Longrightarrow>
     step hs W (W\<lparr>wcache := c', wfilters := (wfilters W)(wnext W := Some f'),
                  wphase := (wphase W)(wnext W := AwaitHeaders), wnext := Suc (wnext W),
                  wqueue := (wqueue W)(d := wqueue W d @ ts),
                  wfeeder := (wfeeder W)(w := wleader W (fkey f))\<rparr>)"
| request_hit:
    "host \<noteq> [] \<Longrightarrow> path \<noteq> [] \<Longrightarrow> f = new_filter (wnext W) d host path \<Longrightarrow>
     begin_request f (wcache W) = Inr (Serving p f', c', ts) \<Longrightarrow> holders W p + 1 < 2 ^ 32 \<Longrightarrow>
     step hs W (W\<lparr>wcache := c', wnext := Suc (wnext W),
                  wserving := add_mset (wnext W, p, f') (wserving W)\<rparr>)"
| serve:
    "wserving W = add_mset (s, p, f) M \<Longrightarrow>
     finish_hit p f (wcache W) = Inr (f', c', fr, evs) \<Longrightarrow>
     step hs W (W\<lparr>wcache := c', wserving := M,
                  wfragments := (case fr of None \<Rightarrow> wfragments W | Some q \<Rightarrow> add_mset q (wfragments W)),
                  wfilters := (wfilters W)(s := Some f'), wphase := (wphase W)(s := Complete)\<rparr>)"
| release:
    "wfragments W = add_mset p M \<Longrightarrow> release_fragment p (wcache W) = Inr c' \<Longrightarrow>
     step hs W (W\<lparr>wcache := c', wfragments := M\<rparr>)"
| upstream_headers:
    "wfilters W s = Some f \<Longrightarrow> frole f = LeaderRole \<Longrightarrow> wphase W s = AwaitHeaders \<Longrightarrow> wunposted W s = [] \<Longrightarrow>
     response_bytes hs (fkey f) (Some h) [] < 2 ^ 64 \<Longrightarrow>
     encodeHeaders hs h fin f (wcache W) = Inr (st, f', c', ts) \<Longrightarrow> r = (Some h, []) \<Longrightarrow>
     step hs W (W\<lparr>wcache := c', wfilters := (wfilters W)(s := Some f'),
                  wphase := (wphase W)(s := (if fin then Complete else Streaming)),
                  wunposted := (wunposted W)(s := ts),
                  wsent := (wsent W)(s := r), wfinal := mark_final fin ts r (wfinal W),
                  wcomplete := mark_complete fin (fkey f) r (wcomplete W)\<rparr>)"
| upstream_data:
    "wfilters W s = Some f \<Longrightarrow> frole f = LeaderRole \<Longrightarrow> wphase W s = Streaming \<Longrightarrow> wunposted W s = [] \<Longrightarrow>
     (\<forall>i. inflight_map (wcache W) (fkey f) = Some i \<longrightarrow>
        response_bytes hs (fkey f) (iheaders i) (ibody i @ d) < 2 ^ 64) \<Longrightarrow>
     encodeData hs d fin f (wcache W) = Inr (st, f', c', ts) \<Longrightarrow>
     r = (fst (wsent W s), snd (wsent W s) @ d) \<Longrightarrow>
     step hs W (W\<lparr>wcache := c', wfilters := (wfilters W)(s := Some f'),
                  wphase := (wphase W)(s := (if fin then Complete else Streaming)),
                  wunposted := (wunposted W)(s := ts),
                  wsent := (wsent W)(s := r), wfinal := mark_final fin ts r (wfinal W),
                  wcomplete := mark_complete fin (fkey f) r (wcomplete W)\<rparr>)"
| upstream_trailers:
    "wfilters W s = Some f \<Longrightarrow> frole f = LeaderRole \<Longrightarrow> wphase W s = Streaming \<Longrightarrow> wunposted W s = [] \<Longrightarrow>
     encodeTrailers f (wcache W) = (st, f', c') \<Longrightarrow>
     step hs W (W\<lparr>wcache := c', wfilters := (wfilters W)(s := Some f'),
                  wphase := (wphase W)(s := Complete)\<rparr>)"
| other_headers:
    "wfilters W s = Some f \<Longrightarrow> frole f \<noteq> LeaderRole \<Longrightarrow>
     encodeHeaders hs h fin f (wcache W) = Inr (st, f', c', ts) \<Longrightarrow>
     step hs W (W\<lparr>wcache := c', wfilters := (wfilters W)(s := Some f'), wunposted := (wunposted W)(s := wunposted W s @ ts),
                  wreplied := insert s (wreplied W)\<rparr>)"
| other_data:
    "wfilters W s = Some f \<Longrightarrow> frole f \<noteq> LeaderRole \<Longrightarrow>
     encodeData hs d fin f (wcache W) = Inr (st, f', c', ts) \<Longrightarrow>
     step hs W (W\<lparr>wcache := c', wfilters := (wfilters W)(s := Some f'), wunposted := (wunposted W)(s := wunposted W s @ ts),
                  wreplied := insert s (wreplied W)\<rparr>)"
| post:
    "wunposted W s = t # ts \<Longrightarrow> waiters (wcache W) (task_waiter t) = Some wt \<Longrightarrow>
     step hs W (W\<lparr>wunposted := (wunposted W)(s := ts),
                  wqueue := (wqueue W)(wdispatcher wt := wqueue W (wdispatcher wt) @ [t])\<rparr>)"
| run_live:
    "wqueue W d = t # ts \<Longrightarrow> run_task t (wcache W) = Inr evs \<Longrightarrow>
     waiters (wcache W) (task_waiter t) = Some wt \<Longrightarrow> wfilters W (wcallbacks wt) = Some f \<Longrightarrow>
     pass_events hs evs f (wcache W) = Inr (f', c') \<Longrightarrow>
     step hs W (W\<lparr>wcache := c', wqueue := (wqueue W)(d := ts),
                  wran := (wran W)(task_waiter t := wran W (task_waiter t) @ [t]),
                  wevents := (wevents W)(task_waiter t := wevents W (task_waiter t) @ evs),
                  wfilters := (wfilters W)(wcallbacks wt := Some f')\<rparr>)"
| run_dead:
    "wqueue W d = t # ts \<Longrightarrow> run_task t (wcache W) = Inr [] \<Longrightarrow>
     waiters (wcache W) (task_waiter t) = Some wt \<Longrightarrow> wfilters W (wcallbacks wt) = None \<Longrightarrow>
     step hs W (W\<lparr>wqueue := (wqueue W)(d := ts),
                  wran := (wran W)(task_waiter t := wran W (task_waiter t) @ [t])\<rparr>)"
| destroy:
    "wfilters W s = Some f \<Longrightarrow> wunposted W s = [] \<Longrightarrow> \<not> (frole f = FollowerRole \<and> \<not> fdone f) \<Longrightarrow>
     onDestroy f (wcache W) = Inr c' \<Longrightarrow>
     step hs W (W\<lparr>wcache := c', wfilters := (wfilters W)(s := None)\<rparr>)"
| destroy_follower:
    "wfilters W s = Some f \<Longrightarrow> frole f = FollowerRole \<Longrightarrow> \<not> fdone f \<Longrightarrow> fwaiter f = Some w \<Longrightarrow>
     cancel_waiter w (wcache W) = Inr c' \<Longrightarrow>
     step hs W (W\<lparr>wcache := c', wfilters := (wfilters W)(s := None)\<rparr>)"
| remove_waiter:
    "waiters (wcache W) w = Some wt \<Longrightarrow> wcancelled wt \<Longrightarrow>
     step hs W (W\<lparr>wcache := removeWaiter k w (wcache W)\<rparr>)"

text \<open>\<^verbatim>\<open>onDestroy\<close> of an unfinished follower is the cancellation followed by the removal.\<close>

lemma onDestroy_split:
  assumes "frole f = FollowerRole" "\<not> fdone f" "fwaiter f = Some w"
  shows "onDestroy f c = and_then (cancel_waiter w c) (\<lambda>c1. Inr (removeWaiter (fkey f) w c1))"
  using assms by (simp add: onDestroy_def)

lemma new_filter_simps:
  assumes "host \<noteq> []" "path \<noteq> []"
  shows "fkey (new_filter s d host path) = host @ Separator @ path"
    "fdecoder (new_filter s d host path) = Some (Callbacks s d)"
    "frole (new_filter s d host path) = Unset" "fdone (new_filter s d host path) = False"
    "fwaiter (new_filter s d host path) = None"
  using assms
  by (simp_all add: new_filter_def buildKey_def setDecoderFilterCallbacks_def RingCacheFilter_def)

section \<open>Results of a request\<close>

lemma begin_request_cases:
  assumes inv: "cache_inv hs c" and dec: "fdecoder f = Some cbs" and req: "begin_request f c = Inr (b, c', ts)"
  obtains (leader) "cache_map c (fkey f) = None" "inflight_map c (fkey f) = None"
      "b = Finished Continue (f\<lparr>frole := LeaderRole\<rparr>) []"
      "c' = c\<lparr>inflight_map := (inflight_map c)(fkey f := Some empty_inflight)\<rparr>" "ts = []"
    | (follower) i where "cache_map c (fkey f) = None" "inflight_map c (fkey f) = Some i"
      "b = Finished StopIteration (f\<lparr>frole := FollowerRole, fwaiter := Some (next_waiter c)\<rparr>) []"
      "c' = attach_waiter (fkey f) i cbs c" "ts = backfill_tasks (next_waiter c) i"
    | (hit) p e h where "cache_map c (fkey f) = Some p" "entries c p = Some e" "eheaders e = Some h"
      "b = Serving p f" "c' = set_pins p e (epins e + 1) c" "ts = []"
proof (cases "cache_map c (fkey f)")
  case (Some p)
  obtain e h where eh: "entries c p = Some e" "eheaders e = Some h" by (rule hit_entry [OF inv Some])
  have "begin_request f c = Inr (Serving p f, set_pins p e (epins e + 1) c, [])"
    by (simp add: begin_request_def lookup_hit(1) [OF Some eh])
  then show ?thesis using hit [OF Some eh] req by simp
next
  case None
  show ?thesis
  proof (cases "inflight_map c (fkey f)")
    case n: None
    then show ?thesis
      using leader [OF None n] req by (simp add: begin_request_def lookup_leader [OF None n] apply_lookup_def)
  next
    case (Some i)
    then have "iheaders i = None \<longrightarrow> ibody i = []"
      using cache_invD(3) [OF inv] by (simp add: inflights_ok_def inflight_ok_def)
    then show ?thesis
      using follower [OF None Some] req dec
      by (simp add: begin_request_def lookup_follower [OF None Some] apply_lookup_def)
  qed
qed

section \<open>What a follower may receive\<close>

text \<open>
  The state of a response as its receiver sees it: headers, body so far, and whether it has
  ended.  \<open>absorb\<close> is the protocol of a response stream: headers first and once, then data,
  nothing after the end; anything else is refused.
\<close>

type_synonym 'h received = "'h option \<times> string \<times> bool"

fun absorb :: "'h received \<Rightarrow> 'h task \<Rightarrow> 'h received option" where
  "absorb (None, b, False) (FeedHeaders w h fin) = (if b = [] then Some (Some h, [], fin) else None)"
| "absorb (None, b, False) (Backfill w h b') = (if b = [] then Some (Some h, b', False) else None)"
| "absorb (Some h, b, False) (FeedData w d fin) = Some (Some h, b @ d, fin)"
| "absorb _ _ = None"

definition receive :: "'h task list \<Rightarrow> 'h received option" where
  "receive ts = foldl (\<lambda>r t. Option.bind r (\<lambda>x. absorb x t)) (Some (None, [], False)) ts"

lemma receive_Nil [simp]: "receive [] = Some (None, [], False)"
  by (simp add: receive_def)

lemma receive_snoc: "receive (ts @ [t]) = Option.bind (receive ts) (\<lambda>x. absorb x t)"
  by (simp add: receive_def)

lemma foldl_absorb_None: "foldl (\<lambda>r t. Option.bind r (\<lambda>x. absorb x t)) None ts = None"
  by (induction ts) simp_all

lemma absorb_ended [simp]: "absorb (x, b, True) t = None"
  by (cases x; cases t) simp_all

lemma receive_ended:
  assumes "receive ts = Some (x, b, True)" "receive (ts @ us) \<noteq> None"
  shows "us = []"
proof (cases us)
  case (Cons t us')
  have "receive (ts @ us) = foldl (\<lambda>r t. Option.bind r (\<lambda>x. absorb x t)) (receive ts) us"
    by (simp add: receive_def)
  also have "\<dots> = None" using assms(1) Cons by (simp add: foldl_absorb_None)
  finally show ?thesis using assms(2) by simp
qed simp

fun task_fin :: "'h task \<Rightarrow> bool" where
  "task_fin (FeedHeaders w h fin) = fin"
| "task_fin (FeedData w d fin) = fin"
| "task_fin (Backfill w h b) = False"

lemma absorb_fin: "absorb r t = Some (x, b, fin) \<Longrightarrow> fin = task_fin t"
  by (cases "(r, t)" rule: absorb.cases) (auto split: if_splits)

fun event_fin :: "'h event \<Rightarrow> bool" where
  "event_fin (EncodeHeaders h fin details) = fin"
| "event_fin (EncodeData d fin) = fin"

lemma task_events_fin: "(\<exists>ev \<in> set (task_events t). event_fin ev) \<longleftrightarrow> task_fin t"
  by (cases t) auto

lemma pass_events_follower:
  "frole f \<noteq> LeaderRole \<Longrightarrow>
     pass_events hs evs f c = Inr (if \<exists>ev \<in> set evs. event_fin ev then f\<lparr>fdone := True\<rparr> else f, c)"
proof (induction evs arbitrary: f)
  case Nil
  then show ?case by simp
next
  case (Cons ev evs)
  then show ?case by (cases ev) (auto simp: encodeHeaders_def encodeData_def)
qed

section \<open>The base invariant\<close>

definition leaders_ok :: "'h world \<Rightarrow> bool" where
  "leaders_ok W \<longleftrightarrow>
     (\<forall>s f. wfilters W s = Some f \<longrightarrow> frole f = LeaderRole \<longrightarrow> wphase W s \<noteq> Complete \<longrightarrow>
        wleader W (fkey f) = s \<and>
        (\<exists>i. inflight_map (wcache W) (fkey f) = Some i \<and> (iheaders i = None \<longleftrightarrow> wphase W s = AwaitHeaders) \<and>
          wsent W s = (iheaders i, ibody i)))"

definition streams_ok :: "'h world \<Rightarrow> bool" where
  "streams_ok W \<longleftrightarrow>
     (\<forall>s. wnext W \<le> s \<longrightarrow> wfilters W s = None) \<and>
     (\<forall>w wt. waiters (wcache W) w = Some wt \<longrightarrow> wcallbacks wt < wnext W) \<and>
     (\<forall>s p f. (s, p, f) \<in># wserving W \<longrightarrow> s < wnext W \<and> fdecoder f \<noteq> None) \<and>
     (\<forall>s p f w wt. (s, p, f) \<in># wserving W \<longrightarrow> waiters (wcache W) w = Some wt \<longrightarrow> wcallbacks wt \<noteq> s)"

definition followers_ok :: "'h world \<Rightarrow> bool" where
  "followers_ok W \<longleftrightarrow>
     (\<forall>w wt f. waiters (wcache W) w = Some wt \<longrightarrow> wfilters W (wcallbacks wt) = Some f \<longrightarrow>
        frole f = FollowerRole \<and> fwaiter f = Some w) \<and>
     (\<forall>s f. wfilters W s = Some f \<longrightarrow> frole f = FollowerRole \<longrightarrow>
        (\<exists>w wt. fwaiter f = Some w \<and> waiters (wcache W) w = Some wt \<and> wcallbacks wt = s))"

definition base_inv :: "('h \<Rightarrow> size_t) \<Rightarrow> 'h world \<Rightarrow> bool" where
  "base_inv hs W \<longleftrightarrow> cache_inv hs (wcache W) \<and> leaders_ok W \<and> streams_ok W \<and> followers_ok W"

lemma base_invD:
  assumes "base_inv hs W"
  shows "cache_inv hs (wcache W)" "leaders_ok W" "streams_ok W" "followers_ok W"
  using assms by (simp_all add: base_inv_def)

text \<open>The common effect of the two publishing callbacks of a leader.\<close>

definition publishes ::
    "('h \<Rightarrow> size_t) \<Rightarrow> key_t \<Rightarrow> bool \<Rightarrow> 'h cache \<Rightarrow> 'h cache \<Rightarrow> 'h task list \<Rightarrow> 'h option \<times> string \<Rightarrow> bool" where
  "publishes hs k fin c c' ts r \<longleftrightarrow>
     (\<exists>i i'. inflight_map c k = Some i \<and> iheaders i' \<noteq> None \<and> iwaiters i' = iwaiters i \<and>
        (\<forall>t \<in> set ts. absorb (iheaders i, ibody i, False) t = Some (iheaders i', ibody i', fin)) \<and>
        map task_waiter ts = iwaiters i \<and> r = (iheaders i', ibody i') \<and> cache_inv hs c' \<and>
        (if fin then finalized hs k i' c c' else c' = set_inflight k i' c))"

lemma leader_inflight:
  assumes "leaders_ok W" "wfilters W s = Some f" "frole f = LeaderRole" "wphase W s \<noteq> Complete"
  obtains i where "inflight_map (wcache W) (fkey f) = Some i" "iheaders i = None \<longleftrightarrow> wphase W s = AwaitHeaders"
    "wleader W (fkey f) = s" "wsent W s = (iheaders i, ibody i)"
  using assms unfolding leaders_ok_def by metis

lemma encodeHeaders_publishes:
  assumes inv: "base_inv hs W" and f: "wfilters W s = Some f" "frole f = LeaderRole" "wphase W s = AwaitHeaders"
    and fits: "response_bytes hs (fkey f) (Some h) [] < 2 ^ 64"
  obtains c' ts where
    "encodeHeaders hs h fin f (wcache W) = Inr (Continue, if fin then f\<lparr>fdone := True\<rparr> else f, c', ts)"
    "publishes hs (fkey f) fin (wcache W) c' ts (Some h, [])"
proof -
  obtain i where i: "inflight_map (wcache W) (fkey f) = Some i" and none: "iheaders i = None"
    using leader_inflight [OF base_invD(2) [OF inv] f(1,2)] f(3) by auto
  have empty: "ibody i = []"
    using cache_invD(3) [OF base_invD(1) [OF inv]] i none by (simp add: inflights_ok_def inflight_ok_def)
  obtain c1 where c1: "publishHeaders hs (fkey f) h fin (wcache W) =
      Inr (c1, map (\<lambda>w. FeedHeaders w h fin) (iwaiters i))" "cache_inv hs c1"
    "if fin then finalized hs (fkey f) (with_headers h i) (wcache W) c1
     else c1 = set_inflight (fkey f) (with_headers h i) (wcache W)"
    using publishHeaders_ok [OF base_invD(1) [OF inv] i, of h fin] fits none empty by auto
  have "publishes hs (fkey f) fin (wcache W) c1 (map (\<lambda>w. FeedHeaders w h fin) (iwaiters i)) (Some h, [])"
    unfolding publishes_def
    by (rule exI [of _ i], rule exI [of _ "with_headers h i"]) (use i none empty c1 in \<open>auto simp: comp_def\<close>)
  moreover have "encodeHeaders hs h fin f (wcache W) = Inr (Continue, if fin then f\<lparr>fdone := True\<rparr> else f, c1,
      map (\<lambda>w. FeedHeaders w h fin) (iwaiters i))"
    using c1(1) f(2) by (cases fin; simp add: encodeHeaders_def Let_def)
  ultimately show thesis by (rule that [rotated])
qed

lemma encodeData_publishes:
  assumes inv: "base_inv hs W" and f: "wfilters W s = Some f" "frole f = LeaderRole" "wphase W s = Streaming"
    and fits: "\<forall>i. inflight_map (wcache W) (fkey f) = Some i \<longrightarrow>
        response_bytes hs (fkey f) (iheaders i) (ibody i @ d) < 2 ^ 64"
  obtains c' ts where
    "encodeData hs d fin f (wcache W) = Inr (Continue, if fin then f\<lparr>fdone := True\<rparr> else f, c', ts)"
    "publishes hs (fkey f) fin (wcache W) c' ts (fst (wsent W s), snd (wsent W s) @ d)"
proof -
  obtain i where i: "inflight_map (wcache W) (fkey f) = Some i" and some: "iheaders i \<noteq> None"
    and sent: "wsent W s = (iheaders i, ibody i)"
    by (rule leader_inflight [OF base_invD(2) [OF inv] f(1,2)]) (use f(3) in simp_all)
  then obtain h where h: "iheaders i = Some h" by auto
  obtain c1 where c1: "publishData hs (fkey f) d fin (wcache W) =
      Inr (c1, map (\<lambda>w. FeedData w d fin) (iwaiters i))" "cache_inv hs c1"
    "if fin then finalized hs (fkey f) (with_data d i) (wcache W) c1
     else c1 = set_inflight (fkey f) (with_data d i) (wcache W)"
    using publishData_ok [OF base_invD(1) [OF inv] i some, of d fin] fits i by auto
  have "publishes hs (fkey f) fin (wcache W) c1 (map (\<lambda>w. FeedData w d fin) (iwaiters i))
      (fst (wsent W s), snd (wsent W s) @ d)"
    unfolding publishes_def
    by (rule exI [of _ i], rule exI [of _ "with_data d i"]) (use i h c1 sent in \<open>auto simp: comp_def\<close>)
  moreover have "encodeData hs d fin f (wcache W) = Inr (Continue, if fin then f\<lparr>fdone := True\<rparr> else f, c1,
      map (\<lambda>w. FeedData w d fin) (iwaiters i))"
    using c1(1) f(2) by (cases fin; simp add: encodeData_def Let_def)
  ultimately show thesis by (rule that [rotated])
qed

end
