(* ===== verification/Ring_System_Inv.thy ===== *)
theory Ring_System_Inv
  imports Ring_System
begin

text \<open>
  The effect of every step on the world, with the calls into the cache replaced by what they
  do, and the invariant that ties filters, waiters and inflight records together.
\<close>

section \<open>Effects\<close>

inductive effect :: "('h \<Rightarrow> size_t) \<Rightarrow> 'h world \<Rightarrow> 'h world \<Rightarrow> bool" for hs :: "'h \<Rightarrow> size_t" where
  skip:
    "frole f = Unset \<Longrightarrow>
     effect hs W (W\<lparr>wfilters := (wfilters W)(wnext W := Some f),
                    wphase := (wphase W)(wnext W := AwaitHeaders), wnext := Suc (wnext W)\<rparr>)"
| lead:
    "cache_map (wcache W) (fkey f) = None \<Longrightarrow> inflight_map (wcache W) (fkey f) = None \<Longrightarrow>
     frole f = LeaderRole \<Longrightarrow> length (fkey f) < 2 ^ 64 \<Longrightarrow>
     effect hs W (W\<lparr>wcache := set_inflight (fkey f) empty_inflight (wcache W),
                    wfilters := (wfilters W)(wnext W := Some f),
                    wphase := (wphase W)(wnext W := AwaitHeaders), wnext := Suc (wnext W),
                    wleader := (wleader W)(fkey f := wnext W),
                    wsent := (wsent W)(wnext W := (None, []))\<rparr>)"
| follow:
    "cache_map (wcache W) (fkey f) = None \<Longrightarrow> inflight_map (wcache W) (fkey f) = Some i \<Longrightarrow>
     frole f = FollowerRole \<Longrightarrow> fwaiter f = Some w \<Longrightarrow> w = next_waiter (wcache W) \<Longrightarrow> \<not> fdone f \<Longrightarrow>
     effect hs W (W\<lparr>wcache := attach_waiter (fkey f) i (Callbacks (wnext W) d) (wcache W),
                    wfilters := (wfilters W)(wnext W := Some f),
                    wphase := (wphase W)(wnext W := AwaitHeaders), wnext := Suc (wnext W),
                    wqueue := (wqueue W)(d := wqueue W d @ backfill_tasks w i),
                    wfeeder := (wfeeder W)(w := wleader W (fkey f))\<rparr>)"
| hit:
    "cache_map (wcache W) (fkey f) = Some p \<Longrightarrow> entries (wcache W) p = Some e \<Longrightarrow> fdecoder f \<noteq> None \<Longrightarrow>
     holders W p + 1 < 2 ^ 32 \<Longrightarrow>
     effect hs W (W\<lparr>wcache := set_pins p e (epins e + 1) (wcache W), wnext := Suc (wnext W),
                    wserving := add_mset (wnext W, p, f) (wserving W)\<rparr>)"
| served:
    "wserving W = add_mset (s, p, f) M \<Longrightarrow> entries (wcache W) p = Some e \<Longrightarrow> frole f' = Cached \<Longrightarrow>
     (c', fr) = (if ebody e = [] then (set_pins p e (epins e - 1) (wcache W), {#}) else (wcache W, {#p#})) \<Longrightarrow>
     effect hs W (W\<lparr>wcache := c', wserving := M, wfragments := wfragments W + fr,
                    wfilters := (wfilters W)(s := Some f'), wphase := (wphase W)(s := Complete)\<rparr>)"
| released:
    "wfragments W = add_mset p M \<Longrightarrow> entries (wcache W) p = Some e \<Longrightarrow>
     effect hs W (W\<lparr>wcache := set_pins p e (epins e - 1) (wcache W), wfragments := M\<rparr>)"
| publish:
    "wfilters W s = Some f \<Longrightarrow> frole f = LeaderRole \<Longrightarrow> wphase W s \<noteq> Complete \<Longrightarrow> wunposted W s = [] \<Longrightarrow>
     wleader W (fkey f) = s \<Longrightarrow>
     f' = (if fin then f\<lparr>fdone := True\<rparr> else f) \<Longrightarrow> publishes hs (fkey f) fin (wcache W) c' ts r \<Longrightarrow>
     effect hs W (W\<lparr>wcache := c', wfilters := (wfilters W)(s := Some f'),
                    wphase := (wphase W)(s := (if fin then Complete else Streaming)),
                    wunposted := (wunposted W)(s := ts),
                    wsent := (wsent W)(s := r), wfinal := mark_final fin ts r (wfinal W),
                    wcomplete := mark_complete fin (fkey f) r (wcomplete W)\<rparr>)"
| trailers:
    "wfilters W s = Some f \<Longrightarrow> frole f = LeaderRole \<Longrightarrow>
     effect hs W (W\<lparr>wphase := (wphase W)(s := Complete)\<rparr>)"
| replied:
    "wfilters W s = Some f \<Longrightarrow> frole f \<noteq> LeaderRole \<Longrightarrow> f' = (if fin then f\<lparr>fdone := True\<rparr> else f) \<Longrightarrow>
     effect hs W (W\<lparr>wfilters := (wfilters W)(s := Some f'), wreplied := insert s (wreplied W)\<rparr>)"
| posted:
    "wunposted W s = t # ts \<Longrightarrow> waiters (wcache W) (task_waiter t) = Some wt \<Longrightarrow>
     effect hs W (W\<lparr>wunposted := (wunposted W)(s := ts),
                    wqueue := (wqueue W)(wdispatcher wt := wqueue W (wdispatcher wt) @ [t])\<rparr>)"
| ran_live:
    "wqueue W d = t # ts \<Longrightarrow> waiters (wcache W) (task_waiter t) = Some wt \<Longrightarrow>
     evs = (if wcancelled wt then [] else task_events t) \<Longrightarrow> wfilters W (wcallbacks wt) = Some f \<Longrightarrow>
     frole f = FollowerRole \<Longrightarrow> fwaiter f = Some (task_waiter t) \<Longrightarrow>
     f' = (if \<not> wcancelled wt \<and> task_fin t then f\<lparr>fdone := True\<rparr> else f) \<Longrightarrow>
     effect hs W (W\<lparr>wqueue := (wqueue W)(d := ts),
                    wran := (wran W)(task_waiter t := wran W (task_waiter t) @ [t]),
                    wevents := (wevents W)(task_waiter t := wevents W (task_waiter t) @ evs),
                    wfilters := (wfilters W)(wcallbacks wt := Some f')\<rparr>)"
| ran_dead:
    "wqueue W d = t # ts \<Longrightarrow> waiters (wcache W) (task_waiter t) = Some wt \<Longrightarrow> wcancelled wt \<Longrightarrow>
     wfilters W (wcallbacks wt) = None \<Longrightarrow>
     effect hs W (W\<lparr>wqueue := (wqueue W)(d := ts),
                    wran := (wran W)(task_waiter t := wran W (task_waiter t) @ [t])\<rparr>)"
| destroyed:
    "wfilters W s = Some f \<Longrightarrow> wunposted W s = [] \<Longrightarrow> \<not> (frole f = FollowerRole \<and> \<not> fdone f) \<Longrightarrow>
     effect hs W (W\<lparr>wfilters := (wfilters W)(s := None)\<rparr>)"
| cancelled:
    "wfilters W s = Some f \<Longrightarrow> frole f = FollowerRole \<Longrightarrow> fwaiter f = Some w \<Longrightarrow>
     waiters (wcache W) w = Some wt \<Longrightarrow>
     effect hs W (W\<lparr>wcache := (wcache W)\<lparr>waiters := (waiters (wcache W))(w := Some (wt\<lparr>wcancelled := True\<rparr>))\<rparr>,
                    wfilters := (wfilters W)(s := None)\<rparr>)"
| removed:
    "inflight_map (wcache W) k = Some i \<Longrightarrow> mset (iwaiters i) = add_mset w (mset ws) \<Longrightarrow>
     waiters (wcache W) w = Some wt \<Longrightarrow> wcancelled wt \<Longrightarrow>
     effect hs W (W\<lparr>wcache := set_inflight k (i\<lparr>iwaiters := ws\<rparr>) (wcache W)\<rparr>)"
| idle: "effect hs W W"

lemma task_events_nonempty [simp]: "task_events t \<noteq> []"
  by (cases t) simp_all

lemma finish_hit_effect:
  assumes "finish_hit p f c = Inr (f', c', fr, evs)"
  obtains e h where "entries c p = Some e" "eheaders e = Some h" "frole f' = Cached"
    "(c', fr) = (if ebody e = [] then (set_pins p e (epins e - 1) c, None) else (c, Some p))"
  using assms
  by (fastforce simp: finish_hit_def serve_hit_def unpin_def apply_lookup_def set_pins_def deref_def Let_def
      split: if_splits option.splits)

lemma request_effect:
  assumes inv: "base_inv hs W" and f: "f = new_filter (wnext W) d host path" "host \<noteq> []" "path \<noteq> []"
    and req: "begin_request f (wcache W) = Inr (Finished st f' evs, c', ts)"
  shows "(frole f' = LeaderRole \<and> cache_map (wcache W) (fkey f) = None \<and> inflight_map (wcache W) (fkey f) = None \<and>
            c' = set_inflight (fkey f) empty_inflight (wcache W) \<and> fkey f' = fkey f) \<or>
         (\<exists>i. frole f' = FollowerRole \<and> cache_map (wcache W) (fkey f) = None \<and> inflight_map (wcache W) (fkey f) = Some i \<and>
            fwaiter f' = Some (next_waiter (wcache W)) \<and> \<not> fdone f' \<and> fkey f' = fkey f \<and>
            c' = attach_waiter (fkey f) i (Callbacks (wnext W) d) (wcache W) \<and>
            ts = backfill_tasks (next_waiter (wcache W)) i)"
proof -
  note nf = new_filter_simps [OF f(2,3), of "wnext W" d, folded f(1)]
  show ?thesis
    by (rule begin_request_cases [OF base_invD(1) [OF inv] nf(2) req]) (auto simp: set_inflight_def nf(3,4))
qed

lemma step_effect:
  assumes inv: "base_inv hs W" and step: "step hs W W'"
  shows "effect hs W W'"
  using step
proof cases
  case (request_skip host path d st f' c' ts evs)
  then have "c' = wcache W" "f' = new_filter (wnext W) d host path"
    by (auto simp: decodeHeaders_def buildKey_def Let_def split: if_splits)
  moreover from request_skip this have "frole f' = Unset"
    by (auto simp: new_filter_def buildKey_def setDecoderFilterCallbacks_def RingCacheFilter_def)
  ultimately show ?thesis using effect.skip [of f' hs W] request_skip by (simp add: world.defs)
next
  case (request_leader host path f d st f' evs c' ts)
  from request_effect [OF inv request_leader(4,2,3,6)] request_leader(7)
  have "cache_map (wcache W) (fkey f) = None" "inflight_map (wcache W) (fkey f) = None"
    "c' = set_inflight (fkey f) empty_inflight (wcache W)" "fkey f' = fkey f" by auto
  then show ?thesis using effect.lead [of W f' hs] request_leader by simp
next
  case (request_follower host path f d st f' evs c' ts w)
  from request_effect [OF inv request_follower(4,2,3,5)] request_follower(6)
  obtain i where "cache_map (wcache W) (fkey f) = None" "inflight_map (wcache W) (fkey f) = Some i"
    "fwaiter f' = Some (next_waiter (wcache W))" "\<not> fdone f'" "fkey f' = fkey f"
    "c' = attach_waiter (fkey f) i (Callbacks (wnext W) d) (wcache W)"
    "ts = backfill_tasks (next_waiter (wcache W)) i" by auto
  then show ?thesis using effect.follow [of W f' i w hs d] request_follower by simp
next
  case (request_hit host path f d p f' c' ts)
  note nf = new_filter_simps [OF request_hit(2,3), of "wnext W" d, folded request_hit(4)]
  obtain e where "cache_map (wcache W) (fkey f) = Some p" "entries (wcache W) p = Some e" "f' = f"
    "c' = set_pins p e (epins e + 1) (wcache W)"
    by (rule begin_request_cases [OF base_invD(1) [OF inv] nf(2) request_hit(5)]) simp_all
  then show ?thesis using effect.hit [of W f p e hs] request_hit nf(2) by simp
next
  case (serve s p f M f' c' fr evs)
  obtain e where e: "entries (wcache W) p = Some e" "frole f' = Cached"
    "(c', fr) = (if ebody e = [] then (set_pins p e (epins e - 1) (wcache W), None) else (wcache W, Some p))"
    by (rule finish_hit_effect [OF serve(3)])
  from e(3) have fr: "(case fr of None \<Rightarrow> wfragments W | Some q \<Rightarrow> add_mset q (wfragments W)) =
      wfragments W + (if ebody e = [] then {#} else {#p#})"
    "c' = (if ebody e = [] then set_pins p e (epins e - 1) (wcache W) else wcache W)"
    by (auto split: if_splits)
  show ?thesis
    unfolding serve(1) fr(1)
    by (rule effect.served [OF serve(2) e(1,2)]) (simp add: fr(2))
next
  case (release p M c')
  then obtain e where "entries (wcache W) p = Some e" "c' = set_pins p e (epins e - 1) (wcache W)"
    by (auto simp: release_fragment_def unpin_def set_pins_def deref_def split: option.splits)
  then show ?thesis using effect.released [of W p M e hs] release by simp
next
  case (upstream_headers s f h fin st f' c' ts r)
  obtain c1 ts1 where "encodeHeaders hs h fin f (wcache W) = Inr (Continue, if fin then f\<lparr>fdone := True\<rparr> else f, c1, ts1)"
    "publishes hs (fkey f) fin (wcache W) c1 ts1 (Some h, [])"
    by (rule encodeHeaders_publishes [OF inv upstream_headers(2,3,4,6)])
  moreover have "wleader W (fkey f) = s"
    by (rule leader_inflight [OF base_invD(2) [OF inv] upstream_headers(2,3)]) (simp_all add: upstream_headers(4))
  ultimately show ?thesis
    using effect.publish [OF upstream_headers(2,3) _ upstream_headers(5)] upstream_headers by simp
next
  case (upstream_data s f d fin st f' c' ts r)
  obtain c1 ts1 where "encodeData hs d fin f (wcache W) = Inr (Continue, if fin then f\<lparr>fdone := True\<rparr> else f, c1, ts1)"
    "publishes hs (fkey f) fin (wcache W) c1 ts1 (fst (wsent W s), snd (wsent W s) @ d)"
    by (rule encodeData_publishes [OF inv upstream_data(2,3,4,6)])
  moreover have "wleader W (fkey f) = s"
    by (rule leader_inflight [OF base_invD(2) [OF inv] upstream_data(2,3)]) (simp_all add: upstream_data(4))
  ultimately show ?thesis
    using effect.publish [OF upstream_data(2,3) _ upstream_data(5)] upstream_data by simp
next
  case (upstream_trailers s f st f' c')
  then have "c' = wcache W" "f' = f" by (simp_all add: encodeTrailers_def)
  then show ?thesis
    using effect.trailers [OF upstream_trailers(2,3)] upstream_trailers by (simp add: fun_upd_idem)
next
  case (other_headers s f h fin st f' c' ts)
  then have "c' = wcache W" "f' = (if fin then f\<lparr>fdone := True\<rparr> else f)" "ts = []"
    by (auto simp: encodeHeaders_def Let_def split: if_splits)
  then show ?thesis
    using effect.replied [OF other_headers(2,3), of f' fin hs] other_headers(1) by (simp add: fun_upd_idem)
next
  case (other_data s f d fin st f' c' ts)
  then have "c' = wcache W" "f' = (if fin then f\<lparr>fdone := True\<rparr> else f)" "ts = []"
    by (auto simp: encodeData_def Let_def split: if_splits)
  then show ?thesis
    using effect.replied [OF other_data(2,3), of f' fin hs] other_data(1) by (simp add: fun_upd_idem)
next
  case (post s t ts wt)
  then show ?thesis using effect.posted [of W s t ts wt hs] by simp
next
  case (run_live d t ts evs wt f f' c')
  have f: "frole f = FollowerRole" "fwaiter f = Some (task_waiter t)"
    using base_invD(4) [OF inv] run_live unfolding followers_ok_def by blast+
  have evs: "evs = (if wcancelled wt then [] else task_events t)"
    using run_live by (simp add: run_task_events)
  have "c' = wcache W" "f' = (if \<not> wcancelled wt \<and> task_fin t then f\<lparr>fdone := True\<rparr> else f)"
    using run_live(6) f(1) task_events_fin [of t] by (auto simp: pass_events_follower evs split: if_splits)
  then show ?thesis using effect.ran_live [of W d t ts wt evs f f' hs] run_live f evs by simp
next
  case (run_dead d t ts wt)
  then have "wcancelled wt" by (simp add: run_task_events split: if_splits)
  then show ?thesis using effect.ran_dead [of W d t ts wt hs] run_dead by simp
next
  case (destroy s f c')
  then have "c' = wcache W" by (auto simp: onDestroy_def)
  then show ?thesis using effect.destroyed [of W s f hs] destroy by simp
next
  case (destroy_follower s f w c')
  then obtain wt where "waiters (wcache W) w = Some wt"
    "c' = (wcache W)\<lparr>waiters := (waiters (wcache W))(w := Some (wt\<lparr>wcancelled := True\<rparr>))\<rparr>"
    by (auto simp: cancel_waiter_def deref_def split: option.splits)
  then show ?thesis using effect.cancelled [of W s f w wt hs] destroy_follower by simp
next
  case (remove_waiter w wt k)
  show ?thesis
  proof (cases "inflight_map (wcache W) k")
    case None
    then show ?thesis using effect.idle [of hs W] remove_waiter(1) by (simp add: removeWaiter_def)
  next
    case (Some i)
    then show ?thesis
    proof (cases rule: removeWaiter_cases [where w = w])
      case (found ws)
      then show ?thesis using effect.removed [OF Some found(2)] remove_waiter by simp
    next
      case absent
      then show ?thesis using effect.idle [of hs W] remove_waiter(1) by simp
    qed
  qed
qed


section \<open>The base invariant is inductive\<close>

lemma publishesD:
  assumes "publishes hs k fin c c' ts r"
  obtains i i' where "inflight_map c k = Some i" "iheaders i' \<noteq> None" "iwaiters i' = iwaiters i"
    "\<forall>t \<in> set ts. absorb (iheaders i, ibody i, False) t = Some (iheaders i', ibody i', fin)"
    "map task_waiter ts = iwaiters i" "r = (iheaders i', ibody i')" "cache_inv hs c'"
    "if fin then finalized hs k i' c c' else c' = set_inflight k i' c"
  using assms unfolding publishes_def by blast

lemma publishes_frame:
  assumes "publishes hs k fin c c' ts r"
  shows "waiters c' = waiters c" "next_waiter c' = next_waiter c" "k' \<noteq> k \<Longrightarrow> inflight_map c' k' = inflight_map c k'"
    "capacity c' = capacity c" "slot_count c' = slot_count c"
  using assms by (auto simp: publishes_def finalized_def set_inflight_def split: if_splits)

lemma effect_cache_inv:
  assumes "base_inv hs W" "effect hs W W'"
  shows "cache_inv hs (wcache W')"
  using assms(2)
proof cases
  case (lead f)
  then show ?thesis
    using cache_inv_leader [OF base_invD(1) [OF assms(1)] lead(2,3,5)] by (simp add: set_inflight_def)
next
  case (follow f i w d)
  then show ?thesis using cache_inv_attach [OF base_invD(1) [OF assms(1)]] by simp
next
  case (served s p f M e f' c' fr)
  then show ?thesis
    using cache_inv_set_pins [OF base_invD(1) [OF assms(1)]] base_invD(1) [OF assms(1)]
    by (simp split: if_splits)
next
  case (publish s f f' fin c' ts r)
  then show ?thesis by (auto simp: publishes_def)
next
  case (removed k i w ws)
  have "set ws \<subseteq> set (iwaiters i)"
    using removed(3) by (metis set_mset_mset set_mset_add_mset_insert subset_insertI)
  moreover have "distinct ws"
    using removed(3) inflight_distinct [OF base_invD(1) [OF assms(1)] removed(2)]
    by (metis distinct.simps(2) mset.simps(2) mset_eq_imp_distinct_iff)
  moreover have "inflight_ok hs k (i\<lparr>iwaiters := ws\<rparr>)"
    using cache_invD(3) [OF base_invD(1) [OF assms(1)]] removed(2) by (simp add: inflights_ok_def inflight_ok_def)
  ultimately show ?thesis
    unfolding removed(1) set_inflight_def using removed(2)
    by (simp add: cache_inv_inflight [OF base_invD(1) [OF assms(1)]])
qed (use base_invD(1) [OF assms(1)] in \<open>simp_all add: cache_inv_set_pins cancel_waiter_ok(2)\<close>)

lemma effect_streams_ok:
  assumes "base_inv hs W" "effect hs W W'"
  shows "streams_ok W'"
proof -
  have fresh: "\<And>s. wnext W \<le> s \<Longrightarrow> wfilters W s = None"
    and cbs: "\<And>w wt. waiters (wcache W) w = Some wt \<Longrightarrow> wcallbacks wt < wnext W"
    and srv: "\<And>s p f. (s, p, f) \<in># wserving W \<Longrightarrow> s < wnext W \<and> fdecoder f \<noteq> None"
    and sep: "\<And>s p f w wt. (s, p, f) \<in># wserving W \<Longrightarrow> waiters (wcache W) w = Some wt \<Longrightarrow> wcallbacks wt \<noteq> s"
    using base_invD(3) [OF assms(1)] unfolding streams_ok_def by blast+
  have known: "wfilters W s = Some f \<Longrightarrow> s < wnext W" for s f
    using fresh [of s] by (cases "wnext W \<le> s") auto
  show ?thesis
    using assms(2)
  proof cases
    case (publish s f f' fin c' ts r)
    then show ?thesis
      using fresh cbs srv sep known publishes_frame(1) [OF publish(8)] by (auto simp: streams_ok_def)
  next
    case (follow f i w d)
    then show ?thesis
      using fresh srv by (auto simp: streams_ok_def attach_waiter_def split: if_splits dest: cbs sep intro: less_SucI)
  next
    case (served s p f M e f' c' fr)
    have "waiters c' = waiters (wcache W)" using served(5) by (auto split: if_splits)
    moreover have "s < wnext W" using srv [of s p f] served(2) by simp
    moreover have "x \<in># wserving W" if "x \<in># M" for x using served(2) that by simp
    ultimately show ?thesis
      using fresh cbs served(1) srv sep unfolding streams_ok_def by (simp; blast)
  qed (use fresh cbs srv sep known in \<open>auto simp: streams_ok_def set_inflight_def split: if_splits dest: cbs sep intro: less_SucI\<close>)
qed


lemma leaders_okI:
  assumes "\<And>s f. wfilters W s = Some f \<Longrightarrow> frole f = LeaderRole \<Longrightarrow> wphase W s \<noteq> Complete \<Longrightarrow>
     wleader W (fkey f) = s \<and>
     (\<exists>i. inflight_map (wcache W) (fkey f) = Some i \<and> (iheaders i = None \<longleftrightarrow> wphase W s = AwaitHeaders) \<and>
        wsent W s = (iheaders i, ibody i))"
  shows "leaders_ok W"
  using assms unfolding leaders_ok_def by blast

lemma effect_leaders_ok:
  assumes "base_inv hs W" "effect hs W W'"
  shows "leaders_ok W'"
proof -
  have leader: "wleader W (fkey f) = s \<and>
      (\<exists>i. inflight_map (wcache W) (fkey f) = Some i \<and> (iheaders i = None \<longleftrightarrow> wphase W s = AwaitHeaders) \<and>
         wsent W s = (iheaders i, ibody i))"
    if "wfilters W s = Some f" "frole f = LeaderRole" "wphase W s \<noteq> Complete" for s f
    using base_invD(2) [OF assms(1)] that unfolding leaders_ok_def by blast
  have fresh: "wfilters W (wnext W) = None"
    using base_invD(3) [OF assms(1)] unfolding streams_ok_def by simp
  show ?thesis
    using assms(2)
  proof cases
    case (lead f)
    show ?thesis
      unfolding lead(1)
      by (rule leaders_okI)
        (use fresh lead in \<open>auto simp: set_inflight_def empty_inflight_def split: if_splits dest: leader\<close>)
  next
    case (follow f i w d)
    show ?thesis
      unfolding follow(1)
      by (rule leaders_okI)
        (use leader fresh follow in \<open>fastforce simp: attach_waiter_def split: if_splits\<close>)
  next
    case (served s p f M e f' c' fr)
    have "inflight_map c' = inflight_map (wcache W)" using served(5) by (auto split: if_splits)
    then show ?thesis
      unfolding served(1) by (intro leaders_okI) (use leader served in \<open>auto split: if_splits\<close>)
  next
    case (publish s f f' fin c' ts r)
    obtain i i' where i: "inflight_map (wcache W) (fkey f) = Some i" "iheaders i' \<noteq> None"
      "r = (iheaders i', ibody i')" "if fin then finalized hs (fkey f) i' (wcache W) c' else c' = set_inflight (fkey f) i' (wcache W)"
      by (rule publishesD [OF publish(8)])
    show ?thesis
      unfolding publish(1)
    proof (rule leaders_okI)
      let ?W = "W\<lparr>wcache := c', wfilters := (wfilters W)(s := Some f'),
          wphase := (wphase W)(s := (if fin then Complete else Streaming)), wunposted := (wunposted W)(s := ts),
          wsent := (wsent W)(s := r), wfinal := mark_final fin ts r (wfinal W),
          wcomplete := mark_complete fin (fkey f) r (wcomplete W)\<rparr>"
      fix t g assume g: "wfilters ?W t = Some g" "frole g = LeaderRole" "wphase ?W t \<noteq> Complete"
      show "wleader ?W (fkey g) = t \<and> (\<exists>j. inflight_map (wcache ?W) (fkey g) = Some j \<and>
          (iheaders j = None \<longleftrightarrow> wphase ?W t = AwaitHeaders) \<and> wsent ?W t = (iheaders j, ibody j))"
      proof (cases "t = s")
        case True
        then show ?thesis using g publish(6,7) i by (auto simp: set_inflight_def split: if_splits)
      next
        case False
        then have "wfilters W t = Some g" "wphase W t \<noteq> Complete" using g(1,3) by simp_all
        note l = leader [OF this(1) g(2) this(2)]
        then have "fkey g \<noteq> fkey f" using publish(6) False by auto
        from publishes_frame(3) [OF publish(8) this] show ?thesis using l False by simp
      qed
    qed
  next
    case (removed k i w ws)
    show ?thesis
      unfolding removed(1)
      by (rule leaders_okI)
        (use leader removed in \<open>fastforce simp: set_inflight_def split: if_splits\<close>)
  next
    case (ran_live d t ts wt evs f f')
    then show ?thesis
      by (intro leaders_okI) (use leader in \<open>auto split: if_splits\<close>)
  next
    case (replied s f f' fin)
    then show ?thesis
      by (intro leaders_okI) (use leader in \<open>auto split: if_splits\<close>)
  qed (use leader fresh in \<open>auto intro!: leaders_okI split: if_splits\<close>)
qed

lemma followersD:
  assumes "followers_ok W"
  shows "waiters (wcache W) w = Some wt \<Longrightarrow> wfilters W (wcallbacks wt) = Some f \<Longrightarrow> frole f = FollowerRole \<and> fwaiter f = Some w"
    and "wfilters W s = Some f \<Longrightarrow> frole f = FollowerRole \<Longrightarrow>
      \<exists>w wt. fwaiter f = Some w \<and> waiters (wcache W) w = Some wt \<and> wcallbacks wt = s"
  using assms unfolding followers_ok_def by blast+

lemma followers_okI:
  assumes "\<And>w wt f. waiters (wcache W) w = Some wt \<Longrightarrow> wfilters W (wcallbacks wt) = Some f \<Longrightarrow>
      frole f = FollowerRole \<and> fwaiter f = Some w"
    and "\<And>s f. wfilters W s = Some f \<Longrightarrow> frole f = FollowerRole \<Longrightarrow>
      \<exists>w wt. fwaiter f = Some w \<and> waiters (wcache W) w = Some wt \<and> wcallbacks wt = s"
  shows "followers_ok W"
  using assms unfolding followers_ok_def by blast

text \<open>Adding a filter that is no follower, for a stream no waiter refers to, or removing one.\<close>

lemma followers_ok_add:
  assumes "followers_ok W" "frole f \<noteq> FollowerRole" "\<forall>w wt. waiters (wcache W) w = Some wt \<longrightarrow> wcallbacks wt \<noteq> s"
    and "wfilters W' = (wfilters W)(s := Some f)" "waiters (wcache W') = waiters (wcache W)"
  shows "followers_ok W'"
  using followersD [OF assms(1)] assms(2-5) by (intro followers_okI) (auto split: if_splits)

lemma followers_ok_replace:
  assumes "followers_ok W" "wfilters W s = Some f" "frole f' = frole f" "fwaiter f' = fwaiter f"
    and "wfilters W' = (wfilters W)(s := Some f')" "waiters (wcache W') = waiters (wcache W)"
  shows "followers_ok W'"
  using followersD [OF assms(1)] assms(2-6) by (intro followers_okI) (fastforce split: if_splits)+

lemma effect_followers_ok:
  assumes "base_inv hs W" "effect hs W W'"
  shows "followers_ok W'"
proof -
  note ok = base_invD(4) [OF assms(1)]
  note fol = followersD [OF ok]
  have cbs: "\<And>w wt. waiters (wcache W) w = Some wt \<Longrightarrow> wcallbacks wt < wnext W"
    and sep: "\<And>s p f w wt. (s, p, f) \<in># wserving W \<Longrightarrow> waiters (wcache W) w = Some wt \<Longrightarrow> wcallbacks wt \<noteq> s"
    using base_invD(3) [OF assms(1)] unfolding streams_ok_def by blast+
  have new: "\<forall>w wt. waiters (wcache W) w = Some wt \<longrightarrow> wcallbacks wt \<noteq> wnext W"
    using cbs by (metis less_irrefl)
  have fresh: "waiters (wcache W) (next_waiter (wcache W)) = None"
    using cache_invD(4) [OF base_invD(1) [OF assms(1)]] unfolding waiters_ok_def by blast
  show ?thesis
    using assms(2)
  proof cases
    case (skip f)
    then show ?thesis by (intro followers_ok_add [OF ok _ new, of f]) simp_all
  next
    case (lead f)
    then show ?thesis by (intro followers_ok_add [OF ok _ new, of f]) (simp_all add: set_inflight_def)
  next
    case (follow f i w d)
    show ?thesis
      unfolding follow(1)
    proof (rule followers_okI, goal_cases)
      case (1 v vt g)
      then show ?case using fol(1) [of v vt g] new follow(4-6) by (auto simp: attach_waiter_def split: if_splits)
    next
      case (2 t g)
      show ?case
      proof (cases "t = wnext W")
        case True
        then show ?thesis using 2 follow(5,6) by (simp add: attach_waiter_def)
      next
        case False
        then obtain v vt where v: "fwaiter g = Some v" "waiters (wcache W) v = Some vt" "wcallbacks vt = t"
          using fol(2) [of t g] 2 by auto
        then have "v \<noteq> w" using fresh follow(6) by auto
        then show ?thesis using v follow(6) by (simp add: attach_waiter_def)
      qed
    qed
  next
    case (hit f p e)
    then show ?thesis using fol by (intro followers_okI) auto
  next
    case (served s p f M e f' c' fr)
    have "waiters c' = waiters (wcache W)" using served(5) by (auto split: if_splits)
    moreover have "wcallbacks wt \<noteq> s" if "waiters (wcache W) w = Some wt" for w wt
      using sep [of s p f] served(2) that by simp
    ultimately show ?thesis
      using served(1,4) by (intro followers_ok_add [OF ok, of f' s]) simp_all
  next
    case (publish s f f' fin c' ts r)
    then show ?thesis
      using publishes_frame(1) [OF publish(8)] by (intro followers_ok_replace [OF ok publish(2), of f']) simp_all
  next
    case (ran_live d t ts wt evs f f')
    then show ?thesis by (intro followers_ok_replace [OF ok ran_live(5), of f']) simp_all
  next
    case (replied s f f' fin)
    then show ?thesis by (intro followers_ok_replace [OF ok replied(2), of f']) simp_all
  next
    case (destroyed s f)
    then show ?thesis using fol by (intro followers_okI) (auto split: if_splits)
  next
    case (cancelled s f w wt)
    show ?thesis
      unfolding cancelled(1)
    proof (rule followers_okI, goal_cases)
      case (1 v vt g)
      then show ?case using fol(1) [of v] fol(1) [of w wt g] cancelled(5) by (auto split: if_splits)
    next
      case (2 t g)
      then obtain v vt where "fwaiter g = Some v" "waiters (wcache W) v = Some vt" "wcallbacks vt = t"
        using fol(2) [of t g] by (auto split: if_splits)
      then show ?case using cancelled(5) by (cases "v = w") auto
    qed
  next
    case (removed k i w ws wt)
    then show ?thesis using fol by (intro followers_okI) (auto simp: set_inflight_def)
  qed (use fol in \<open>auto intro!: followers_okI\<close>)
qed

lemma base_inv_step:
  assumes "base_inv hs W" "step hs W W'"
  shows "base_inv hs W'"
  using effect_cache_inv effect_leaders_ok effect_streams_ok effect_followers_ok
    step_effect [OF assms] assms(1) by (metis base_inv_def)

lemma base_inv_init: "init_world W \<Longrightarrow> base_inv hs W"
  by (auto simp: init_world_def base_inv_def cache_inv_init leaders_ok_def streams_ok_def followers_ok_def)
    (simp_all add: RingBufferCache_def)

interpretation base: inductive_invariant init_world "step hs" "base_inv hs" for hs :: "'h \<Rightarrow> size_t"
  by unfold_locales (rule base_inv_init base_inv_step; assumption)+

abbreviation reachable :: "('h \<Rightarrow> size_t) \<Rightarrow> 'h world \<Rightarrow> bool" where
  "reachable hs \<equiv> reach init_world (step hs)"

end
