(* ===== verification/Ring_Hits.thy ===== *)
theory Ring_Hits
  imports Ring_System_Inv
begin

text \<open>
  Pins and cached responses in every reachable world: the pin counter of an entry is the
  number of its holders, so an entry in use is never freed, and what an entry holds is a
  response the upstream completed for its key.
\<close>

section \<open>Pins count holders\<close>

definition pins_of :: "'h cache \<Rightarrow> entry_ptr \<Rightarrow> nat" where
  "pins_of c p = (case entries c p of None \<Rightarrow> 0 | Some e \<Rightarrow> unat (epins e))"

definition pins_ok :: "'h world \<Rightarrow> bool" where
  "pins_ok W \<longleftrightarrow> (\<forall>p. pins_of (wcache W) p = holders W p)"

lemma pins_of_set_pins:
  "pins_of (set_pins p e n c) q = (if q = p then unat n else pins_of c q)"
  by (simp add: pins_of_def)

lemma pins_of_entry_step:
  assumes "entry_step c c'" "owns_entries c"
  shows "pins_of c' p = pins_of c p"
proof (cases "entries c p")
  case None
  then show ?thesis
    using assms(1) unfolding entry_step_def pins_of_def by (fastforce split: option.splits)
next
  case (Some e)
  then have "p < next_entry c" using assms(2) unfolding owns_entries_def by blast
  then have "entries c' p = Some e' \<Longrightarrow> e' = e" for e'
    using assms(1) Some unfolding entry_step_def by (metis not_le option.inject)
  note same = this
  show ?thesis
  proof (cases "epins e = 0")
    case True
    then show ?thesis using Some same by (auto simp: pins_of_def split: option.splits)
  next
    case False
    then have "entries c' p = Some e" using assms(1) Some unfolding entry_step_def by blast
    then show ?thesis using Some by (simp add: pins_of_def)
  qed
qed

lemma pins_of_same_entries: "entries c' = entries c \<Longrightarrow> pins_of c' = pins_of c"
  by (rule ext) (simp add: pins_of_def)

lemma publishes_entry_step:
  assumes "publishes hs k fin c c' ts r"
  shows "entry_step c c'"
  using assms by (auto simp: publishes_def finalized_def set_inflight_def entry_step_refl entry_step_same_entries split: if_splits)

lemma unat_dec: "0 < unat (n :: uint32) \<Longrightarrow> unat (n - 1) = unat n - 1"
  by (metis unat_minus_one unat_gt_0)

lemma unat_inc: "unat (n :: uint32) + 1 < 2 ^ 32 \<Longrightarrow> unat (n + 1) = unat n + 1"
  by (simp add: unat_word_ariths)

lemma serving_holder: "(s, p, f) \<in># wserving W \<Longrightarrow> 0 < holders W p"
  by (force simp: holders_def)

lemma fragment_holder: "p \<in># wfragments W \<Longrightarrow> 0 < holders W p"
  by (simp add: holders_def)

lemma held_entry:
  assumes "pins_ok W" "0 < holders W p"
  obtains e where "entries (wcache W) p = Some e" "unat (epins e) = holders W p" "epins e \<noteq> 0"
proof -
  have "pins_of (wcache W) p = holders W p" using assms(1) by (simp add: pins_ok_def)
  then obtain e where "entries (wcache W) p = Some e" "unat (epins e) = holders W p"
    using assms(2) by (cases "entries (wcache W) p") (simp_all add: pins_of_def)
  moreover from this assms(2) have "epins e \<noteq> 0" by (metis unat_0 less_irrefl)
  ultimately show thesis by (rule that)
qed

lemma effect_pins_ok:
  assumes inv: "base_inv hs W" and pins: "pins_ok W" and eff: "effect hs W W'"
  shows "pins_ok W'"
proof -
  have pin: "pins_of (wcache W) p = holders W p" for p using pins by (simp add: pins_ok_def)
  have held: "unat (epins e) = holders W p" if "entries (wcache W) p = Some e" for p e
    using pin [of p] that by (simp add: pins_of_def)
  show ?thesis
    using eff
  proof cases
    case (hit f p e)
    then show ?thesis
      using pin held [OF hit(3)] unat_inc [of "epins e"] by (auto simp: pins_ok_def pins_of_set_pins holders_def)
  next
    case (served s p f M e f' c' fr)
    have "0 < holders W p" using served(2) by (simp add: holders_def)
    then have "unat (epins e - 1) = holders W p - 1" using unat_dec [of "epins e"] held [OF served(3)] by simp
    then show ?thesis
      using pin served(1,2,5) by (auto simp: pins_ok_def pins_of_set_pins holders_def split: if_splits)
  next
    case (released p M e)
    have "0 < holders W p" using released(2) by (simp add: holders_def)
    then have "unat (epins e - 1) = holders W p - 1" using unat_dec [of "epins e"] held [OF released(3)] by simp
    then show ?thesis
      using pin released(1,2) by (auto simp: pins_ok_def pins_of_set_pins holders_def)
  next
    case (publish s f f' fin c' ts r)
    have "pins_of c' p = pins_of (wcache W) p" for p
      by (rule pins_of_entry_step [OF publishes_entry_step [OF publish(8)] cache_invD(6) [OF base_invD(1) [OF inv]]])
    then show ?thesis using pin publish(1) by (simp add: pins_ok_def holders_def)
  qed (use pin in \<open>simp_all add: pins_ok_def holders_def pins_of_def set_inflight_def attach_waiter_def\<close>)
qed

section \<open>Entries hold completed responses\<close>

definition entries_ok :: "'h world \<Rightarrow> bool" where
  "entries_ok W \<longleftrightarrow>
     (\<forall>p e. entries (wcache W) p = Some e \<longrightarrow>
        eheaders e \<noteq> None \<and> (eheaders e, ebody e) \<in> set (wcomplete W (ekey e))) \<and>
     (\<forall>s p f. (s, p, f) \<in># wserving W \<longrightarrow> (\<exists>e. entries (wcache W) p = Some e \<and> ekey e = fkey f))"


lemma entries_okD:
  assumes "entries_ok W"
  shows "entries (wcache W) p = Some e \<Longrightarrow> (eheaders e, ebody e) \<in> set (wcomplete W (ekey e))"
    "entries (wcache W) p = Some e \<Longrightarrow> eheaders e \<noteq> None"
    "(s, p, f) \<in># wserving W \<Longrightarrow> \<exists>e. entries (wcache W) p = Some e \<and> ekey e = fkey f"
  using assms unfolding entries_ok_def by blast+

text \<open>Worlds whose cached entries and hits in progress are the same up to pins.\<close>

lemma entries_ok_pins:
  assumes "entries_ok W" "entries (wcache W) p = Some e"
    and "entries (wcache W') = (entries (wcache W))(p := Some (e\<lparr>epins := n\<rparr>))" "wcomplete W' = wcomplete W"
    and "\<forall>s q f. (s, q, f) \<in># wserving W' \<longrightarrow> (s, q, f) \<in># wserving W \<or> (q = p \<and> ekey e = fkey f)"
  shows "entries_ok W'"
proof -
  have "\<exists>e'. entries (wcache W') q = Some e' \<and> ekey e' = fkey f" if "(s, q, f) \<in># wserving W'" for s q f
    using assms(5) [rule_format, OF that] entries_okD(3) [OF assms(1)] assms(2,3)
    by (cases "q = p") fastforce+
  then show ?thesis
    using assms(2-4) entries_okD(1,2) [OF assms(1)] unfolding entries_ok_def by auto
qed

lemma entries_ok_same:
  assumes "entries_ok W" "entries (wcache W') = entries (wcache W)" "wcomplete W' = wcomplete W"
    "set_mset (wserving W') \<subseteq> set_mset (wserving W)"
  shows "entries_ok W'"
  using assms unfolding entries_ok_def by (simp; blast)

lemma publish_entry:
  assumes inv: "cache_inv hs c" and pub: "publishes hs k fin c c' ts r"
    and e: "entries c' p = Some e"
  shows "(fin \<and> ekey e = k \<and> (eheaders e, ebody e) = r) \<or>
    (\<exists>q e'. entries c q = Some e' \<and> ekey e' = ekey e \<and> eheaders e' = eheaders e \<and> ebody e' = ebody e)"
proof (cases fin)
  case False
  then have "entries c' = entries c" using pub by (auto simp: publishes_def set_inflight_def)
  then show ?thesis using e by auto
next
  case True
  obtain i' where i': "r = (iheaders i', ibody i')" "cache_inv hs c'" "finalized hs k i' c c'"
    by (rule publishesD [OF pub]) (simp add: True)
  obtain h where h: "eheaders e = Some h"
    using cache_invD(8) [OF i'(2)] e by (auto simp: accounted_def entry_ok_def)
  then have "cached_response c' (ekey e) = Some (h, ebody e)"
    using cached_response_iff [OF cache_invD(5) [OF i'(2)]] e by blast
  then have "(ekey e = k \<and> iheaders i' = Some h \<and> ebody e = ibody i') \<or> cached_response c (ekey e) = Some (h, ebody e)"
    using i'(3) unfolding finalized_def by blast
  then show ?thesis
    using True h i'(1) cached_response_iff [OF cache_invD(5) [OF inv]] by auto
qed

lemma effect_entries_ok:
  assumes inv: "base_inv hs W" and pins: "pins_ok W" and ent: "entries_ok W" and eff: "effect hs W W'"
  shows "entries_ok W'"
  using eff
proof cases
  case (hit f p e)
  have "ekey e = fkey f" using cache_invD(5) [OF base_invD(1) [OF inv]] hit(2,3) by (metis indexed_def option.inject)
  with hit(1) show ?thesis by (intro entries_ok_pins [OF ent hit(3)]) auto
next
  case (served s p f M e f' c' fr)
  show ?thesis
  proof (cases "ebody e = []")
    case True
    then show ?thesis using served by (intro entries_ok_pins [OF ent served(3)]) auto
  next
    case False
    then show ?thesis using served by (intro entries_ok_same [OF ent]) auto
  qed
next
  case (released p M e)
  then show ?thesis by (intro entries_ok_pins [OF ent released(3)]) auto
next
  case (publish s f f' fin c' ts r)
  note c' = publish_entry [OF base_invD(1) [OF inv] publish(8)]
  have r: "fst r \<noteq> None" using publish(8) by (auto simp: publishes_def)
  have 1: "eheaders e \<noteq> None \<and> (eheaders e, ebody e) \<in> set (wcomplete W' (ekey e))" if e: "entries c' p = Some e" for p e
    using c' [OF e]
  proof
    assume "fin \<and> ekey e = fkey f \<and> (eheaders e, ebody e) = r"
    then show ?thesis using r publish(1) by (auto simp: mark_complete_def)
  next
    assume "\<exists>q e'. entries (wcache W) q = Some e' \<and> ekey e' = ekey e \<and> eheaders e' = eheaders e \<and> ebody e' = ebody e"
    then have "eheaders e \<noteq> None \<and> (eheaders e, ebody e) \<in> set (wcomplete W (ekey e))"
      using entries_okD(1,2) [OF ent] by metis
    then show ?thesis using publish(1) by (auto simp: mark_complete_def)
  qed
  have 2: "\<exists>e. entries c' p = Some e \<and> ekey e = fkey g" if sv: "(t, p, g) \<in># wserving W" for t p g
  proof -
    obtain e where e: "entries (wcache W) p = Some e" "ekey e = fkey g" using entries_okD(3) [OF ent sv] by blast
    have "epins e \<noteq> 0" by (rule held_entry [OF pins serving_holder [OF sv]]) (use e(1) in simp)
    then show ?thesis
      using e publishes_entry_step [OF publish(8)] unfolding entry_step_def by blast
  qed
  show ?thesis unfolding entries_ok_def using 1 2 publish(1) by simp
qed (use ent in \<open>auto intro: entries_ok_same simp: set_inflight_def attach_waiter_def\<close>)

section \<open>Interpretation\<close>

definition hits_inv :: "('h \<Rightarrow> size_t) \<Rightarrow> 'h world \<Rightarrow> bool" where
  "hits_inv hs W \<longleftrightarrow> base_inv hs W \<and> pins_ok W \<and> entries_ok W"

lemma hits_inv_init: "init_world W \<Longrightarrow> hits_inv hs W"
  by (auto simp: hits_inv_def base_inv_init)
    (auto simp: init_world_def pins_ok_def pins_of_def holders_def entries_ok_def RingBufferCache_def)

lemma hits_inv_step: "hits_inv hs W \<Longrightarrow> step hs W W' \<Longrightarrow> hits_inv hs W'"
  unfolding hits_inv_def
  using base_inv_step effect_pins_ok effect_entries_ok step_effect by metis

interpretation hits: inductive_invariant init_world "step hs" "hits_inv hs" for hs :: "'h \<Rightarrow> size_t"
  by unfold_locales (rule hits_inv_init hits_inv_step; assumption)+

lemma reachable_hitsD:
  assumes "reachable hs W"
  shows "base_inv hs W" "pins_ok W" "entries_ok W"
  using hits.inv_reach [OF assms] by (simp_all add: hits_inv_def)

end
