(* ===== verification/Ring_Followers.thy ===== *)
theory Ring_Followers
  imports Ring_System_Inv
begin

text \<open>
  What a follower receives in every reachable world: the closures that have run, are queued,
  or are still to be posted for its waiter are, in this order, exactly the response its
  leader has published so far.
\<close>

section \<open>The feed of a waiter\<close>

definition for_waiter :: "waiter_ptr \<Rightarrow> 'h task list \<Rightarrow> 'h task list" where
  "for_waiter w ts = filter (\<lambda>t. task_waiter t = w) ts"

lemma for_waiter_simps [simp]:
  "for_waiter w [] = []" "for_waiter w (ts @ us) = for_waiter w ts @ for_waiter w us"
  "for_waiter w (t # ts) = (if task_waiter t = w then t # for_waiter w ts else for_waiter w ts)"
  by (simp_all add: for_waiter_def)

lemma for_waiter_other: "\<forall>t \<in> set ts. task_waiter t \<noteq> w \<Longrightarrow> for_waiter w ts = []"
  by (simp add: for_waiter_def filter_empty_conv)

lemma for_waiter_one:
  assumes "distinct (map task_waiter ts)" "w \<in> task_waiter ` set ts"
  obtains t where "t \<in> set ts" "task_waiter t = w" "for_waiter w ts = [t]"
  using assms
proof (induction ts arbitrary: thesis)
  case (Cons u us)
  show ?case
  proof (cases "task_waiter u = w")
    case True
    then have "for_waiter w us = []" using Cons.prems(2) by (intro for_waiter_other) (simp; metis image_eqI)
    then show ?thesis using Cons.prems(1) [of u] True by simp
  next
    case False
    then have w: "w \<in> task_waiter ` set us" and d: "distinct (map task_waiter us)"
      using Cons.prems(2,3) by auto
    obtain t where "t \<in> set us" "task_waiter t = w" "for_waiter w us = [t]"
      by (rule Cons.IH [OF _ d w])
    then show ?thesis using Cons.prems(1) [of t] False by simp
  qed
qed simp

definition feed :: "'h world \<Rightarrow> waiter_ptr \<Rightarrow> nat \<Rightarrow> 'h task list" where
  "feed W w d = wran W w @ for_waiter w (wqueue W d) @ for_waiter w (wunposted W (wfeeder W w))"

section \<open>The invariant\<close>

definition routed :: "'h world \<Rightarrow> bool" where
  "routed W \<longleftrightarrow>
     (\<forall>d t. t \<in> set (wqueue W d) \<longrightarrow>
        (\<exists>wt. waiters (wcache W) (task_waiter t) = Some wt \<and> wdispatcher wt = d)) \<and>
     (\<forall>s t. t \<in> set (wunposted W s) \<longrightarrow>
        waiters (wcache W) (task_waiter t) \<noteq> None \<and> wfeeder W (task_waiter t) = s) \<and>
     (\<forall>w. waiters (wcache W) w = None \<longrightarrow> wran W w = [] \<and> wevents W w = [] \<and> wfinal W w = None)"

definition fed :: "'h world \<Rightarrow> bool" where
  "fed W \<longleftrightarrow>
     (\<forall>w wt. waiters (wcache W) w = Some wt \<longrightarrow> receive (feed W w (wdispatcher wt)) \<noteq> None) \<and>
     (\<forall>w wt k i. waiters (wcache W) w = Some wt \<longrightarrow> inflight_map (wcache W) k = Some i \<longrightarrow> w \<in> set (iwaiters i) \<longrightarrow>
        receive (feed W w (wdispatcher wt)) = Some (iheaders i, ibody i, False) \<and>
        wfeeder W w = wleader W k \<and> wfinal W w = None) \<and>
     (\<forall>w wt x b. waiters (wcache W) w = Some wt \<longrightarrow> wfinal W w = Some (x, b) \<longrightarrow>
        receive (feed W w (wdispatcher wt)) = Some (x, b, True))"

definition observed :: "'h world \<Rightarrow> bool" where
  "observed W \<longleftrightarrow>
     (\<forall>w wt. waiters (wcache W) w = Some wt \<longrightarrow> \<not> wcancelled wt \<longrightarrow>
        wevents W w = concat (map task_events (wran W w)))"

definition ended :: "'h world \<Rightarrow> bool" where
  "ended W \<longleftrightarrow>
     (\<forall>w wt. waiters (wcache W) w = Some wt \<longrightarrow> \<not> wcancelled wt \<longrightarrow> wcallbacks wt \<notin> wreplied W \<longrightarrow>
        (\<forall>f. wfilters W (wcallbacks wt) = Some f \<longrightarrow> fdone f) \<longrightarrow>
        (\<exists>x b. receive (wran W w) = Some (x, b, True)))"

lemma routedD:
  assumes "routed W"
  shows "t \<in> set (wqueue W d) \<Longrightarrow> \<exists>wt. waiters (wcache W) (task_waiter t) = Some wt \<and> wdispatcher wt = d"
    "t \<in> set (wunposted W s) \<Longrightarrow> waiters (wcache W) (task_waiter t) \<noteq> None"
    "t \<in> set (wunposted W s) \<Longrightarrow> wfeeder W (task_waiter t) = s"
    "waiters (wcache W) w = None \<Longrightarrow> wran W w = []" "waiters (wcache W) w = None \<Longrightarrow> wevents W w = []"
    "waiters (wcache W) w = None \<Longrightarrow> wfinal W w = None"
  using assms unfolding routed_def by blast+

lemma fedD:
  assumes "fed W" "waiters (wcache W) w = Some wt"
  shows "receive (feed W w (wdispatcher wt)) \<noteq> None"
    "inflight_map (wcache W) k = Some i \<Longrightarrow> w \<in> set (iwaiters i) \<Longrightarrow>
       receive (feed W w (wdispatcher wt)) = Some (iheaders i, ibody i, False)"
    "inflight_map (wcache W) k = Some i \<Longrightarrow> w \<in> set (iwaiters i) \<Longrightarrow> wfeeder W w = wleader W k"
    "inflight_map (wcache W) k = Some i \<Longrightarrow> w \<in> set (iwaiters i) \<Longrightarrow> wfinal W w = None"
    "wfinal W w = Some (x, b) \<Longrightarrow> receive (feed W w (wdispatcher wt)) = Some (x, b, True)"
  using assms unfolding fed_def by blast+

section \<open>Routing\<close>

lemma backfill_waiter [simp]: "t \<in> set (backfill_tasks w i) \<Longrightarrow> task_waiter t = w"
  by (auto simp: backfill_tasks_def split: option.splits)

lemma attach_waiters:
  "waiters (attach_waiter k i (Callbacks s d) c) =
     (waiters c)(next_waiter c := Some \<lparr>wdispatcher = d, wcallbacks = s, wcancelled = False\<rparr>)"
  "inflight_map (attach_waiter k i (Callbacks s d) c) =
     (inflight_map c)(k := Some (i\<lparr>iwaiters := iwaiters i @ [next_waiter c]\<rparr>))"
  by (simp_all add: attach_waiter_def)

lemma fresh_waiter: "cache_inv hs c \<Longrightarrow> waiters c (next_waiter c) = None"
  using cache_invD(4) unfolding waiters_ok_def by blast

lemma inflight_waiter:
  "cache_inv hs c \<Longrightarrow> inflight_map c k = Some i \<Longrightarrow> w \<in> set (iwaiters i) \<Longrightarrow> waiters c w \<noteq> None"
  using cache_invD(4) unfolding waiters_ok_def by blast

lemma routed_same:
  assumes "routed W" "wqueue W' = wqueue W" "wunposted W' = wunposted W" "wfeeder W' = wfeeder W"
    "wran W' = wran W" "wevents W' = wevents W" "wfinal W' = wfinal W" "waiters (wcache W') = waiters (wcache W)"
  shows "routed W'"
  using assms unfolding routed_def by simp

lemma effect_routed:
  assumes inv: "base_inv hs W" and ok: "routed W" and fed: "fed W" and eff: "effect hs W W'"
  shows "routed W'"
  using eff
proof cases
  case (follow f i w d)
  have fresh: "waiters (wcache W) w = None" using fresh_waiter [OF base_invD(1) [OF inv]] follow(6) by simp
  then have "task_waiter t \<noteq> w" if "t \<in> set (wunposted W s)" for t s using routedD(2) [OF ok that] by metis
  moreover have "task_waiter t \<noteq> w" if "t \<in> set (wqueue W d')" for t d' using routedD(1) [OF ok that] fresh by auto
  ultimately show ?thesis
    using ok follow(1,6) unfolding routed_def by (auto simp: attach_waiters)
next
  case (publish s f f' fin c' ts r)
  note frame = publishes_frame(1) [OF publish(8)]
  obtain i where i: "inflight_map (wcache W) (fkey f) = Some i" "map task_waiter ts = iwaiters i"
    by (rule publishesD [OF publish(8)])
  have "waiters (wcache W) (task_waiter t) \<noteq> None \<and> wfeeder W (task_waiter t) = s" if "t \<in> set ts" for t
  proof -
    have w: "task_waiter t \<in> set (iwaiters i)" using i(2) that by (metis image_eqI set_map)
    then obtain wt where "waiters (wcache W) (task_waiter t) = Some wt"
      using inflight_waiter [OF base_invD(1) [OF inv] i(1)] by auto
    then show ?thesis using fedD(3) [OF fed _ i(1) w] publish(6) by simp
  qed
  then show ?thesis
    using ok publish(1) frame unfolding routed_def by (auto simp: mark_final_def)
next
  case (posted s t ts wt)
  have "waiters (wcache W) (task_waiter u) \<noteq> None \<and> wfeeder W (task_waiter u) = s" if "u \<in> set ts" for u
    using routedD(2,3) [OF ok, of u s] posted(2) that by simp
  then show ?thesis using ok posted(1,3) unfolding routed_def by auto
next
  case (ran_live d t ts wt evs f f')
  then show ?thesis using ok unfolding routed_def by auto
next
  case (ran_dead d t ts wt)
  then show ?thesis using ok unfolding routed_def by auto
next
  case (served s p f M e f' c' fr)
  have "waiters c' = waiters (wcache W)" using served(5) by (auto split: if_splits)
  then show ?thesis using ok served(1) by (auto intro: routed_same)
next
  case (cancelled s f w wt)
  let ?m = "(waiters (wcache W))(w := Some (wt\<lparr>wcancelled := True\<rparr>))"
  have dom: "?m v = None \<longleftrightarrow> waiters (wcache W) v = None" for v using cancelled(5) by simp
  have "\<exists>vt. ?m (task_waiter t) = Some vt \<and> wdispatcher vt = d" if "t \<in> set (wqueue W d)" for t d
    using routedD(1) [OF ok that] cancelled(5) by (cases "task_waiter t = w") auto
  then show ?thesis
    using ok cancelled(1) dom unfolding routed_def by simp
qed (use ok in \<open>auto intro: routed_same simp: set_inflight_def\<close>)


section \<open>Feeding\<close>

lemma feed_same:
  "wran W' = wran W \<Longrightarrow> wqueue W' = wqueue W \<Longrightarrow> wunposted W' = wunposted W \<Longrightarrow> wfeeder W' = wfeeder W \<Longrightarrow>
     feed W' = feed W"
  by (intro ext) (simp add: feed_def)

text \<open>
  A step that adds nothing to any feed, moves no waiter to another response and changes no
  response keeps \<open>fed\<close>.
\<close>

lemma fed_transfer:
  assumes fed: "fed W"
    and old: "\<And>w wt'. waiters (wcache W') w = Some wt' \<Longrightarrow>
      \<exists>wt. waiters (wcache W) w = Some wt \<and> wdispatcher wt = wdispatcher wt' \<and>
        feed W' w (wdispatcher wt) = feed W w (wdispatcher wt) \<and> wfinal W' w = wfinal W w \<and> wfeeder W' w = wfeeder W w"
    and inf: "\<And>k i' w. inflight_map (wcache W') k = Some i' \<Longrightarrow> w \<in> set (iwaiters i') \<Longrightarrow>
      wleader W' k = wleader W k \<and>
      (\<exists>i. inflight_map (wcache W) k = Some i \<and> w \<in> set (iwaiters i) \<and> iheaders i' = iheaders i \<and> ibody i' = ibody i)"
  shows "fed W'"
  unfolding fed_def
proof (intro conjI allI impI, goal_cases)
  case (1 w wt)
  then show ?case using old [OF 1] fedD(1) [OF fed] by metis
next
  case (2 w wt k i)
  then show ?case using old [OF 2(1)] inf [OF 2(2,3)] fedD(2) [OF fed] by metis
next
  case (3 w wt k i)
  then show ?case using old [OF 3(1)] inf [OF 3(2,3)] fedD(3) [OF fed] by metis
next
  case (4 w wt k i)
  then show ?case using old [OF 4(1)] inf [OF 4(2,3)] fedD(4) [OF fed] by metis
next
  case (5 w wt x b)
  then show ?case using old [OF 5(1)] fedD(5) [OF fed] by metis
qed

lemma fed_same:
  assumes "fed W" "feed W' = feed W" "wfinal W' = wfinal W" "wfeeder W' = wfeeder W"
    "waiters (wcache W') = waiters (wcache W)" "inflight_map (wcache W') = inflight_map (wcache W)" "wleader W' = wleader W"
  shows "fed W'"
  by (rule fed_transfer [OF assms(1)]) (use assms(2-) in simp_all)

lemma feed_posted:
  assumes ok: "routed W" and s: "wunposted W s = t # ts" and t: "waiters (wcache W) (task_waiter t) = Some wt"
    and w: "waiters (wcache W) w = Some vt"
  shows "feed (W\<lparr>wunposted := (wunposted W)(s := ts),
             wqueue := (wqueue W)(wdispatcher wt := wqueue W (wdispatcher wt) @ [t])\<rparr>) w (wdispatcher vt)
       = feed W w (wdispatcher vt)"
proof (cases "task_waiter t = w")
  case True
  then have "vt = wt" "wfeeder W w = s" using t w routedD(3) [OF ok, of t s] s by auto
  then show ?thesis using True s by (simp add: feed_def)
next
  case False
  then show ?thesis using s by (auto simp: feed_def)
qed

lemma feed_ran:
  assumes ok: "routed W" and d: "wqueue W d = t # ts" and w: "waiters (wcache W) w = Some vt"
    and W': "wqueue W' = (wqueue W)(d := ts)" "wran W' = (wran W)(task_waiter t := wran W (task_waiter t) @ [t])"
      "wunposted W' = wunposted W" "wfeeder W' = wfeeder W"
  shows "feed W' w (wdispatcher vt) = feed W w (wdispatcher vt)"
proof (cases "task_waiter t = w")
  case True
  then have "wdispatcher vt = d" using w routedD(1) [OF ok, of t d] d by auto
  then show ?thesis using True W' d by (simp add: feed_def)
next
  case False
  then show ?thesis using W' d by (simp add: feed_def)
qed


lemma receive_backfill:
  assumes "iheaders i = None \<longrightarrow> ibody i = []"
  shows "receive (backfill_tasks w i) = Some (iheaders i, ibody i, False)"
  using assms by (simp add: backfill_tasks_def receive_def split: option.splits)

lemma fed_follow:
  assumes inv: "base_inv hs W" and ok: "routed W" and fed: "fed W"
    and i: "inflight_map (wcache W) k = Some i" and w: "w = next_waiter (wcache W)"
    and W': "wcache W' = attach_waiter k i (Callbacks s d) (wcache W)"
      "wqueue W' = (wqueue W)(d := wqueue W d @ backfill_tasks w i)" "wfeeder W' = (wfeeder W)(w := wleader W k)"
      "wran W' = wran W" "wunposted W' = wunposted W" "wfinal W' = wfinal W" "wleader W' = wleader W"
  shows "fed W'"
proof -
  have fresh: "waiters (wcache W) w = None" using fresh_waiter [OF base_invD(1) [OF inv]] w by simp
  have notin: "w \<notin> set (iwaiters j)" if "inflight_map (wcache W) k' = Some j" for k' j
    using inflight_waiter [OF base_invD(1) [OF inv] that, of w] fresh by auto
  have other: "feed W' v e = feed W v e" if "v \<noteq> w" for v e
    using W' that by (simp add: feed_def for_waiter_other)
  have "for_waiter w (wqueue W d) = []" "for_waiter w (wunposted W t) = []" for t
    by (rule for_waiter_other; use routedD(1,2) [OF ok] fresh in fastforce)+
  moreover have "for_waiter w (backfill_tasks w i) = backfill_tasks w i"
    by (simp add: for_waiter_def)
  ultimately have own: "feed W' w d = backfill_tasks w i"
    using W' routedD(4) [OF ok fresh] by (simp add: feed_def)
  have i_ok: "iheaders i = None \<longrightarrow> ibody i = []"
    using cache_invD(3) [OF base_invD(1) [OF inv]] i by (simp add: inflights_ok_def inflight_ok_def)
  note rec = receive_backfill [OF i_ok, of w]
  have ws: "waiters (wcache W') v = Some vt \<Longrightarrow> (v = w \<and> wdispatcher vt = d) \<or> (v \<noteq> w \<and> waiters (wcache W) v = Some vt)" for v vt
    using W'(1) w by (auto simp: attach_waiters split: if_splits)
  have inf: "inflight_map (wcache W') k' = Some j' \<Longrightarrow> v \<in> set (iwaiters j') \<Longrightarrow>
      (v = w \<and> k' = k \<and> iheaders j' = iheaders i \<and> ibody j' = ibody i) \<or>
      (v \<noteq> w \<and> (\<exists>j. inflight_map (wcache W) k' = Some j \<and> v \<in> set (iwaiters j) \<and>
          iheaders j' = iheaders j \<and> ibody j' = ibody j))" for k' j' v
    using W'(1) w i notin [of k'] by (auto simp: attach_waiters split: if_splits)
  have none: "wfinal W w = None" by (rule routedD(6) [OF ok fresh])
  show ?thesis
    unfolding fed_def W'(3,6,7)
  proof (intro conjI allI impI, goal_cases)
    case (1 v vt)
    show ?case using ws [OF 1] other [of v] own rec fedD(1) [OF fed] by (cases "v = w") auto
  next
    case (2 v vt k' j)
    show ?case using ws [OF 2(1)] inf [OF 2(2,3)] other [of v] own rec fedD(2) [OF fed] by (cases "v = w") auto
  next
    case (3 v vt k' j)
    show ?case using ws [OF 3(1)] inf [OF 3(2,3)] fedD(3) [OF fed] by (cases "v = w") auto
  next
    case (4 v vt k' j)
    show ?case using ws [OF 4(1)] inf [OF 4(2,3)] none fedD(4) [OF fed] by (cases "v = w") auto
  next
    case (5 v vt x b)
    show ?case using ws [OF 5(1)] 5(2) none other [of v] fedD(5) [OF fed] by (cases "v = w") auto
  qed
qed

lemma fed_publish:
  assumes inv: "base_inv hs W" and ok: "routed W" and fed: "fed W"
    and s: "wunposted W s = []" "wleader W k = s" and pub: "publishes hs k fin (wcache W) c' ts r"
    and W': "wcache W' = c'" "wunposted W' = (wunposted W)(s := ts)" "wfinal W' = mark_final fin ts r (wfinal W)"
      "wfeeder W' = wfeeder W" "wran W' = wran W" "wqueue W' = wqueue W" "wleader W' = wleader W"
  shows "fed W'"
proof -
  obtain i i' where i: "inflight_map (wcache W) k = Some i" "iwaiters i' = iwaiters i"
    "\<forall>t \<in> set ts. absorb (iheaders i, ibody i, False) t = Some (iheaders i', ibody i', fin)"
    "map task_waiter ts = iwaiters i" "r = (iheaders i', ibody i')"
    "if fin then finalized hs k i' (wcache W) c' else c' = set_inflight k i' (wcache W)"
    by (rule publishesD [OF pub])
  have ws: "waiters c' = waiters (wcache W)" by (rule publishes_frame(1) [OF pub])
  have mem: "w \<in> task_waiter ` set ts \<longleftrightarrow> w \<in> set (iwaiters i)" for w using i(4) by (metis set_map)
  have dist: "distinct (map task_waiter ts)"
    using inflight_distinct [OF base_invD(1) [OF inv] i(1)] i(4) by simp
  have in_feed: "receive (feed W' w (wdispatcher wt)) = Some (iheaders i', ibody i', fin)"
    if w: "w \<in> set (iwaiters i)" and wt: "waiters (wcache W) w = Some wt" for w wt
  proof -
    obtain t where t: "t \<in> set ts" "for_waiter w ts = [t]"
      using for_waiter_one [OF dist] mem w by metis
    have "wfeeder W w = s" using fedD(3) [OF fed wt i(1) w] s(2) by simp
    then have "feed W' w (wdispatcher wt) = feed W w (wdispatcher wt) @ [t]"
      using W' s(1) t(2) by (simp add: feed_def)
    then show ?thesis using fedD(2) [OF fed wt i(1) w] i(3) t(1) by (simp add: receive_snoc)
  qed
  have out: "feed W' w d = feed W w d" if "w \<notin> set (iwaiters i)" for w d
  proof -
    have "for_waiter w ts = []" using that mem by (intro for_waiter_other) auto
    then show ?thesis using W' s(1) by (simp add: feed_def)
  qed
  have inf: "inflight_map c' k' = Some j \<Longrightarrow> w \<in> set (iwaiters j) \<Longrightarrow>
      (k' = k \<and> \<not> fin \<and> j = i' \<and> w \<in> set (iwaiters i)) \<or> (k' \<noteq> k \<and> inflight_map (wcache W) k' = Some j)" for k' j w
    using i(2,6) publishes_frame(3) [OF pub, of k'] by (auto simp: finalized_def set_inflight_def split: if_splits)
  have apart: "w \<notin> set (iwaiters i)" if "inflight_map (wcache W) k' = Some j" "w \<in> set (iwaiters j)" "k' \<noteq> k" for w k' j
    using cache_invD(4) [OF base_invD(1) [OF inv]] that i(1) unfolding waiters_ok_def by blast
  have fin_mark: "wfinal W' w = (if fin \<and> w \<in> set (iwaiters i) then Some r else wfinal W w)" for w
    using W'(3) mem by (simp add: mark_final_def)
  show ?thesis
    unfolding fed_def W'(1,4,7) ws
  proof (intro conjI allI impI, goal_cases)
    case (1 w wt)
    show ?case using in_feed [OF _ 1] out [of w] fedD(1) [OF fed 1] by (cases "w \<in> set (iwaiters i)") auto
  next
    case (2 w wt k' j)
    show ?case using inf [OF 2(2,3)]
    proof (elim disjE conjE)
      assume "k' \<noteq> k" "inflight_map (wcache W) k' = Some j"
      then show ?thesis using out [OF apart] fedD(2) [OF fed 2(1)] 2(3) by metis
    qed (use in_feed [OF _ 2(1)] in auto)
  next
    case (3 w wt k' j)
    show ?case using inf [OF 3(2,3)] fedD(3) [OF fed 3(1)] 3(3) i(1) by blast
  next
    case (4 w wt k' j)
    show ?case using inf [OF 4(2,3)]
    proof (elim disjE conjE)
      assume "k' \<noteq> k" "inflight_map (wcache W) k' = Some j"
      then show ?thesis using apart fin_mark fedD(4) [OF fed 4(1)] 4(3) by metis
    qed (use fin_mark fedD(4) [OF fed 4(1) i(1)] in auto)
  next
    case (5 w wt x b)
    show ?case
    proof (cases "w \<in> set (iwaiters i)")
      case True
      then show ?thesis using 5 fin_mark [of w] in_feed [OF True 5(1)] fedD(4) [OF fed 5(1) i(1) True] i(5) by (auto split: if_splits)
    next
      case False
      then show ?thesis using 5 fin_mark [of w] out [OF False] fedD(5) [OF fed 5(1)] by auto
    qed
  qed
qed


lemma effect_fed:
  assumes inv: "base_inv hs W" and ok: "routed W" and fed: "fed W" and eff: "effect hs W W'"
  shows "fed W'"
  using eff
proof cases
  case (lead f)
  have same: "feed W' = feed W" unfolding lead(1) by (rule feed_same) simp_all
  show ?thesis
  proof (rule fed_transfer [OF fed], goal_cases)
    case (1 w wt)
    then show ?case using same lead(1) by (simp add: set_inflight_def)
  next
    case (2 k i w)
    then show ?case using lead(1) by (auto simp: set_inflight_def empty_inflight_def split: if_splits)
  qed
next
  case (follow f i w d)
  show ?thesis
    by (rule fed_follow [OF inv ok fed follow(3,6), where W' = W']) (simp_all add: follow(1))
next
  case (publish s f f' fin c' ts r)
  show ?thesis
    by (rule fed_publish [OF inv ok fed publish(5,6,8), where W' = W']) (simp_all add: publish(1))
next
  case (posted s t ts wt)
  show ?thesis
    by (rule fed_transfer [OF fed]) (use feed_posted [OF ok posted(2,3)] posted(1) in simp_all)
next
  case (ran_live d t ts wt evs f f')
  have "feed W' w (wdispatcher vt) = feed W w (wdispatcher vt)" if "waiters (wcache W) w = Some vt" for w vt
    by (rule feed_ran [OF ok ran_live(2) that]) (simp_all add: ran_live(1))
  then show ?thesis
    by (intro fed_transfer [OF fed]) (simp_all add: ran_live(1))
next
  case (ran_dead d t ts wt)
  have "feed W' w (wdispatcher vt) = feed W w (wdispatcher vt)" if "waiters (wcache W) w = Some vt" for w vt
    by (rule feed_ran [OF ok ran_dead(2) that]) (simp_all add: ran_dead(1))
  then show ?thesis
    by (intro fed_transfer [OF fed]) (simp_all add: ran_dead(1))
next
  case (cancelled s f w wt)
  have same: "feed W' = feed W" unfolding cancelled(1) by (rule feed_same) simp_all
  show ?thesis
    by (rule fed_transfer [OF fed]) (use same cancelled(1,5) in \<open>auto split: if_splits\<close>)
next
  case (removed k i w ws wt)
  have same: "feed W' = feed W" unfolding removed(1) by (rule feed_same) simp_all
  have "v \<in> set (iwaiters i)" if "v \<in> set ws" for v
    using removed(3) that by (metis set_mset_mset set_mset_add_mset_insert insertCI)
  then show ?thesis
    by (intro fed_transfer [OF fed]) (use same removed(1,2) in \<open>auto simp: set_inflight_def split: if_splits\<close>)
next
  case (served s p f M e f' c' fr)
  have "waiters c' = waiters (wcache W)" "inflight_map c' = inflight_map (wcache W)"
    using served(5) by (auto split: if_splits)
  then show ?thesis using served(1) by (intro fed_same [OF fed] feed_same) simp_all
qed (auto intro!: fed_same [OF fed] feed_same)

section \<open>What the callbacks see\<close>

lemma effect_observed:
  assumes inv: "base_inv hs W" and ok: "routed W" and obs: "observed W" and eff: "effect hs W W'"
  shows "observed W'"
proof -
  have old: "wevents W w = concat (map task_events (wran W w))"
    if "waiters (wcache W) w = Some wt" "\<not> wcancelled wt" for w wt
    using obs that unfolding observed_def by blast
  show ?thesis
    using eff
  proof cases
    case (follow f i w d)
    have "waiters (wcache W) w = None" using fresh_waiter [OF base_invD(1) [OF inv]] follow(6) by simp
    then show ?thesis
      using follow(1,6) old routedD(4,5) [OF ok] unfolding observed_def by (auto simp: attach_waiters)
  next
    case (publish s f f' fin c' ts r)
    then show ?thesis using old publishes_frame(1) [OF publish(8)] unfolding observed_def by simp
  next
    case (served s p f M e f' c' fr)
    have "waiters c' = waiters (wcache W)" using served(5) by (auto split: if_splits)
    then show ?thesis using served(1) old unfolding observed_def by simp
  qed (use old in \<open>auto simp: observed_def set_inflight_def split: if_splits\<close>)
qed

lemma receive_ran:
  assumes "fed W" "waiters (wcache W) w = Some wt"
  shows "receive (wran W w) \<noteq> None"
proof
  assume none: "receive (wran W w) = None"
  have "receive (feed W w (wdispatcher wt)) =
      foldl (\<lambda>r t. Option.bind r (\<lambda>x. absorb x t)) (receive (wran W w))
        (for_waiter w (wqueue W (wdispatcher wt)) @ for_waiter w (wunposted W (wfeeder W w)))"
    by (simp add: receive_def feed_def)
  then have "receive (feed W w (wdispatcher wt)) = None"
    unfolding none by (simp only: foldl_absorb_None)
  then show False using fedD(1) [OF assms] by simp
qed

lemma effect_ended:
  assumes inv: "base_inv hs W" and ok: "routed W" and fed': "fed W'" and fin: "ended W" and eff: "effect hs W W'"
  shows "ended W'"
proof -
  have old: "\<exists>x b. receive (wran W w) = Some (x, b, True)"
    if "waiters (wcache W) w = Some wt" "\<not> wcancelled wt" "wcallbacks wt \<notin> wreplied W"
      "\<forall>f. wfilters W (wcallbacks wt) = Some f \<longrightarrow> fdone f" for w wt
    using fin that unfolding ended_def by blast
  have new: "wcallbacks wt \<noteq> wnext W" if "waiters (wcache W) w = Some wt" for w wt
    using base_invD(3) [OF inv] that unfolding streams_ok_def by (metis less_irrefl)
  note fol = followersD(1) [OF base_invD(4) [OF inv]]
  show ?thesis
    using eff
  proof cases
    case (skip f)
    then show ?thesis using old new by (simp add: ended_def)
  next
    case (lead f)
    then show ?thesis using old new by (simp add: ended_def set_inflight_def)
  next
    case (follow f i w d)
    then show ?thesis using old new by (simp add: ended_def attach_waiters)
  next
    case (served s p f M e f' c' fr)
    have "waiters c' = waiters (wcache W)" using served(5) by (auto split: if_splits)
    moreover have "wcallbacks wt \<noteq> s" if "waiters (wcache W) w = Some wt" for w wt
      using base_invD(3) [OF inv] served(2) that unfolding streams_ok_def by (metis union_single_eq_member)
    ultimately show ?thesis using served(1) old by (simp add: ended_def)
  next
    case (publish s f f' fin c' ts r)
    have "wcallbacks wt \<noteq> s" if "waiters (wcache W) w = Some wt" for w wt
      using fol [OF that, of f] publish(2,3) by auto
    then show ?thesis using publish(1) old publishes_frame(1) [OF publish(8)] by (simp add: ended_def)
  next
    case (ran_live d t ts wt evs f f')
    have own: "\<exists>x b. receive (wran W (task_waiter t) @ [t]) = Some (x, b, True)" if "\<not> wcancelled wt" "wcallbacks wt \<notin> wreplied W" "fdone f'"
    proof -
      have "receive (wran W' (task_waiter t)) \<noteq> None"
        by (rule receive_ran [OF fed']) (simp add: ran_live(1,3))
      then obtain q where q: "receive (wran W (task_waiter t)) = Some q" "absorb q t \<noteq> None"
        by (auto simp: ran_live(1) receive_snoc split: bind_splits)
      show ?thesis
      proof (cases "task_fin t")
        case True
        then show ?thesis using q absorb_fin [of q t] by (auto simp: receive_snoc)
      next
        case False
        then have "fdone f" using that(3) ran_live(8) by simp
        then show ?thesis using old [OF ran_live(3) that(1,2)] ran_live(5) q by auto
      qed
    qed
    have apart: "wcallbacks vt \<noteq> wcallbacks wt" if "waiters (wcache W) v = Some vt" "v \<noteq> task_waiter t" for v vt
      using fol [OF that(1), of f] fol [OF ran_live(3), of f] ran_live(5) that(2) by auto
    show ?thesis
      unfolding ended_def
    proof (intro allI impI, goal_cases)
      case (1 v vt)
      then show ?case
        using own old [of v vt] apart [of v vt] ran_live(1,3) by (cases "v = task_waiter t") auto
    qed
  next
    case (ran_dead d t ts wt)
    then show ?thesis using old by (auto simp: ended_def)
  next
    case (destroyed s f)
    have "fdone g" if "waiters (wcache W) w = Some wt" "wcallbacks wt = s" "wfilters W s = Some g" for w wt g
      using fol [OF that(1), of g] destroyed that(2,3) by auto
    then show ?thesis using destroyed(1) old by (auto simp: ended_def split: if_splits)
  next
    case (cancelled s f w wt)
    have "wcallbacks vt \<noteq> s" if "waiters (wcache W) v = Some vt" "v \<noteq> w" for v vt
      using fol [OF that(1), of f] cancelled(2,4) that(2) by auto
    then show ?thesis using cancelled(1) old by (auto simp: ended_def split: if_splits)
  qed (use old in \<open>auto simp: ended_def set_inflight_def\<close>)
qed

section \<open>Interpretation\<close>

definition feed_inv :: "('h \<Rightarrow> size_t) \<Rightarrow> 'h world \<Rightarrow> bool" where
  "feed_inv hs W \<longleftrightarrow> base_inv hs W \<and> routed W \<and> fed W \<and> observed W \<and> ended W"

lemma feed_inv_init: "init_world W \<Longrightarrow> feed_inv hs W"
  by (auto simp: feed_inv_def base_inv_init)
    (auto simp: init_world_def routed_def fed_def observed_def ended_def RingBufferCache_def)

lemma feed_inv_step: "feed_inv hs W \<Longrightarrow> step hs W W' \<Longrightarrow> feed_inv hs W'"
  unfolding feed_inv_def
  using base_inv_step effect_routed effect_fed effect_observed effect_ended step_effect by metis

interpretation feeding: inductive_invariant init_world "step hs" "feed_inv hs" for hs :: "'h \<Rightarrow> size_t"
  by unfold_locales (rule feed_inv_init feed_inv_step; assumption)+

lemma reachable_feedD:
  assumes "reachable hs W"
  shows "base_inv hs W" "routed W" "fed W" "observed W" "ended W"
  using feeding.inv_reach [OF assms] by (simp_all add: feed_inv_def)

end
