(* ===== verification/Ring_Delivery.thy ===== *)
theory Ring_Delivery
  imports Ring_Hits Ring_Followers "HOL-Library.Sublist"
begin

text \<open>
  Delivery: what the callbacks of a stream hear, which closures can touch a destroyed stream
  (only those for a follower that got a reply from outside the cache), and that where this
  does not threaten every follower of a completed response gets all of it; also what happens
  to a key whose leader has gone.
\<close>

section \<open>What a stream hears\<close>

fun hear :: "'h received \<Rightarrow> 'h event \<Rightarrow> 'h received option" where
  "hear (None, b, False) (EncodeHeaders h fin details) = (if b = [] then Some (Some h, [], fin) else None)"
| "hear (Some h, b, False) (EncodeData d fin) = Some (Some h, b @ d, fin)"
| "hear _ _ = None"

definition heard_from :: "'h received option \<Rightarrow> 'h event list \<Rightarrow> 'h received option" where
  "heard_from r evs = foldl (\<lambda>r ev. Option.bind r (\<lambda>x. hear x ev)) r evs"

definition heard :: "'h event list \<Rightarrow> 'h received option" where
  "heard evs = heard_from (Some (None, [], False)) evs"

lemma heard_from_append: "heard_from r (evs @ evs') = heard_from (heard_from r evs) evs'"
  by (simp add: heard_from_def)

lemma absorb_hear: "absorb r t = Some r' \<Longrightarrow> heard_from (Some r) (task_events t) = Some r'"
  by (cases "(r, t)" rule: absorb.cases) (auto simp: heard_from_def split: if_splits)

lemma receive_heard: "receive ts = Some r \<Longrightarrow> heard (concat (map task_events ts)) = Some r"
proof (induction ts arbitrary: r rule: rev_induct)
  case Nil
  then show ?case by (simp add: heard_def heard_from_def)
next
  case (snoc t ts)
  then obtain q where "receive ts = Some q" "absorb q t = Some r"
    by (auto simp: receive_snoc split: bind_splits)
  then show ?case using snoc.IH [of q] absorb_hear by (simp add: heard_def heard_from_append)
qed

lemma absorb_extends:
  "absorb (x, b, e) t = Some (x', b', e') \<Longrightarrow> prefix b b' \<and> (x = None \<or> x = x')"
  by (cases "((x, b, e), t)" rule: absorb.cases) (auto split: if_splits)

lemma receive_extends:
  "receive (ts @ us) = Some (x', b', e') \<Longrightarrow> \<exists>x b e. receive ts = Some (x, b, e) \<and> prefix b b' \<and> (x = None \<or> x = x')"
proof (induction us arbitrary: x' b' e' rule: rev_induct)
  case (snoc t us)
  then obtain y c e where q: "receive (ts @ us) = Some (y, c, e)" "absorb (y, c, e) t = Some (x', b', e')"
    by (auto simp: receive_snoc simp flip: append_assoc split: bind_splits)
  from snoc.IH [OF q(1)] absorb_extends [OF q(2)] show ?case
    by (metis prefix_order.trans)
qed simp

lemma waiter_hears:
  assumes W: "reachable hs W" and w: "waiters (wcache W) w = Some wt" "\<not> wcancelled wt"
  shows "\<exists>r. receive (wran W w) = Some r \<and> heard (wevents W w) = Some r"
proof -
  obtain r where r: "receive (wran W w) = Some r"
    using receive_ran [OF reachable_feedD(3) [OF W] w(1)] by blast
  have "wevents W w = concat (map task_events (wran W w))"
    using reachable_feedD(4) [OF W] w unfolding observed_def by blast
  then show ?thesis using r receive_heard [OF r] by metis
qed

lemma follower_prefix:
  assumes W: "reachable hs W" and w: "waiters (wcache W) w = Some wt" "\<not> wcancelled wt"
    and i: "inflight_map (wcache W) k = Some i" "w \<in> set (iwaiters i)"
  shows "\<exists>x b. heard (wevents W w) = Some (x, b, False) \<and> prefix b (ibody i) \<and> (x = None \<or> x = iheaders i)"
proof -
  obtain x b e where r: "receive (wran W w) = Some (x, b, e)" "heard (wevents W w) = Some (x, b, e)"
    using waiter_hears [OF W w] by auto
  have all: "receive (feed W w (wdispatcher wt)) = Some (iheaders i, ibody i, False)"
    by (rule fedD(2) [OF reachable_feedD(3) [OF W] w(1) i])
  have "\<not> e"
  proof
    assume e: e
    then have "for_waiter w (wqueue W (wdispatcher wt)) @ for_waiter w (wunposted W (wfeeder W w)) = []"
      by (intro receive_ended [of "wran W w" x b]) (use r(1) all in \<open>simp_all add: feed_def\<close>)
    then show False using all r(1) e by (simp add: feed_def)
  qed
  moreover have "prefix b (ibody i) \<and> (x = None \<or> x = iheaders i)"
    using receive_extends all r(1) unfolding feed_def by fastforce
  ultimately show ?thesis using r(2) by auto
qed

lemma follower_complete:
  assumes W: "reachable hs W" and w: "waiters (wcache W) w = Some wt" "\<not> wcancelled wt"
    and fin: "wfinal W w = Some (x, b)"
    and idle: "for_waiter w (wqueue W (wdispatcher wt)) = []" "for_waiter w (wunposted W (wfeeder W w)) = []"
  shows "heard (wevents W w) = Some (x, b, True)"
  using fedD(5) [OF reachable_feedD(3) [OF W] w(1) fin] waiter_hears [OF W w] idle by (simp add: feed_def)

section \<open>Closures and live streams\<close>

text \<open>
  A dispatcher is endangered when a closure for it is pending whose waiter is not cancelled
  though its stream is gone; that takes a response from outside the cache.  Running such a
  closure is undefined behaviour in C++ and no step.
\<close>

definition pending :: "'h world \<Rightarrow> 'h task set" where
  "pending W = (\<Union>d. set (wqueue W d)) \<union> (\<Union>s. set (wunposted W s))"

definition dangling :: "'h world \<Rightarrow> 'h task \<Rightarrow> bool" where
  "dangling W t \<longleftrightarrow> (\<exists>wt. waiters (wcache W) (task_waiter t) = Some wt \<and> \<not> wcancelled wt \<and>
     wcallbacks wt \<in> wreplied W \<and> wfilters W (wcallbacks wt) = None)"

definition endangered :: "'h world \<Rightarrow> nat \<Rightarrow> bool" where
  "endangered W d \<longleftrightarrow> (\<exists>t \<in> pending W. dangling W t \<and>
     (\<exists>wt. waiters (wcache W) (task_waiter t) = Some wt \<and> wdispatcher wt = d))"

lemma endangered_mono:
  assumes "pending W' \<subseteq> pending W" "wcache W' = wcache W" "wreplied W' = wreplied W"
    "\<And>s. wfilters W' s = None \<longleftrightarrow> wfilters W s = None"
  shows "endangered W' d \<Longrightarrow> endangered W d"
  using assms unfolding endangered_def dangling_def by auto

lemma pendingI: "set (wqueue W d) \<subseteq> pending W" "set (wunposted W s) \<subseteq> pending W"
  by (auto simp: pending_def)

lemma pending_subI:
  assumes "\<And>d. set (wqueue W' d) \<subseteq> pending W" "\<And>s. set (wunposted W' s) \<subseteq> pending W"
  shows "pending W' \<subseteq> pending W"
  unfolding pending_def [of W'] using assms by (intro Un_least UN_least)

lemma pending_run:
  assumes "wqueue W d = t # ts" "wqueue W' = (wqueue W)(d := ts)" "wunposted W' = wunposted W"
  shows "pending W' \<subseteq> pending W"
proof (rule pending_subI)
  show "set (wqueue W' e) \<subseteq> pending W" for e
    using pendingI(1) [of W e] assms(1,2) by (cases "e = d") auto
qed (simp add: assms(3) pendingI)

lemma pending_post:
  assumes "wunposted W s = t # ts"
  shows "pending (W\<lparr>wunposted := (wunposted W)(s := ts), wqueue := (wqueue W)(d := wqueue W d @ [t])\<rparr>) \<subseteq> pending W"
    (is "pending ?W' \<subseteq> _")
proof (rule pending_subI)
  show "set (wqueue ?W' e) \<subseteq> pending W" for e
    using pendingI(1) [of W e] pendingI(2) [of W s] assms by (cases "e = d") auto
  show "set (wunposted ?W' e) \<subseteq> pending W" for e
    using pendingI(2) [of W e] assms by (cases "e = s") auto
qed

lemma task_callbacks_live:
  assumes W: "reachable hs W" and t: "t \<in> set (wqueue W d)"
  shows "\<exists>wt. waiters (wcache W) (task_waiter t) = Some wt \<and> wdispatcher wt = d \<and>
    (wcancelled wt \<or> wcallbacks wt \<in> wreplied W \<or>
     (\<exists>f. wfilters W (wcallbacks wt) = Some f \<and> frole f = FollowerRole \<and> \<not> fdone f))"
proof -
  let ?w = "task_waiter t"
  obtain wt where wt: "waiters (wcache W) ?w = Some wt" "wdispatcher wt = d"
    using routedD(1) [OF reachable_feedD(2) [OF W] t] by blast
  have "\<exists>f. wfilters W (wcallbacks wt) = Some f \<and> \<not> fdone f" if act: "\<not> wcancelled wt" "wcallbacks wt \<notin> wreplied W"
  proof (rule ccontr)
    assume "\<not> ?thesis"
    then obtain x b where "receive (wran W ?w) = Some (x, b, True)"
      using reachable_feedD(5) [OF W] wt(1) act unfolding ended_def by blast
    moreover have "receive (feed W ?w d) \<noteq> None" using fedD(1) [OF reachable_feedD(3) [OF W] wt(1)] wt(2) by simp
    ultimately have "for_waiter ?w (wqueue W d) = []" using receive_ended unfolding feed_def by fastforce
    then show False using t by (auto simp: for_waiter_def filter_empty_conv)
  qed
  then show ?thesis
    using wt followersD(1) [OF base_invD(4) [OF reachable_feedD(1) [OF W]] wt(1)]
    by (intro exI [of _ wt] conjI) blast+
qed

lemma run_step:
  assumes W: "reachable hs W" and q: "wqueue W d = t # ts" and safe: "\<not> endangered W d"
  shows "\<exists>W'. step hs W W' \<and> wcache W' = wcache W \<and> wfinal W' = wfinal W \<and> wunposted W' = wunposted W \<and>
    wfeeder W' = wfeeder W \<and> wreplied W' = wreplied W \<and> wqueue W' = (wqueue W)(d := ts) \<and> \<not> endangered W' d"
proof -
  obtain wt where wt: "waiters (wcache W) (task_waiter t) = Some wt" "wdispatcher wt = d"
    and live: "wcancelled wt \<or> wcallbacks wt \<in> wreplied W \<or>
      (\<exists>f. wfilters W (wcallbacks wt) = Some f \<and> frole f = FollowerRole \<and> \<not> fdone f)"
    using task_callbacks_live [OF W, of t d] q by auto
  have "t \<in> pending W" using q by (auto simp: pending_def intro!: exI [of _ d])
  then have "\<not> dangling W t" using safe wt unfolding endangered_def by blast
  note sub = pending_run [OF q]
  show ?thesis
  proof (cases "wfilters W (wcallbacks wt)")
    case None
    then have "run_task t (wcache W) = Inr []"
      using live wt \<open>\<not> dangling W t\<close> by (auto simp: run_task_events dangling_def)
    from step.run_dead [OF q this wt(1) None] show ?thesis
      by (intro exI conjI, assumption) (use safe in \<open>auto dest: endangered_mono [rotated -1, OF _ sub]\<close>)
  next
    case (Some f)
    have role: "frole f \<noteq> LeaderRole"
      using followersD(1) [OF base_invD(4) [OF reachable_feedD(1) [OF W]] wt(1) Some] by simp
    let ?evs = "if wcancelled wt then [] else task_events t"
    have run: "run_task t (wcache W) = Inr ?evs" using wt by (simp add: run_task_events)
    from step.run_live [OF q run wt(1) Some pass_events_follower [OF role]] show ?thesis
      by (intro exI conjI, assumption)
        (use safe Some in \<open>auto dest!: endangered_mono [rotated -1, OF _ sub] split: if_splits\<close>)
  qed
qed

lemma post_step:
  assumes W: "reachable hs W" and u: "wunposted W s = t # ts"
  shows "\<exists>W'. step hs W W' \<and> wcache W' = wcache W \<and> wfinal W' = wfinal W \<and> wfeeder W' = wfeeder W \<and>
    wreplied W' = wreplied W \<and> wunposted W' = (wunposted W)(s := ts) \<and> (\<forall>d. endangered W' d \<longrightarrow> endangered W d)"
proof -
  obtain wt where "waiters (wcache W) (task_waiter t) = Some wt"
    using routedD(2) [OF reachable_feedD(2) [OF W], of t s] u by auto
  note st = step.post [OF u this, of hs]
  note mono = endangered_mono [OF pending_post [OF u, of "wdispatcher wt"]]
  show ?thesis by (rule exI, rule conjI, rule st) (use mono in simp)
qed

lemma drain_unposted:
  assumes "reachable hs W"
  shows "\<exists>W'. (step hs)\<^sup>*\<^sup>* W W' \<and> wcache W' = wcache W \<and> wfinal W' = wfinal W \<and> wfeeder W' = wfeeder W \<and>
    wreplied W' = wreplied W \<and> wunposted W' s = [] \<and> (\<forall>d. endangered W' d \<longrightarrow> endangered W d)"
  using assms
proof (induction "wunposted W s" arbitrary: W)
  case Nil
  then show ?case by (metis rtranclp.rtrancl_refl)
next
  case (Cons t ts)
  obtain W1 where W1: "step hs W W1" "wcache W1 = wcache W" "wfinal W1 = wfinal W" "wfeeder W1 = wfeeder W"
    "wreplied W1 = wreplied W" "wunposted W1 s = ts" "\<forall>d. endangered W1 d \<longrightarrow> endangered W d"
    using post_step [OF Cons.prems Cons.hyps(2) [symmetric]] by auto
  from Cons.hyps(1) [OF W1(6) [symmetric] reach_step [OF Cons.prems W1(1)]] W1 show ?case
    by (metis converse_rtranclp_into_rtranclp)
qed

lemma drain_queue:
  assumes "reachable hs W" "\<not> endangered W d"
  shows "\<exists>W'. (step hs)\<^sup>*\<^sup>* W W' \<and> wcache W' = wcache W \<and> wfinal W' = wfinal W \<and> wfeeder W' = wfeeder W \<and>
    wreplied W' = wreplied W \<and> wunposted W' = wunposted W \<and> wqueue W' d = []"
  using assms
proof (induction "wqueue W d" arbitrary: W)
  case Nil
  then show ?case by (metis rtranclp.rtrancl_refl)
next
  case (Cons t ts)
  obtain W1 where W1: "step hs W W1" "wcache W1 = wcache W" "wfinal W1 = wfinal W" "wfeeder W1 = wfeeder W"
    "wreplied W1 = wreplied W" "wunposted W1 = wunposted W" "wqueue W1 d = ts" "\<not> endangered W1 d"
    using run_step [OF Cons.prems(1) Cons.hyps(2) [symmetric] Cons.prems(2)] by auto
  from Cons.hyps(1) [OF W1(7) [symmetric] reach_step [OF Cons.prems(1) W1(1)] W1(8)] W1 show ?case
    by (metis converse_rtranclp_into_rtranclp)
qed

lemma delivery:
  assumes W: "reachable hs W" and w: "waiters (wcache W) w = Some wt" "\<not> wcancelled wt"
    and fin: "wfinal W w = Some (x, b)" and safe: "\<not> endangered W (wdispatcher wt)"
  shows "\<exists>W'. (step hs)\<^sup>*\<^sup>* W W' \<and> wcache W' = wcache W \<and> wreplied W' = wreplied W \<and>
    heard (wevents W' w) = Some (x, b, True)"
proof -
  obtain W1 where W1: "(step hs)\<^sup>*\<^sup>* W W1" "wcache W1 = wcache W" "wfinal W1 = wfinal W" "wfeeder W1 = wfeeder W"
    "wreplied W1 = wreplied W" "wunposted W1 (wfeeder W w) = []" "\<not> endangered W1 (wdispatcher wt)"
    using drain_unposted [OF W] safe by blast
  have r1: "reachable hs W1" by (rule reach_steps [OF W1(1) W])
  obtain W2 where W2: "(step hs)\<^sup>*\<^sup>* W1 W2" "wcache W2 = wcache W1" "wfinal W2 = wfinal W1" "wfeeder W2 = wfeeder W1"
    "wreplied W2 = wreplied W1" "wunposted W2 = wunposted W1" "wqueue W2 (wdispatcher wt) = []"
    using drain_queue [OF r1 W1(7)] by blast
  have r2: "reachable hs W2" by (rule reach_steps [OF W2(1) r1])
  have "heard (wevents W2 w) = Some (x, b, True)"
    by (rule follower_complete [OF r2 _ w(2)]) (use w(1) fin W1 W2 in simp_all)
  moreover have "(step hs)\<^sup>*\<^sup>* W W2" using W1(1) W2(1) by (rule rtranclp_trans)
  ultimately show ?thesis using W1(2,5) W2(2,5) by auto
qed


text \<open>
  And this is how a dispatcher gets endangered: a follower gets a reply from outside the
  cache, its stream is destroyed, and the leader publishes the next part of the response.
\<close>

lemma reply_destroys:
  assumes f: "wfilters W s = Some f" "frole f = FollowerRole" and idle: "wunposted W s = []"
  obtains W' where "(step hs)\<^sup>*\<^sup>* W W'" "wcache W' = wcache W" "wfilters W' = (wfilters W)(s := None)"
    "wphase W' = wphase W" "wunposted W' = wunposted W" "s \<in> wreplied W'"
proof -
  have enc: "encodeHeaders hs undefined True f (wcache W) = Inr (Continue, f\<lparr>fdone := True\<rparr>, wcache W, [])"
    by (simp add: encodeHeaders_def f(2))
  obtain W1 where W1: "step hs W W1" "wcache W1 = wcache W" "wfilters W1 = (wfilters W)(s := Some (f\<lparr>fdone := True\<rparr>))"
    "wphase W1 = wphase W" "wunposted W1 = wunposted W" "s \<in> wreplied W1"
    by (rule that [OF step.other_headers [OF f(1) _ enc]]) (simp_all add: f(2))
  have W1s: "wfilters W1 s = Some (f\<lparr>fdone := True\<rparr>)" "wunposted W1 s = []" using W1(3,5) idle by simp_all
  have des: "onDestroy (f\<lparr>fdone := True\<rparr>) (wcache W1) = Inr (wcache W1)" by (simp add: onDestroy_def)
  obtain W2 where "step hs W1 W2" "wcache W2 = wcache W" "wfilters W2 = (wfilters W)(s := None)"
    "wphase W2 = wphase W" "wunposted W2 = wunposted W" "s \<in> wreplied W2"
    by (rule that [OF step.destroy [OF W1s _ des]]) (simp_all add: W1)
  then show thesis
    by (intro that [of W2] rtranclp.rtrancl_into_rtrancl [OF r_into_rtranclp [of "step hs", OF W1(1)]])
qed

lemma reply_endangers:
  assumes W: "reachable hs W" and f: "wfilters W s = Some f" "frole f = FollowerRole" "fwaiter f = Some w"
    and wt: "waiters (wcache W) w = Some wt" "\<not> wcancelled wt"
    and g: "wfilters W l = Some g" "frole g = LeaderRole" "wphase W l = Streaming"
    and i: "inflight_map (wcache W) (fkey g) = Some i" "w \<in> set (iwaiters i)"
    and idle: "wunposted W s = []" "wunposted W l = []"
  shows "\<exists>W'. (step hs)\<^sup>*\<^sup>* W W' \<and> endangered W' (wdispatcher wt)"
proof -
  obtain W2 where W2: "(step hs)\<^sup>*\<^sup>* W W2" "wcache W2 = wcache W" "wfilters W2 = (wfilters W)(s := None)"
    "wphase W2 = wphase W" "wunposted W2 = wunposted W" "s \<in> wreplied W2"
    by (rule reply_destroys [OF f(1,2) idle(1)])
  have r2: "reachable hs W2" by (rule reach_steps [OF W2(1) W])
  have cb: "wcallbacks wt = s" using followersD(2) [OF base_invD(4) [OF reachable_feedD(1) [OF W]] f(1,2)] f(3) wt(1) by auto
  have ls: "l \<noteq> s" using g(1,2) f(1,2) by auto
  then have g2: "wfilters W2 l = Some g" "wphase W2 l = Streaming" "wunposted W2 l = []" using g idle W2 by auto
  have fits: "\<forall>j. inflight_map (wcache W2) (fkey g) = Some j \<longrightarrow> response_bytes hs (fkey g) (iheaders j) (ibody j @ []) < 2 ^ 64"
    using cache_invD(3) [OF base_invD(1) [OF reachable_feedD(1) [OF r2]]] by (simp add: inflights_ok_def inflight_ok_def)
  obtain c' ts where pub: "encodeData hs [] False g (wcache W2) = Inr (Continue, g, c', ts)"
    "publishes hs (fkey g) False (wcache W2) c' ts (fst (wsent W2 l), snd (wsent W2 l) @ [])"
    by (rule encodeData_publishes [OF reachable_feedD(1) [OF r2] g2(1) g(2) g2(2) fits, of False]) simp
  have "map task_waiter ts = iwaiters i" using pub(2) i(1) W2(2) by (auto simp: publishes_def)
  then obtain t where t: "t \<in> set ts" "task_waiter t = w" using i(2) by (metis imageE set_map)
  have ws: "waiters c' = waiters (wcache W)" using publishes_frame(1) [OF pub(2)] W2(2) by simp
  obtain W3 where W3: "step hs W2 W3" "wcache W3 = c'" "wunposted W3 l = ts" "s \<in> wreplied W3" "wfilters W3 s = None"
    by (rule that [OF step.upstream_data [OF g2(1) g(2) g2(2,3) fits pub(1) refl]])
      (use ls W2(3,6) in simp_all)
  have "t \<in> pending W3" using t(1) W3(3) pendingI(2) [of W3 l] by blast
  then have "endangered W3 (wdispatcher wt)"
    unfolding endangered_def dangling_def using W3(2,4,5) ws wt cb t(2) by auto
  then show ?thesis using rtranclp.rtrancl_into_rtrancl [OF W2(1) W3(1)] by blast
qed

section \<open>Hits\<close>

lemma serve_hit_events:
  assumes W: "reachable hs W" and sv: "(s, p, f) \<in># wserving W"
  shows "\<exists>f' c' fr evs h b. finish_hit p f (wcache W) = Inr (f', c', fr, evs) \<and>
    (Some h, b) \<in> set (wcomplete W (fkey f)) \<and> heard evs = Some (Some h, b, True)"
proof -
  obtain e where e: "entries (wcache W) p = Some e" "ekey e = fkey f"
    using entries_okD(3) [OF reachable_hitsD(3) [OF W] sv] by blast
  obtain h where h: "eheaders e = Some h" using entries_okD(2) [OF reachable_hitsD(3) [OF W] e(1)] by blast
  have "(Some h, ebody e) \<in> set (wcomplete W (fkey f))"
    using entries_okD(1) [OF reachable_hitsD(3) [OF W] e(1)] h e(2) by simp
  moreover have "fdecoder f \<noteq> None"
    using base_invD(3) [OF reachable_hitsD(1) [OF W]] sv unfolding streams_ok_def by blast
  then obtain f' c' fr evs where "finish_hit p f (wcache W) = Inr (f', c', fr, evs)"
    "heard evs = Some (Some h, ebody e, True)"
    using e(1) h
    by (cases "ebody e = []")
      (auto simp: finish_hit_def serve_hit_def unpin_def apply_lookup_def Let_def heard_def heard_from_def)
  ultimately show ?thesis by blast
qed

lemma held_alive:
  assumes W: "reachable hs W" and p: "0 < holders W p"
  shows "\<exists>e. entries (wcache W) p = Some e \<and> unat (epins e) = holders W p"
  by (rule held_entry [OF reachable_hitsD(2) [OF W] p]) blast

lemma release_ok:
  assumes W: "reachable hs W" and p: "p \<in># wfragments W"
  shows "\<exists>c'. release_fragment p (wcache W) = Inr c'"
proof -
  obtain e where "entries (wcache W) p = Some e"
    using held_alive [OF W fragment_holder [OF p]] by blast
  then show ?thesis by (simp add: release_fragment_def unpin_def)
qed

section \<open>A key without a leader\<close>

definition orphaned :: "key_t \<Rightarrow> 'h world \<Rightarrow> bool" where
  "orphaned k W \<longleftrightarrow> inflight_map (wcache W) k \<noteq> None \<and>
     (\<forall>s f. wfilters W s = Some f \<longrightarrow> frole f = LeaderRole \<longrightarrow> fkey f = k \<longrightarrow> wphase W s = Complete)"

lemma effect_orphaned:
  assumes inv: "base_inv hs W" and orph: "orphaned k W" and eff: "effect hs W W'"
  shows "orphaned k W'"
proof -
  have inf: "inflight_map (wcache W) k \<noteq> None"
    and none: "\<And>s f. wfilters W s = Some f \<Longrightarrow> frole f = LeaderRole \<Longrightarrow> fkey f = k \<Longrightarrow> wphase W s = Complete"
    using orph unfolding orphaned_def by blast+
  show ?thesis
    using eff
  proof cases
    case (publish s f f' fin c' ts r)
    have "fkey f \<noteq> k" using none [OF publish(2,3)] publish(4) by blast
    then have "inflight_map c' k = inflight_map (wcache W) k" using publishes_frame(3) [OF publish(8), of k] by metis
    then show ?thesis
      using publish(1,7) inf none \<open>fkey f \<noteq> k\<close> by (auto simp: orphaned_def split: if_splits)
  next
    case (served s p f M e f' c' fr)
    have "inflight_map c' = inflight_map (wcache W)" using served(5) by (auto split: if_splits)
    then show ?thesis using served(1,4) inf none by (auto simp: orphaned_def)
  next
    case (lead f)
    then have "fkey f \<noteq> k" using inf by metis
    then show ?thesis using lead(1) inf none by (auto simp: orphaned_def set_inflight_def)
  qed (use inf none in \<open>auto simp: orphaned_def set_inflight_def attach_waiter_def split: if_splits\<close>)
qed

interpretation orphans: inductive_invariant "\<lambda>W. reachable hs W \<and> orphaned k W" "step hs" "\<lambda>W. reachable hs W \<and> orphaned k W"
  for hs :: "'h \<Rightarrow> size_t" and k
proof unfold_locales
  fix W W' :: "'h world" assume W: "reachable hs W \<and> orphaned k W" and st: "step hs W W'"
  have "base_inv hs W" using W reachable_hitsD(1) by blast
  then have "orphaned k W'" using effect_orphaned step_effect W st by blast
  moreover have "reachable hs W'" using reach_step [where step = "step hs"] W st by blast
  ultimately show "reachable hs W' \<and> orphaned k W'" by simp
qed

end
