(* ===== verification/Ring_Sample.thy ===== *)
theory Ring_Sample
  imports Ring_Delivery
begin

text \<open>
  One concrete run of the system: a leader and a follower for the same key, a response of
  headers and one chunk, and two hits after it.
\<close>

lemma upd_const [simp]: "(\<lambda>_. x)(a := x) = (\<lambda>_. x)"
  by auto

lemma mark_final_simps [simp]:
  "mark_final False ts r m = m" "mark_final True [t] r m = m(task_waiter t \<mapsto> r)"
  by (auto simp: mark_final_def)

lemma replicate_2: "replicate 2 x = [x, x]"
  by (simp add: numeral_2_eq_2)

lemma evict_no_work:
  assumes "n \<le> capacity c" "\<not> lacks_space n c" "unat (head c) < length (slots c)" "slots c ! unat (head c) = None"
  shows "evictTillCapacityLocked hs n c = Inr (True, c)"
  using assms by (simp add: evictTillCapacityLocked_def slot_at_head_def not_less)

definition sample_key :: key_t where
  "sample_key = ''a'' @ Separator @ ''/''"

definition sample_filter :: "stream \<Rightarrow> nat \<Rightarrow> filter_state" where
  "sample_filter s d = new_filter s d ''a'' ''/''"

definition world0 :: "nat world" where
  "world0 = \<lparr>wcache = RingBufferCache 100 2, wfilters = Map.empty, wphase = (\<lambda>_. AwaitHeaders), wnext = 0,
     wserving = {#}, wfragments = {#}, wunposted = (\<lambda>_. []), wqueue = (\<lambda>_. []), wran = (\<lambda>_. []),
     wevents = (\<lambda>_. []), wleader = (\<lambda>_. 0), wfeeder = (\<lambda>_. 0), wsent = (\<lambda>_. (None, [])), wfinal = Map.empty,
     wcomplete = (\<lambda>_. []), wreplied = {}\<rparr>"

definition world1 :: "nat world" where
  "world1 = world0\<lparr>wcache := set_inflight sample_key empty_inflight (RingBufferCache 100 2),
     wfilters := [0 \<mapsto> (sample_filter 0 0)\<lparr>frole := LeaderRole\<rparr>], wnext := 1\<rparr>"

lemma sample_filter_simps [simp]:
  "fkey (sample_filter s d) = sample_key" "fdecoder (sample_filter s d) = Some (Callbacks s d)"
  "fdone (sample_filter s d) = False" "frole (sample_filter s d) = Unset"
  by (simp_all add: sample_filter_def new_filter_simps sample_key_def)

lemma sample_request:
  "begin_request (sample_filter s d) c =
     and_then (lookup_locked sample_key (Some (Callbacks s d)) c) (\<lambda>(l, c1, ts).
       case l of
         LockedHit p \<Rightarrow> Inr (Serving p (sample_filter s d), c1, ts)
       | LockedDone r \<Rightarrow> and_then (apply_lookup r (sample_filter s d)) (\<lambda>(st, f1, evs). Inr (Finished st f1 evs, c1, ts)))"
  by (simp add: begin_request_def)

lemma step1: "step of_nat world0 world1"
proof -
  have c: "wcache world0 = RingBufferCache 100 2" by (simp add: world0_def)
  have "begin_request (sample_filter 0 0) (wcache world0) =
      Inr (Finished Continue ((sample_filter 0 0)\<lparr>frole := LeaderRole\<rparr>) [],
        set_inflight sample_key empty_inflight (RingBufferCache 100 2), [])"
    unfolding c sample_request
    by (simp add: lookup_locked_def RingBufferCache_def set_inflight_def apply_lookup_def)
  from step.request_leader [OF _ _ _ _ this, of "''a''" "''/''" 0] show ?thesis
    by (simp add: sample_filter_def [symmetric]) (simp add: world1_def world0_def sample_key_def fun_upd_idem Separator_def)
qed


definition sample_inflight :: "nat option \<Rightarrow> nat Inflight" where
  "sample_inflight x = \<lparr>iheaders = x, ibody = [], iwaiters = [0]\<rparr>"

definition sample_cache :: "nat option \<Rightarrow> nat cache" where
  "sample_cache x = (RingBufferCache 100 2)\<lparr>inflight_map := [sample_key \<mapsto> sample_inflight x],
     waiters := [0 \<mapsto> \<lparr>wdispatcher = 1, wcallbacks = 1, wcancelled = False\<rparr>], next_waiter := 1\<rparr>"

definition world2 :: "nat world" where
  "world2 = world1\<lparr>wcache := sample_cache None,
     wfilters := [0 \<mapsto> (sample_filter 0 0)\<lparr>frole := LeaderRole\<rparr>,
                  1 \<mapsto> (sample_filter 1 1)\<lparr>frole := FollowerRole, fwaiter := Some 0\<rparr>], wnext := 2\<rparr>"

lemma step2: "step of_nat world1 world2"
proof -
  have "begin_request (sample_filter 1 1) (wcache world1) =
      Inr (Finished StopIteration ((sample_filter 1 1)\<lparr>frole := FollowerRole, fwaiter := Some 0\<rparr>) [], sample_cache None, [])"
    unfolding sample_request
    by (simp add: lookup_locked_def world1_def RingBufferCache_def set_inflight_def apply_lookup_def
        attachBackfillWaiterLocked_def empty_inflight_def sample_cache_def sample_inflight_def Let_def)
  moreover have "wnext world1 = 1" "wqueue world1 = (\<lambda>_. [])" "wphase world1 = (\<lambda>_. AwaitHeaders)" "wleader world1 = (\<lambda>_. 0)"
      "wfeeder world1 = (\<lambda>_. 0)"
    by (simp_all add: world1_def world0_def)
  ultimately show ?thesis
    using step.request_follower [of "''a''" "''/''" "sample_filter 1 1" world1 1 StopIteration
        "(sample_filter 1 1)\<lparr>frole := FollowerRole, fwaiter := Some 0\<rparr>" "[]" "sample_cache None" "[]" 0 of_nat]
    by (simp add: sample_filter_def [symmetric] fun_upd_idem)
      (simp add: world2_def world1_def world0_def fun_upd_idem numeral_2_eq_2)
qed

definition world3 :: "nat world" where
  "world3 = world2\<lparr>wcache := sample_cache (Some 5), wphase := (\<lambda>_. AwaitHeaders)(0 := Streaming),
     wunposted := (\<lambda>_. [])(0 := [FeedHeaders 0 5 False]), wsent := (\<lambda>_. (None, []))(0 := (Some 5, []))\<rparr>"

lemma sample_key_length [simp]: "length sample_key = 5"
  by (simp add: sample_key_def Separator_def)

lemma step3: "step of_nat world2 world3"
proof -
  let ?f = "(sample_filter 0 0)\<lparr>frole := LeaderRole\<rparr>"
  have W: "wfilters world2 0 = Some ?f" "wphase world2 0 = AwaitHeaders" "wunposted world2 0 = []"
    by (simp_all add: world2_def world1_def world0_def)
  have "encodeHeaders of_nat 5 False ?f (wcache world2) = Inr (Continue, ?f, sample_cache (Some 5), [FeedHeaders 0 5 False])"
    by (simp add: encodeHeaders_def publishHeaders_def world2_def sample_cache_def sample_inflight_def)
  from step.upstream_headers [OF W(1) _ W(2,3) _ this refl] show ?thesis
    by (simp add: response_bytes_def mark_complete_def)
      (simp add: world3_def world2_def world1_def world0_def fun_upd_idem)
qed

definition world4 :: "nat world" where
  "world4 = world3\<lparr>wunposted := (\<lambda>_. []), wqueue := (\<lambda>_. [])(1 := [FeedHeaders 0 5 False])\<rparr>"

lemma step4: "step of_nat world3 world4"
proof -
  have "wunposted world3 0 = [FeedHeaders 0 5 False]" by (simp add: world3_def)
  moreover have "waiters (wcache world3) (task_waiter (FeedHeaders 0 (5::nat) False)) = Some \<lparr>wdispatcher = 1, wcallbacks = 1, wcancelled = False\<rparr>"
    by (simp add: world3_def sample_cache_def)
  ultimately have "step of_nat world3 (world3\<lparr>wunposted := (wunposted world3)(0 := []),
      wqueue := (wqueue world3)(1 := wqueue world3 1 @ [FeedHeaders 0 5 False])\<rparr>)"
    using step.post [of world3 0 "FeedHeaders 0 5 False" "[]"] by fastforce
  then show ?thesis by (simp add: world4_def world3_def world2_def world1_def world0_def)
qed

definition cached_cache :: "uint32 \<Rightarrow> nat cache" where
  "cached_cache pins = (RingBufferCache 100 2)\<lparr>used_size := 12, cache_map := [sample_key \<mapsto> 0], slots := [Some 0, None],
     head := 1, entries := [0 \<mapsto> \<lparr>ekey = sample_key, eheaders = Some 5, ebody = ''xy'', epins = pins\<rparr>], next_entry := 1,
     waiters := [0 \<mapsto> \<lparr>wdispatcher = 1, wcallbacks = 1, wcancelled = False\<rparr>], next_waiter := 1\<rparr>"

definition world5 :: "nat world" where
  "world5 = world4\<lparr>wcache := cached_cache 0,
     wfilters := [1 \<mapsto> (sample_filter 1 1)\<lparr>frole := FollowerRole, fwaiter := Some 0\<rparr>,
                  0 \<mapsto> (sample_filter 0 0)\<lparr>frole := LeaderRole, fdone := True\<rparr>],
     wphase := (\<lambda>_. AwaitHeaders)(0 := Complete), wunposted := (\<lambda>_. [])(0 := [FeedData 0 ''xy'' True]),
     wsent := (\<lambda>_. (None, []))(0 := (Some 5, ''xy'')), wfinal := [0 \<mapsto> (Some 5, ''xy'')],
     wcomplete := (\<lambda>_. [])(sample_key := [(Some 5, ''xy'')])\<rparr>"

lemma step5: "step of_nat world4 world5"
proof -
  let ?f = "(sample_filter 0 0)\<lparr>frole := LeaderRole\<rparr>"
  have W: "wfilters world4 0 = Some ?f" "wphase world4 0 = Streaming" "wunposted world4 0 = []"
    by (simp_all add: world4_def world3_def world2_def)
  have enc: "encodeData of_nat ''xy'' True ?f (wcache world4) =
      Inr (Continue, ?f\<lparr>fdone := True\<rparr>, cached_cache 0, [FeedData 0 ''xy'' True])"
    by (simp add: encodeData_def publishData_def world4_def world3_def sample_cache_def sample_inflight_def
        finalizeLocked_def inflight_size_def evict_no_work RingBufferCache_def string_size_def lacks_space_def
        slot_at_head_def insertEntryLocked_def entry_size_def advance_head_def cached_cache_def Let_def replicate_2)
  have fits: "\<forall>i. inflight_map (wcache world4) (fkey ?f) = Some i \<longrightarrow>
      response_bytes of_nat (fkey ?f) (iheaders i) (ibody i @ ''xy'') < 2 ^ 64"
    by (simp add: world4_def world3_def sample_cache_def sample_inflight_def response_bytes_def)
  from step.upstream_data [OF W(1) _ W(2,3) fits enc refl] show ?thesis
    by (simp add: mark_complete_def world4_def world3_def world2_def world1_def world0_def world5_def)
qed


definition world6 :: "nat world" where
  "world6 = world5\<lparr>wcache := cached_cache 1, wnext := 3, wserving := {#(2, 0, sample_filter 2 0)#}\<rparr>"

definition world7 :: "nat world" where
  "world7 = world6\<lparr>wcache := cached_cache 2, wnext := 4,
     wserving := {#(3, 0, sample_filter 3 0), (2, 0, sample_filter 2 0)#}\<rparr>"

lemma sample_hit:
  "begin_request (sample_filter s d) (cached_cache n) = Inr (Serving 0 (sample_filter s d), cached_cache (n + 1), [])"
  unfolding sample_request by (simp add: lookup_locked_def cached_cache_def)

lemma step6: "step of_nat world5 world6"
proof -
  have W: "wcache world5 = cached_cache 0" "wnext world5 = 2" "holders world5 0 = 0" "wserving world5 = {#}"
    by (simp_all add: world5_def world4_def world3_def world2_def world1_def world0_def holders_def)
  show ?thesis
    using step.request_hit [of "''a''" "''/''" "sample_filter 2 0" world5 0 0 "sample_filter 2 0" "cached_cache 1" "[]" of_nat]
    using sample_hit [of 2 0 "0"]
    by (simp add: W) (simp add: sample_filter_def [symmetric] world6_def)
qed

lemma step7: "step of_nat world6 world7"
proof -
  have W: "wcache world6 = cached_cache 1" "wnext world6 = 3" "holders world6 0 = 1" "wserving world6 = {#(2, 0, sample_filter 2 0)#}"
    by (simp_all add: world6_def world5_def world4_def world3_def world2_def world1_def world0_def holders_def)
  show ?thesis
    using step.request_hit [of "''a''" "''/''" "sample_filter 3 0" world6 0 0 "sample_filter 3 0" "cached_cache 2" "[]" of_nat]
    using sample_hit [of 3 0 "1"]
    by (simp add: W) (simp add: sample_filter_def [symmetric] world7_def)
qed

definition world8 :: "nat world" where
  "world8 = world7\<lparr>wserving := {#(3, 0, sample_filter 3 0)#}, wfragments := {#0#},
     wfilters := (wfilters world7)(2 := Some ((sample_filter 2 0)\<lparr>frole := Cached, fdone := True\<rparr>)),
     wphase := (wphase world7)(2 := Complete)\<rparr>"

lemma step8: "step of_nat world7 world8"
proof -
  have W: "wcache world7 = cached_cache 2" "wfragments world7 = {#}"
    "wserving world7 = add_mset (2, 0, sample_filter 2 0) {#(3, 0, sample_filter 3 0)#}"
    by (simp_all add: world7_def world6_def world5_def world4_def world3_def world2_def world1_def world0_def)
  have "finish_hit 0 (sample_filter 2 0) (wcache world7) =
      Inr ((sample_filter 2 0)\<lparr>frole := Cached, fdone := True\<rparr>, cached_cache 2, Some 0,
        [EncodeHeaders 5 False RingCacheDetailsMessageHit, EncodeData ''xy'' True])"
    by (simp add: W finish_hit_def serve_hit_def cached_cache_def apply_lookup_def Let_def)
  from step.serve [OF W(3) this, of of_nat] have "step of_nat world7 (world7\<lparr>wcache := wcache world7,
      wserving := {#(3, 0, sample_filter 3 0)#}, wfragments := {#0#},
      wfilters := (wfilters world7)(2 := Some ((sample_filter 2 0)\<lparr>frole := Cached, fdone := True\<rparr>)),
      wphase := (wphase world7)(2 := Complete)\<rparr>)"
    by (simp add: W)
  then show ?thesis by (simp add: world8_def)
qed

lemmas sample_steps = step1 step2 step3 step4 step5 step6 step7 step8

lemma sample_init: "init_world world0"
  by (simp add: init_world_def world0_def) (intro exI [of _ 100] exI [of _ 2] conjI; simp)

lemma sample_reachable:
  "reachable of_nat world0" "reachable of_nat world1" "reachable of_nat world2" "reachable of_nat world3"
  "reachable of_nat world4" "reachable of_nat world5" "reachable of_nat world6" "reachable of_nat world7" "reachable of_nat world8"
proof -
  show r0: "reachable of_nat world0" by (rule reach_init) (rule sample_init)
  show r1: "reachable of_nat world1" by (rule reach_step [OF r0 step1])
  show r2: "reachable of_nat world2" by (rule reach_step [OF r1 step2])
  show r3: "reachable of_nat world3" by (rule reach_step [OF r2 step3])
  show r4: "reachable of_nat world4" by (rule reach_step [OF r3 step4])
  show r5: "reachable of_nat world5" by (rule reach_step [OF r4 step5])
  show r6: "reachable of_nat world6" by (rule reach_step [OF r5 step6])
  show r7: "reachable of_nat world7" by (rule reach_step [OF r6 step7])
  show "reachable of_nat world8" by (rule reach_step [OF r7 step8])
qed

definition orphan_world :: "nat world" where
  "orphan_world = world1\<lparr>wfilters := Map.empty\<rparr>"

lemma orphan_reachable: "reachable of_nat orphan_world"
proof -
  have W: "wfilters world1 0 = Some ((sample_filter 0 0)\<lparr>frole := LeaderRole\<rparr>)" "wunposted world1 0 = []"
    by (simp_all add: world1_def world0_def)
  have "step of_nat world1 (world1\<lparr>wcache := wcache world1, wfilters := (wfilters world1)(0 := None)\<rparr>)"
    by (rule step.destroy [OF W]) (simp_all add: onDestroy_def)
  moreover have "world1\<lparr>wcache := wcache world1, wfilters := (wfilters world1)(0 := None)\<rparr> = orphan_world"
    by (simp add: orphan_world_def world1_def)
  ultimately show ?thesis using reach_step [OF sample_reachable(2)] by simp
qed

end
