(* ===== verification/Ring_Response.thy ===== *)
theory Ring_Response
  imports Ring_System
begin

text \<open>
  The cache as its clients see it: the responses it holds and the responses being collected,
  what a lookup returns, when a finished response is kept, and a whole response published
  chunk by chunk.
\<close>

fun put_all :: "(string \<Rightarrow> bool \<Rightarrow> 'c \<Rightarrow> 'e + 'c) \<Rightarrow> string list \<Rightarrow> 'c \<Rightarrow> 'e + 'c" where
  "put_all put [] c = Inr c"
| "put_all put (d # ds) c = and_then (put d (ds = []) c) (put_all put ds)"

section \<open>Lookup\<close>

definition lookup_answer ::
    "'h cache \<Rightarrow> key_t \<Rightarrow> callbacks \<Rightarrow> 'h LookupResult \<Rightarrow> 'h cache \<Rightarrow> 'h task list \<Rightarrow> bool" where
  "lookup_answer c k cbs r c' ts \<longleftrightarrow>
     (\<forall>k'. cached_response c' k' = cached_response c k') \<and>
     (case rtype r of
        Hit \<Rightarrow> (\<exists>hit. rhit r = Some hit \<and> cached_response c k = Some (hheaders hit, hbody hit)) \<and>
               rwaiter r = None \<and> ts = [] \<and> inflight_map c' = inflight_map c
      | Leader \<Rightarrow> cached_response c k = None \<and> pending_response c k = None \<and> rhit r = None \<and> rwaiter r = None \<and>
               ts = [] \<and> inflight_map c' = (inflight_map c)(k \<mapsto> empty_inflight)
      | Follower \<Rightarrow> cached_response c k = None \<and> rhit r = None \<and>
               (\<exists>i w. inflight_map c k = Some i \<and> rwaiter r = Some w \<and> waiters c w = None \<and>
                  waiters c' w = Some \<lparr>wdispatcher = cb_dispatcher cbs, wcallbacks = cb_id cbs, wcancelled = False\<rparr> \<and>
                  inflight_map c' = (inflight_map c)(k \<mapsto> i\<lparr>iwaiters := iwaiters i @ [w]\<rparr>) \<and>
                  receive ts = Some (iheaders i, ibody i, False) \<and> task_waiter ` set ts \<subseteq> {w}))"

lemma lookup_ok:
  assumes inv: "cache_inv hs c" and k: "length k < 2 ^ 64"
  shows "\<exists>r c' ts. lookup k (Some cbs) c = Inr (r, c', ts) \<and> cache_inv hs c' \<and> lookup_answer c k cbs r c' ts"
proof (cases "cache_map c k")
  case (Some p)
  obtain e h where e: "entries c p = Some e" "eheaders e = Some h" "cached_response c k = Some (h, ebody e)"
    by (rule hit_entry [OF inv Some])
  show ?thesis
    unfolding lookup_hit(2) [OF Some e(1,2)] using cache_inv_set_pins [OF inv e(1)] e
    by (auto simp: lookup_answer_def)
next
  case None
  then have none: "cached_response c k = None" by (rule cached_response_None)
  show ?thesis
  proof (cases "inflight_map c k")
    case n: None
    then show ?thesis
      unfolding lookup_leader(2) [OF None n] using cache_inv_leader [OF inv None n k] none
      by (auto simp: lookup_answer_def pending_response_def)
  next
    case (Some i)
    then have ok: "iheaders i = None \<longrightarrow> ibody i = []"
      using cache_invD(3) [OF inv] by (simp add: inflights_ok_def inflight_ok_def)
    have fresh: "waiters c (next_waiter c) = None"
      using cache_invD(4) [OF inv] unfolding waiters_ok_def by blast
    have "receive (backfill_tasks (next_waiter c) i) = Some (iheaders i, ibody i, False)"
      "task_waiter ` set (backfill_tasks (next_waiter c) i) \<subseteq> {next_waiter c}"
      using ok by (auto simp: backfill_tasks_def receive_def split: option.splits)
    moreover have "cached_response (attach_waiter k i cbs c) k' = cached_response c k'" for k'
      by (simp add: cached_response_def attach_waiter_def split: option.splits)
    ultimately show ?thesis
      unfolding lookup_follower(2) [OF None Some ok] using cache_inv_attach [OF inv Some] none fresh Some
      by (auto simp: lookup_answer_def attach_waiter_def)
  qed
qed

section \<open>When a response is kept\<close>

definition room_for :: "size_t \<Rightarrow> 'h cache \<Rightarrow> bool" where
  "room_for need c \<longleftrightarrow>
     need \<le> capacity c \<and> (\<forall>p e. entries c p = Some e \<longrightarrow> epins e = 0) \<and>
     (lacks_space need c \<or> (\<exists>j < length (slots c). slots c ! j = None))"

lemma empty_store_unused:
  assumes "storage_inv hs c" "\<forall>p. entries c p = None"
  shows "used_size c = 0"
proof -
  have "s = None" if "s \<in> set (slots c)" for s
    using assms that by (cases s) (auto simp: storage_inv_def owns_entries_def)
  then have "stored_bytes hs c = 0" by (fastforce simp: stored_bytes_def slot_bytes_def)
  then show ?thesis using assms(1) by (simp add: storage_inv_def accounted_def unat_eq_0)
qed

lemma evict_succeeds:
  assumes inv: "storage_inv hs c" and room: "room_for need c"
  shows "\<exists>c'. evictTillCapacityLocked hs need c = Inr (True, c')"
proof -
  obtain ok c' where c': "evictTillCapacityLocked hs need c = Inr (ok, c')" "storage_inv hs c'" "evicts_to c c'"
    "\<not> ok \<Longrightarrow> refused need c c'"
    using evictTillCapacityLocked_ok [OF inv, of need] by blast
  have "\<not> refused need c c'"
  proof
    assume "refused need c c'"
    then have lack: "lacks_space need c'" and pinned: "\<forall>p e. entries c' p = Some e \<longrightarrow> epins e \<noteq> 0"
      using room unfolding refused_def room_for_def by auto
    have "\<forall>p. entries c' p = None"
      using pinned room evicts_to_sub [OF c'(3)] unfolding room_for_def by (metis not_None_eq)
    from empty_store_unused [OF c'(2) this] lack room evicts_to_frame(1) [OF c'(3)] show False
      by (auto simp: lacks_space_def room_for_def)
  qed
  then show ?thesis using c'(1,4) by auto
qed

lemma finalize_kept:
  assumes inv: "cache_inv hs c" and i: "inflight_map c key = Some i" "iheaders i = Some h"
    and room: "room_for (needed hs key i) c"
  shows "\<exists>c'. finalizeLocked hs key c = Inr c' \<and> cached_response c' key = Some (h, ibody i)"
proof -
  obtain c1 where ok: "evictTillCapacityLocked hs (needed hs key i) c = Inr (True, c1)"
    using evict_succeeds [OF cache_invD(1) [OF inv] room] by blast
  have "iheaders i \<noteq> None" using i(2) by simp
  from inv i(1) this show ?thesis
  proof (cases rule: finalizeLocked_cases)
    case (cached c2)
    then show ?thesis using i(2) by (simp add: cached_response_def with_entry_def finished_entry_def)
  next
    case (dropped c2)
    then show ?thesis using ok by simp
  qed
qed

text \<open>The two cases in which a finished response is dropped and nothing is evicted.\<close>

definition no_room :: "size_t \<Rightarrow> 'h cache \<Rightarrow> bool" where
  "no_room need c \<longleftrightarrow> capacity c < need \<or>
     (\<not> lacks_space need c \<and> (\<forall>j < length (slots c). slots c ! j \<noteq> None))"

lemma evict_refuses:
  assumes inv: "storage_inv hs c" and none: "no_room need c"
  shows "evictTillCapacityLocked hs need c = Inr (False, c)"
proof (cases "capacity c < need")
  case True
  then show ?thesis by (simp add: evictTillCapacityLocked_def)
next
  case False
  then have full: "\<not> lacks_space need c" "\<forall>j < length (slots c). slots c ! j \<noteq> None"
    using none by (simp_all add: no_room_def)
  have ring: "ring_ok c" using inv by (simp add: storage_inv_def)
  have "(\<exists>h. free_slot_loop (Suc (unat (slot_count c))) (head c) c = Inr (True, c\<lparr>head := h\<rparr>)
            \<and> h < slot_count c \<and> slots c ! unat h = None)
      \<or> (free_slot_loop (Suc (unat (slot_count c))) (head c) c = Inr (False, c\<lparr>head := head c\<rparr>)
            \<and> (\<forall>j. j < length (slots c) \<longrightarrow> slots c ! j \<noteq> None))"
    by (rule free_slot_loop_ok [OF inv ring_head_in_range [OF ring]])
      (use ring ahead_less [OF ring_head_in_range [OF ring]] in \<open>auto simp: ring_ok_def dest: leD\<close>)
  moreover have "\<not> (h < slot_count c \<and> slots c ! unat h = None)" for h
    using full(2) ring by (auto simp: ring_ok_def word_less_nat_alt)
  ultimately have "free_slot_loop (Suc (unat (slot_count c))) (head c) c = Inr (False, c)" by auto
  then show ?thesis using False full(1) by (simp add: evictTillCapacityLocked_def del: free_slot_loop.simps)
qed

lemma finalize_dropped:
  assumes inv: "cache_inv hs c" and i: "inflight_map c key = Some i" "iheaders i \<noteq> None"
    and none: "no_room (needed hs key i) c"
  shows "finalizeLocked hs key c = Inr (c\<lparr>inflight_map := (inflight_map c)(key := None)\<rparr>)"
  using inv i by (cases rule: finalizeLocked_cases) (simp_all add: evict_refuses [OF cache_invD(1) [OF inv] none])

section \<open>The contract of a response store\<close>

text \<open>
  What a leader relies on when it publishes.  \<open>stored\<close> and \<open>pending\<close> are the responses a
  store serves and collects; after the last part of a response the store serves it under its
  key or nothing, and every other key it still serves is unchanged.
\<close>

locale response_store =
  fixes inv :: "'c \<Rightarrow> bool"
    and stored :: "'c \<Rightarrow> 'k \<Rightarrow> ('h \<times> string) option"
    and pending :: "'c \<Rightarrow> 'k \<Rightarrow> ('h option \<times> string) option"
    and fits :: "'k \<Rightarrow> 'h option \<Rightarrow> string \<Rightarrow> bool"
    and put_headers :: "'k \<Rightarrow> 'h \<Rightarrow> bool \<Rightarrow> 'c \<Rightarrow> 'e + 'c"
    and put_data :: "'k \<Rightarrow> string \<Rightarrow> bool \<Rightarrow> 'c \<Rightarrow> 'e + 'c"
  assumes fits_prefix: "fits k x (b @ d) \<Longrightarrow> fits k x b"
    and headers_more: "inv c \<Longrightarrow> pending c k = Some (None, b) \<Longrightarrow> fits k (Some h) b \<Longrightarrow>
      \<exists>c'. put_headers k h False c = Inr c' \<and> inv c' \<and> pending c' = (pending c)(k \<mapsto> (Some h, b)) \<and> stored c' = stored c"
    and headers_last: "inv c \<Longrightarrow> pending c k = Some (None, b) \<Longrightarrow> fits k (Some h) b \<Longrightarrow>
      \<exists>c'. put_headers k h True c = Inr c' \<and> inv c' \<and> pending c' = (pending c)(k := None) \<and>
        stored c' \<subseteq>\<^sub>m (stored c)(k \<mapsto> (h, b))"
    and data_more: "inv c \<Longrightarrow> pending c k = Some (Some h, b) \<Longrightarrow> fits k (Some h) (b @ d) \<Longrightarrow>
      \<exists>c'. put_data k d False c = Inr c' \<and> inv c' \<and> pending c' = (pending c)(k \<mapsto> (Some h, b @ d)) \<and> stored c' = stored c"
    and data_last: "inv c \<Longrightarrow> pending c k = Some (Some h, b) \<Longrightarrow> fits k (Some h) (b @ d) \<Longrightarrow>
      \<exists>c'. put_data k d True c = Inr c' \<and> inv c' \<and> pending c' = (pending c)(k := None) \<and>
        stored c' \<subseteq>\<^sub>m (stored c)(k \<mapsto> (h, b @ d))"
begin

lemma chunks_published:
  "inv c \<Longrightarrow> pending c k = Some (Some h, b) \<Longrightarrow> fits k (Some h) (b @ concat ds) \<Longrightarrow> ds \<noteq> [] \<Longrightarrow>
     \<exists>c'. put_all (put_data k) ds c = Inr c' \<and> inv c' \<and> pending c' = (pending c)(k := None) \<and>
       stored c' \<subseteq>\<^sub>m (stored c)(k \<mapsto> (h, b @ concat ds))"
proof (induction ds arbitrary: b c)
  case (Cons d ds)
  show ?case
  proof (cases ds)
    case Nil
    then have "fits k (Some h) (b @ d)" using Cons.prems(3) by simp
    from data_last [OF Cons.prems(1,2) this] obtain c' where "put_data k d True c = Inr c'" "inv c'"
      "pending c' = (pending c)(k := None)" "stored c' \<subseteq>\<^sub>m (stored c)(k \<mapsto> (h, b @ d))" by blast
    then show ?thesis using Nil by (intro exI [of _ c']) (simp add: fun_upd_def)
  next
    case (Cons d' ds')
    have "fits k (Some h) (b @ d)" using Cons.prems(3) fits_prefix [of k _ "b @ d" "concat ds"] by simp
    then obtain c1 where c1: "put_data k d False c = Inr c1" "inv c1" "pending c1 = (pending c)(k \<mapsto> (Some h, b @ d))"
      "stored c1 = stored c"
      using data_more [OF Cons.prems(1,2)] by blast
    have "pending c1 k = Some (Some h, b @ d)" "fits k (Some h) ((b @ d) @ concat ds)" "ds \<noteq> []"
      using c1(3) Cons.prems(3) Cons by simp_all
    from Cons.IH [OF c1(2) this] obtain c2 where c2: "put_all (put_data k) ds c1 = Inr c2" "inv c2"
      "pending c2 = (pending c1)(k := None)" "stored c2 \<subseteq>\<^sub>m (stored c1)(k \<mapsto> (h, (b @ d) @ concat ds))" by blast
    have "put_all (put_data k) (d # ds) c = Inr c2" using c1(1) c2(1) Cons by simp
    then show ?thesis using c2(2-4) unfolding c1(3,4) fun_upd_upd concat.simps append_assoc by blast
  qed
qed simp

lemma response_published:
  assumes "inv c" "pending c k = Some (None, [])" "fits k (Some h) (concat ds)"
  shows "\<exists>c'. and_then (put_headers k h (ds = []) c) (put_all (put_data k) ds) = Inr c' \<and> inv c' \<and>
    pending c' = (pending c)(k := None) \<and> stored c' \<subseteq>\<^sub>m (stored c)(k \<mapsto> (h, concat ds))"
proof (cases "ds = []")
  case True
  then show ?thesis using headers_last [OF assms(1,2), of h] assms(3) by auto
next
  case False
  have "fits k (Some h) []" using fits_prefix [of k "Some h" "[]" "concat ds"] assms(3) by simp
  then obtain c1 where c1: "put_headers k h False c = Inr c1" "inv c1" "pending c1 = (pending c)(k \<mapsto> (Some h, []))" "stored c1 = stored c"
    using headers_more [OF assms(1,2)] by blast
  have "pending c1 k = Some (Some h, [])" "fits k (Some h) ([] @ concat ds)" using c1(3) assms(3) by simp_all
  from chunks_published [OF c1(2) this False] c1(1) False show ?thesis
    unfolding c1(3,4) fun_upd_upd append_Nil by simp
qed

end

text \<open>The cache is such a store.\<close>

definition put_headers :: "('h \<Rightarrow> size_t) \<Rightarrow> key_t \<Rightarrow> 'h \<Rightarrow> bool \<Rightarrow> 'h cache \<Rightarrow> fault + 'h cache" where
  "put_headers hs k h fin c = map_sum id fst (publishHeaders hs k h fin c)"

definition put_data :: "('h \<Rightarrow> size_t) \<Rightarrow> key_t \<Rightarrow> string \<Rightarrow> bool \<Rightarrow> 'h cache \<Rightarrow> fault + 'h cache" where
  "put_data hs k d fin c = map_sum id fst (publishData hs k d fin c)"

definition fits_store :: "('h \<Rightarrow> size_t) \<Rightarrow> key_t \<Rightarrow> 'h option \<Rightarrow> string \<Rightarrow> bool" where
  "fits_store hs k x b \<longleftrightarrow> response_bytes hs k x b < 2 ^ 64"

lemma finalized_stored:
  assumes "finalized hs k i c c'" "iheaders i = Some h"
  shows "cached_response c' \<subseteq>\<^sub>m (cached_response c)(k \<mapsto> (h, ibody i))"
    "pending_response c' = (pending_response c)(k := None)"
  using assms by (fastforce simp: finalized_def map_le_def pending_response_def)+

lemma set_inflight_stored:
  "cached_response (set_inflight k i c) = cached_response c"
  "pending_response (set_inflight k i c) = (pending_response c)(k \<mapsto> (iheaders i, ibody i))"
  by (auto simp: set_inflight_def pending_response_def)

interpretation ring_store: response_store "cache_inv hs" cached_response pending_response "fits_store hs" "put_headers hs" "put_data hs"
  for hs :: "'h \<Rightarrow> size_t"
proof unfold_locales
  show "fits_store hs k x b" if "fits_store hs k x (b @ d)" for k x b d
    using that by (simp add: fits_store_def response_bytes_def)
next
  fix c :: "'h cache" and k b h
  assume inv: "cache_inv hs c" and p: "pending_response c k = Some (None, b)" and fits: "fits_store hs k (Some h) b"
  obtain i where i: "inflight_map c k = Some i" "iheaders i = None" "ibody i = b"
    using p by (auto simp: pending_response_def)
  have "response_bytes hs k (iheaders (with_headers h i)) (ibody i) < 2 ^ 64"
    using fits i by (simp add: fits_store_def)
  note ok = publishHeaders_ok [OF inv i(1) this]
  show "\<exists>c'. put_headers hs k h False c = Inr c' \<and> cache_inv hs c' \<and>
      pending_response c' = (pending_response c)(k \<mapsto> (Some h, b)) \<and> cached_response c' = cached_response c"
    using ok [of False] i by (auto simp: put_headers_def set_inflight_stored)
  show "\<exists>c'. put_headers hs k h True c = Inr c' \<and> cache_inv hs c' \<and>
      pending_response c' = (pending_response c)(k := None) \<and> cached_response c' \<subseteq>\<^sub>m (cached_response c)(k \<mapsto> (h, b))"
    using ok [of True] i finalized_stored [of hs k "with_headers h i" c] by (auto simp: put_headers_def)
next
  fix c :: "'h cache" and k b h d
  assume inv: "cache_inv hs c" and p: "pending_response c k = Some (Some h, b)" and fits: "fits_store hs k (Some h) (b @ d)"
  obtain i where i: "inflight_map c k = Some i" "iheaders i = Some h" "ibody i = b"
    using p by (auto simp: pending_response_def)
  have "iheaders i \<noteq> None" "response_bytes hs k (iheaders i) (ibody i @ d) < 2 ^ 64"
    using fits i by (simp_all add: fits_store_def)
  note ok = publishData_ok [OF inv i(1) this]
  show "\<exists>c'. put_data hs k d False c = Inr c' \<and> cache_inv hs c' \<and>
      pending_response c' = (pending_response c)(k \<mapsto> (Some h, b @ d)) \<and> cached_response c' = cached_response c"
    using ok [of False] i by (auto simp: put_data_def set_inflight_stored)
  show "\<exists>c'. put_data hs k d True c = Inr c' \<and> cache_inv hs c' \<and>
      pending_response c' = (pending_response c)(k := None) \<and> cached_response c' \<subseteq>\<^sub>m (cached_response c)(k \<mapsto> (h, b @ d))"
    using ok [of True] i finalized_stored [of hs k "with_data d i" c] by (auto simp: put_data_def)
qed

section \<open>Bounds\<close>

lemma entry_count:
  assumes "storage_inv hs c"
  shows "card {p. entries c p \<noteq> None} \<le> unat (slot_count c)"
proof -
  have "Some ` {p. entries c p \<noteq> None} \<subseteq> set (slots c)"
    using assms by (auto simp: storage_inv_def owns_entries_def)
  then have "card (Some ` {p. entries c p \<noteq> None}) \<le> card (set (slots c))" by (rule card_mono [OF finite_set])
  then have "card {p. entries c p \<noteq> None} \<le> card (set (slots c))" by (simp add: card_image)
  also have "\<dots> \<le> length (slots c)" by (rule card_length)
  finally show ?thesis using assms by (simp add: storage_inv_def ring_ok_def)
qed

end
