(* ===== verification/Ring_Properties.thy ===== *)
theory Ring_Properties
  imports Ring_Sample Ring_Response
begin

text \<open>
  The properties of the ring cache and its filter.  The first group holds in every world
  that some interleaving of streams can reach; the second is about single operations on a
  cache that satisfies the invariant.
\<close>

section \<open>All interleavings\<close>

lemma world4_facts:
  "wcache world4 = sample_cache (Some 5)" "wqueue world4 1 = [FeedHeaders 0 5 False]"
  "waiters (wcache world4) 0 = Some \<lparr>wdispatcher = 1, wcallbacks = 1, wcancelled = False\<rparr>"
  "inflight_map (wcache world4) sample_key = Some (sample_inflight (Some 5))"
  "wfilters world4 0 = Some ((sample_filter 0 0)\<lparr>frole := LeaderRole\<rparr>)" "wphase world4 0 = Streaming"
  by (simp_all add: world4_def world3_def world2_def sample_cache_def)

lemma world8_facts:
  "waiters (wcache world8) 0 = Some \<lparr>wdispatcher = 1, wcallbacks = 1, wcancelled = False\<rparr>"
  "wfinal world8 0 = Some (Some 5, ''xy'')" "(3, 0, sample_filter 3 0) \<in># wserving world8" "0 \<in># wfragments world8"
  "holders world8 0 = 2" "wqueue world8 1 = [FeedHeaders 0 5 False]" "wreplied world8 = {}"
  by (simp_all add: world8_def world7_def world6_def world5_def world4_def world3_def world2_def world1_def world0_def
      cached_cache_def holders_def)

text \<open>
  C1. Every follower of a completed response gets all of it.  In any reachable world, if a
  waiter is not cancelled, its stream got no response from outside the cache, its leader's
  response has ended, and no closure pending for its dispatcher dangles (belongs to an
  uncancelled waiter of a destroyed stream, which takes a reply from outside the cache), then
  posting and running what is pending leads to a world where the follower's callbacks have
  heard exactly the headers, the body and the end that the upstream sent to the leader:
  headers once and first, then the body in order, and nothing after the end; and still
  nothing from outside.
\<close>

theorem follower_delivery:
  assumes "reachable hs W" "waiters (wcache W) w = Some wt" "\<not> wcancelled wt" "wfinal W w = Some (x, b)"
    and "wcallbacks wt \<notin> wreplied W" "\<not> endangered W (wdispatcher wt)"
  shows "\<exists>W'. (step hs)\<^sup>*\<^sup>* W W' \<and> wcache W' = wcache W \<and> wcallbacks wt \<notin> wreplied W' \<and>
    heard (wevents W' w) = Some (x, b, True)"
  using delivery [OF assms(1-4,6)] assms(5) by metis

theorem follower_delivery_witness:
  "\<exists>W'. (step of_nat)\<^sup>*\<^sup>* world8 W' \<and> wcache W' = wcache world8 \<and> 1 \<notin> wreplied W' \<and>
     heard (wevents W' 0) = Some (Some 5, ''xy'', True)"
  using follower_delivery [OF sample_reachable(9) world8_facts(1) _ world8_facts(2)]
  by (simp add: world8_facts(7) endangered_def dangling_def)

text \<open>
  C2. While a response is inflight, what the cache has sent to a follower is a prefix of it:
  no end, no headers but the leader's, and a prefix of the body collected so far.  A follower that
  joined late is backfilled, and misses and repeats nothing.
\<close>

theorem follower_coherence:
  assumes "reachable hs W" "waiters (wcache W) w = Some wt" "\<not> wcancelled wt"
    "inflight_map (wcache W) k = Some i" "w \<in> set (iwaiters i)"
  shows "\<exists>x b. heard (wevents W w) = Some (x, b, False) \<and> prefix b (ibody i) \<and> (x = None \<or> x = iheaders i)"
  by (rule follower_prefix [OF assms])

theorem follower_coherence_witness:
  "\<exists>x b. heard (wevents world4 0) = Some (x, b, False) \<and> prefix b [] \<and> (x = None \<or> x = Some 5)"
  using follower_coherence [OF sample_reachable(5) world4_facts(3) _ world4_facts(4)] by (simp add: sample_inflight_def)

text \<open>
  C3. A hit serves a complete response.  In any reachable world, finishing a hit in progress
  never faults, and its stream hears the headers and the whole body of a response that an
  upstream completed for the same key.  Reachable worlds are those in which no entry has
  2 to the 32 holders at once, the range of its pin counter.
\<close>

theorem hit_serves_completed:
  assumes "reachable hs W" "(s, p, f) \<in># wserving W"
  shows "\<exists>f' c' fr evs h b. finish_hit p f (wcache W) = Inr (f', c', fr, evs) \<and>
    (Some h, b) \<in> set (wcomplete W (fkey f)) \<and> heard evs = Some (Some h, b, True)"
  by (rule serve_hit_events [OF assms])

theorem hit_serves_completed_witness:
  "\<exists>f' c' fr evs h b. finish_hit 0 (sample_filter 3 0) (wcache world8) = Inr (f', c', fr, evs) \<and>
    (Some h, b) \<in> set (wcomplete world8 sample_key) \<and> heard evs = Some (Some h, b, True)"
  using hit_serves_completed [OF sample_reachable(9) world8_facts(3)] by simp

text \<open>
  C4. Pins count holders.  In any reachable world an entry that is being served or whose body
  is referenced by a handed-out fragment is still allocated, and its pin counter is the
  number of these holders; so eviction never frees a response in use, and releasing the last
  holder makes the entry evictable again.  A request that would give an entry 2 to the 32
  holders, and wrap its 32-bit counter, is no step of the system.
\<close>

theorem pins_count_holders:
  assumes "reachable hs W" "0 < holders W p"
  shows "\<exists>e. entries (wcache W) p = Some e \<and> unat (epins e) = holders W p \<and>
    (\<exists>c'. release_fragment p (wcache W) = Inr c')"
  using held_alive [OF assms] by (auto simp: release_fragment_def unpin_def)

theorem pins_count_holders_witness:
  "\<exists>e. entries (wcache world8) 0 = Some e \<and> unat (epins e) = 2 \<and>
    (\<exists>c'. release_fragment 0 (wcache world8) = Inr c')"
  using pins_count_holders [OF sample_reachable(9), of 0] by (simp add: world8_facts(5))

text \<open>
  C5. Which closures can meet a destroyed stream.  In any reachable world, a closure in a
  dispatcher's queue belongs to a known waiter of that dispatcher, and the waiter is
  cancelled, or its stream is alive, is a follower and has not seen the end of its response,
  or its stream got a response from outside the cache.  So without such a response no closure
  uses a destroyed stream.
\<close>

theorem closures_use_live_streams:
  assumes "reachable hs W" "t \<in> set (wqueue W d)"
  shows "\<exists>wt. waiters (wcache W) (task_waiter t) = Some wt \<and> wdispatcher wt = d \<and>
    (wcancelled wt \<or> wcallbacks wt \<in> wreplied W \<or>
     (\<exists>f. wfilters W (wcallbacks wt) = Some f \<and> frole f = FollowerRole \<and> \<not> fdone f))"
  by (rule task_callbacks_live [OF assms])

theorem closures_use_live_streams_witness:
  "\<exists>f. wfilters world8 1 = Some f \<and> frole f = FollowerRole \<and> \<not> fdone f"
proof -
  have "FeedHeaders 0 5 False \<in> set (wqueue world8 1)" using world8_facts(6) by simp
  from closures_use_live_streams [OF sample_reachable(9) this] show ?thesis
    using world8_facts(1,7) by simp
qed

text \<open>
  C21. And with such a response a closure does.  From any reachable world in which a follower
  is registered with the response its leader is streaming, and neither stream is in the
  middle of posting, three steps suffice: the follower gets a local reply with the end of the
  stream, its stream is destroyed, the leader publishes once more.  Then a closure for the
  follower's dispatcher is pending whose waiter is not cancelled and whose stream is gone.
\<close>

theorem local_reply_dangles:
  assumes "reachable hs W" "wfilters W s = Some f" "frole f = FollowerRole" "fwaiter f = Some w"
    and "waiters (wcache W) w = Some wt" "\<not> wcancelled wt"
    and "wfilters W l = Some g" "frole g = LeaderRole" "wphase W l = Streaming"
    and "inflight_map (wcache W) (fkey g) = Some i" "w \<in> set (iwaiters i)"
    and "wunposted W s = []" "wunposted W l = []"
  shows "\<exists>W'. (step hs)\<^sup>*\<^sup>* W W' \<and> endangered W' (wdispatcher wt)"
  by (rule reply_endangers [OF assms])

theorem local_reply_dangles_witness: "\<exists>W'. (step of_nat)\<^sup>*\<^sup>* world4 W' \<and> endangered W' 1"
proof -
  let ?f = "(sample_filter 1 1)\<lparr>frole := FollowerRole, fwaiter := Some 0\<rparr>"
  have "wfilters world4 1 = Some ?f" "wunposted world4 = (\<lambda>_. [])"
    by (simp_all add: world4_def world3_def world2_def)
  then show ?thesis
    using local_reply_dangles [OF sample_reachable(5) _ _ _ world4_facts(3) _ world4_facts(5) _ world4_facts(6), of 1 ?f]
      world4_facts(4) by (simp add: sample_inflight_def)
qed

text \<open>
  C6. Bounded memory.  In every reachable world the cache invariant holds: the bytes
  accounted for are the bytes stored, they never exceed the configured capacity, and there
  are never more entries than slots.
\<close>

theorem memory_bound:
  assumes "reachable hs W"
  shows "cache_inv hs (wcache W) \<and> unat (used_size (wcache W)) = stored_bytes hs (wcache W) \<and>
    stored_bytes hs (wcache W) \<le> unat (capacity (wcache W)) \<and>
    card {p. entries (wcache W) p \<noteq> None} \<le> unat (slot_count (wcache W))"
proof -
  have inv: "cache_inv hs (wcache W)" by (rule base_invD(1) [OF reachable_hitsD(1) [OF assms]])
  then show ?thesis
    using entry_count [OF cache_invD(1) [OF inv]] cache_invD(8) [OF inv]
    by (auto simp: accounted_def word_le_nat_alt)
qed

theorem memory_bound_witness:
  "stored_bytes of_nat (wcache world8) \<le> 100 \<and> unat (used_size (wcache world8)) = stored_bytes of_nat (wcache world8)"
  using memory_bound [OF sample_reachable(9)]
  by (simp add: world8_def world7_def cached_cache_def RingBufferCache_def)

text \<open>
  C7. One leader per key.  In every reachable world two live streams that lead the same key
  and have not finished are the same stream, its key is inflight, and the inflight record
  holds exactly what the upstream has sent to it.
\<close>

theorem one_leader:
  assumes "reachable hs W" "wfilters W s = Some f" "frole f = LeaderRole" "wphase W s \<noteq> Complete"
    "wfilters W s' = Some f'" "frole f' = LeaderRole" "wphase W s' \<noteq> Complete" "fkey f' = fkey f"
  shows "s' = s \<and> pending_response (wcache W) (fkey f) = Some (wsent W s)"
proof -
  have lead: "leaders_ok W" by (rule base_invD(2) [OF reachable_hitsD(1) [OF assms(1)]])
  show ?thesis
    by (rule leader_inflight [OF lead assms(2-4)], rule leader_inflight [OF lead assms(5-7)])
      (simp add: pending_response_def assms(8))
qed

theorem one_leader_witness:
  "pending_response (wcache world4) sample_key = Some (wsent world4 0)"
  using one_leader [OF sample_reachable(5) world4_facts(5) _ _ world4_facts(5)] world4_facts(6) by simp

text \<open>
  C8. The publishing callbacks of a leader never fault: in any reachable world the upstream
  may send headers when none were sent, and data after that, with or without the end of the
  stream (for sizes below 2 to the 64).
\<close>

theorem leader_callbacks_safe:
  assumes "reachable hs W" "wfilters W s = Some f" "frole f = LeaderRole" "wphase W s \<noteq> Complete"
  shows "(wphase W s = AwaitHeaders \<longrightarrow> response_bytes hs (fkey f) (Some h) [] < 2 ^ 64 \<longrightarrow>
       (\<exists>r. encodeHeaders hs h fin f (wcache W) = Inr r)) \<and>
    (wphase W s = Streaming \<longrightarrow> response_bytes hs (fkey f) (fst (wsent W s)) (snd (wsent W s) @ d) < 2 ^ 64 \<longrightarrow>
       (\<exists>r. encodeData hs d fin f (wcache W) = Inr r))"
proof (intro conjI impI)
  note inv = reachable_hitsD(1) [OF assms(1)]
  show "\<exists>r. encodeHeaders hs h fin f (wcache W) = Inr r"
    if "wphase W s = AwaitHeaders" "response_bytes hs (fkey f) (Some h) [] < 2 ^ 64"
    by (rule encodeHeaders_publishes [OF inv assms(2,3) that]) blast
  show "\<exists>r. encodeData hs d fin f (wcache W) = Inr r"
    if "wphase W s = Streaming" and fits: "response_bytes hs (fkey f) (fst (wsent W s)) (snd (wsent W s) @ d) < 2 ^ 64"
  proof -
    obtain i where "inflight_map (wcache W) (fkey f) = Some i" "wsent W s = (iheaders i, ibody i)"
      by (rule leader_inflight [OF base_invD(2) [OF inv] assms(2-4)])
    then have "\<forall>i. inflight_map (wcache W) (fkey f) = Some i \<longrightarrow> response_bytes hs (fkey f) (iheaders i) (ibody i @ d) < 2 ^ 64"
      using fits by simp
    from encodeData_publishes [OF inv assms(2,3) that(1) this] show ?thesis by blast
  qed
qed

theorem leader_callbacks_safe_witness:
  "\<exists>r. encodeData of_nat ''z'' True ((sample_filter 0 0)\<lparr>frole := LeaderRole\<rparr>) (wcache world4) = Inr r"
proof -
  have "wsent world4 0 = (Some 5, [])" by (simp add: world4_def world3_def)
  then show ?thesis
    using leader_callbacks_safe [OF sample_reachable(5) world4_facts(5), where d = "''z''" and fin = True] world4_facts(6)
    by (simp add: response_bytes_def)
qed

text \<open>
  C16. A key whose leader is gone stays inflight for ever.  Once the record of a key exists
  and no live stream still leads it (the leader was destroyed early, or its response ended
  with trailers), then in every later world the record is still there, the key is not
  cached, and no one can become its leader: every further request follows.
\<close>

theorem orphaned_key_stuck:
  assumes "reachable hs W" "orphaned k W" "(step hs)\<^sup>*\<^sup>* W W'"
  shows "orphaned k W' \<and> cache_map (wcache W') k = None \<and>
    (\<exists>r c' ts. lookup k (Some cbs) (wcache W') = Inr (r, c', ts) \<and> rtype r = Follower)"
proof -
  have W': "reachable hs W'" "orphaned k W'" using orphans.inv_steps [OF assms(3)] assms(1,2) by blast+
  have inv: "cache_inv hs (wcache W')" by (rule base_invD(1) [OF reachable_hitsD(1) [OF W'(1)]])
  obtain i where i: "inflight_map (wcache W') k = Some i" using W'(2) by (auto simp: orphaned_def)
  then have "cache_map (wcache W') k = None" "iheaders i = None \<longrightarrow> ibody i = []"
    using cache_invD(2,3) [OF inv] unfolding separate_def inflights_ok_def inflight_ok_def
    by (metis option.distinct(1), blast)
  then show ?thesis using lookup_follower(2) [OF _ i] W'(2) by simp
qed

theorem orphaned_key_stuck_witness:
  "\<exists>r c' ts. lookup sample_key (Some (Callbacks 7 0)) (wcache orphan_world) = Inr (r, c', ts) \<and> rtype r = Follower"
proof -
  have "orphaned sample_key orphan_world"
    by (simp add: orphaned_def orphan_world_def world1_def set_inflight_def)
  from orphaned_key_stuck [OF orphan_reachable this rtranclp.rtrancl_refl] show ?thesis by simp
qed

section \<open>Lookup\<close>

lemma sample_cache_inv:
  "cache_inv of_nat (sample_cache (Some 5))" "inflight_map (sample_cache (Some 5)) sample_key = Some (sample_inflight (Some 5))"
  using base_invD(1) [OF reachable_hitsD(1) [OF sample_reachable(5)]] world4_facts(4) by (simp_all add: world4_facts(1))

text \<open>
  C9. \<^verbatim>\<open>lookup\<close> resolves to exactly one of its three types, never faults and keeps the
  invariant.  It is a hit exactly when the key is cached, and returns the cached headers and
  body; the first request for an unknown key is the leader; every other one is a follower
  with a fresh waiter, registered on the record and backfilled with everything collected so
  far.  No stored response changes.
\<close>

theorem lookup_outcome:
  assumes "cache_inv hs c" "length k < 2 ^ 64"
  shows "\<exists>r c' ts. lookup k (Some cbs) c = Inr (r, c', ts) \<and> cache_inv hs c' \<and> lookup_answer c k cbs r c' ts"
  by (rule lookup_ok [OF assms])

theorem lookup_outcome_witness:
  "\<exists>r c' ts. lookup sample_key (Some (Callbacks 3 1)) (sample_cache (Some 5)) = Inr (r, c', ts) \<and> cache_inv of_nat c' \<and>
     lookup_answer (sample_cache (Some 5)) sample_key (Callbacks 3 1) r c' ts"
  by (rule lookup_outcome [OF sample_cache_inv(1)]) simp

section \<open>Publishing\<close>

text \<open>
  C10. Publishing a response implements the abstract store.  For a key being led, publishing
  the headers and then the body in chunks, however it is cut, with the end on the last part,
  never faults and keeps the invariant; the key leaves the inflight map, and the responses
  served afterwards are among those served before plus this one, with the chunks joined.
\<close>

theorem response_refinement:
  assumes "cache_inv hs c" "pending_response c k = Some (None, [])" "response_bytes hs k (Some h) (concat ds) < 2 ^ 64"
  shows "\<exists>c'. and_then (put_headers hs k h (ds = []) c) (put_all (put_data hs k) ds) = Inr c' \<and> cache_inv hs c' \<and>
    pending_response c' = (pending_response c)(k := None) \<and>
    cached_response c' \<subseteq>\<^sub>m (cached_response c)(k \<mapsto> (h, concat ds))"
  by (rule ring_store.response_published) (use assms in \<open>simp_all add: fits_store_def\<close>)

theorem response_refinement_witness:
  "\<exists>c'. and_then (put_headers of_nat sample_key 5 False (wcache world1)) (put_all (put_data of_nat sample_key) [''x'', ''y'']) = Inr c' \<and>
     cached_response c' \<subseteq>\<^sub>m (cached_response (wcache world1))(sample_key \<mapsto> (5, ''xy''))"
proof -
  have "cache_inv of_nat (wcache world1)" by (rule base_invD(1) [OF reachable_hitsD(1) [OF sample_reachable(2)]])
  moreover have "pending_response (wcache world1) sample_key = Some (None, [])"
    by (simp add: world1_def pending_response_def set_inflight_def empty_inflight_def)
  ultimately show ?thesis
    using response_refinement [of of_nat "wcache world1" sample_key 5 "[''x'', ''y'']"] by (auto simp: response_bytes_def)
qed

text \<open>
  C11. A finished response is served to the next request when there is room: if it does not
  exceed the capacity, nothing is pinned, and a slot is free or space is lacking (so that a
  slot gets freed), then finalizing it and looking the key up is a hit with its headers and
  body.
\<close>

theorem finished_response_hit:
  assumes "cache_inv hs c" "inflight_map c key = Some i" "iheaders i = Some h" "room_for (needed hs key i) c"
  shows "\<exists>c' r c'' ts hit. finalizeLocked hs key c = Inr c' \<and> lookup key cb c' = Inr (r, c'', ts) \<and>
    rtype r = Hit \<and> rhit r = Some hit \<and> hheaders hit = h \<and> hbody hit = ibody i"
proof -
  obtain c' where c': "finalizeLocked hs key c = Inr c'" "cached_response c' key = Some (h, ibody i)"
    using finalize_kept [OF assms] by blast
  then obtain p e where "cache_map c' key = Some p" "entries c' p = Some e" "eheaders e = Some h" "ebody e = ibody i"
    by (auto simp: cached_response_def split: option.splits)
  from lookup_hit(2) [OF this(1-3), of cb] this(4) c'(1) show ?thesis by auto
qed

theorem finished_response_hit_witness:
  "\<exists>c' r c'' ts hit. finalizeLocked of_nat sample_key (sample_cache (Some 5)) = Inr c' \<and>
     lookup sample_key None c' = Inr (r, c'', ts) \<and> rtype r = Hit \<and> rhit r = Some hit \<and> hheaders hit = 5 \<and> hbody hit = []"
proof -
  have "room_for (needed of_nat sample_key (sample_inflight (Some 5))) (sample_cache (Some 5))"
    by (simp add: room_for_def needed_def response_bytes_def sample_inflight_def sample_cache_def RingBufferCache_def)
      (rule disjI2, rule exI [of _ 0], simp)
  from finished_response_hit [OF sample_cache_inv _ this, of 5 None] show ?thesis by (simp add: sample_inflight_def)
qed

text \<open>
  C14. When a finished response exceeds the capacity, or when it would fit but every slot is
  occupied, it is dropped and nothing else changes: no entry is evicted for the slot.
\<close>

theorem full_ring_drops:
  assumes "cache_inv hs c" "inflight_map c key = Some i" "iheaders i \<noteq> None" "no_room (needed hs key i) c"
  shows "finalizeLocked hs key c = Inr (c\<lparr>inflight_map := (inflight_map c)(key := None)\<rparr>)"
  by (rule finalize_dropped [OF assms])

definition full_cache :: "nat cache" where
  "full_cache = (RingBufferCache 100 1)\<lparr>used_size := 9, cache_map := [''old'' \<mapsto> 0], slots := [Some 0], head := 0,
     entries := [0 \<mapsto> \<lparr>ekey = ''old'', eheaders = Some 5, ebody = ''x'', epins = 0\<rparr>], next_entry := 1,
     inflight_map := [''k'' \<mapsto> \<lparr>iheaders = Some 5, ibody = [], iwaiters = []\<rparr>]\<rparr>"

lemma full_cache_inv: "cache_inv of_nat full_cache"
  by (simp add: cache_inv_def full_cache_def storage_inv_defs separate_def inflights_ok_def inflight_ok_def waiters_ok_def
      RingBufferCache_def stored_bytes_def slot_bytes_def entry_bytes_def response_bytes_def entry_ok_def)

theorem full_ring_drops_witness:
  "finalizeLocked of_nat ''k'' full_cache = Inr (full_cache\<lparr>inflight_map := (inflight_map full_cache)(''k'' := None)\<rparr>)"
  by (rule full_ring_drops [OF full_cache_inv, where i = "\<lparr>iheaders = Some 5, ibody = [], iwaiters = []\<rparr>"])
    (simp_all add: full_cache_def no_room_def needed_def response_bytes_def lacks_space_def RingBufferCache_def)


section \<open>Storage\<close>

text \<open>
  C12. \<^verbatim>\<open>evictTillCapacityLocked\<close> always returns, without a fault, keeps the storage
  invariant and drops only entries nobody pins.  On success the requested size fits and the
  head slot is free; it gives up only when the request exceeds the capacity, when everything
  left is pinned, or when the size fits but every slot is occupied.
\<close>

theorem eviction_outcome:
  assumes "storage_inv hs c"
  shows "\<exists>ok c'. evictTillCapacityLocked hs need c = Inr (ok, c') \<and> storage_inv hs c' \<and> evicts_to c c' \<and>
    (ok \<longrightarrow> \<not> lacks_space need c' \<and> slots c' ! unat (head c') = None) \<and> (\<not> ok \<longrightarrow> refused need c c')"
  by (rule evictTillCapacityLocked_ok [OF assms])

theorem eviction_outcome_witness:
  "storage_inv of_nat full_cache \<and>
   (\<exists>ok c'. evictTillCapacityLocked of_nat 95 full_cache = Inr (ok, c') \<and>
      storage_inv of_nat c' \<and> evicts_to full_cache c' \<and>
      (ok \<longrightarrow> \<not> lacks_space 95 c' \<and> slots c' ! unat (head c') = None) \<and> (\<not> ok \<longrightarrow> refused 95 full_cache c'))"
  using eviction_outcome [OF cache_invD(1) [OF full_cache_inv], of 95] cache_invD(1) [OF full_cache_inv] by simp

text \<open>
  C13. \<^verbatim>\<open>finalizeLocked\<close> on a key whose response has headers never faults and keeps the cache
  invariant; the key leaves the inflight map, the pinned entries stay, and everything the
  cache serves afterwards is what it served before or the finished response under its key.
\<close>

theorem finalize_outcome:
  assumes "cache_inv hs c" "inflight_map c key = Some i" "iheaders i \<noteq> None"
  shows "\<exists>c'. finalizeLocked hs key c = Inr c' \<and> cache_inv hs c' \<and> finalized hs key i c c'"
  by (rule finalizeLocked_ok [OF assms])

theorem finalize_outcome_witness:
  "\<exists>c'. finalizeLocked of_nat sample_key (sample_cache (Some 5)) = Inr c' \<and> cache_inv of_nat c' \<and>
     finalized of_nat sample_key (sample_inflight (Some 5)) (sample_cache (Some 5)) c'"
  by (rule finalize_outcome [OF sample_cache_inv]) (simp add: sample_inflight_def)

section \<open>Waiters\<close>

text \<open>
  C15. \<^verbatim>\<open>removeWaiter\<close> removes one occurrence of the waiter and keeps all the others: after it
  the waiters of the key are the old ones less this one as a multiset, a waiter that is not
  registered changes nothing, the collected response and every other key stay as they were.
\<close>

theorem removeWaiter_outcome:
  "(case inflight_map c key of
      None \<Rightarrow> removeWaiter key w c = c
    | Some i \<Rightarrow> \<exists>ws. mset ws = mset (iwaiters i) - {#w#} \<and>
        removeWaiter key w c = c\<lparr>inflight_map := (inflight_map c)(key \<mapsto> i\<lparr>iwaiters := ws\<rparr>)\<rparr>)"
proof (cases "inflight_map c key")
  case None
  then show ?thesis by (simp add: removeWaiter_def)
next
  case (Some i)
  then show ?thesis
  proof (cases rule: removeWaiter_cases [where w = w])
    case (found ws)
    then show ?thesis using Some by (auto simp: set_inflight_def)
  next
    case absent
    have "c\<lparr>inflight_map := (inflight_map c)(key \<mapsto> i\<lparr>iwaiters := iwaiters i\<rparr>)\<rparr> = c"
      using Some by (simp add: fun_upd_idem)
    then show ?thesis using absent Some by (auto intro!: exI [of _ "iwaiters i"] simp: diff_single_trivial)
  qed
qed

text \<open>
  C17. A follower that gets a locally generated response with the end of the stream is taken
  for done: destroying its stream afterwards neither cancels nor removes its waiter, so the
  closures posted for it later run on the callbacks of a destroyed stream.
\<close>

theorem local_reply_keeps_waiter:
  assumes "frole f = FollowerRole"
  shows "\<exists>f'. encodeHeaders hs h True f c = Inr (Continue, f', c, []) \<and> onDestroy f' c = Inr c"
  using assms by (simp add: encodeHeaders_def onDestroy_def)

theorem local_reply_keeps_waiter_witness:
  "\<exists>f'. encodeHeaders of_nat 9 True ((sample_filter 1 1)\<lparr>frole := FollowerRole, fwaiter := Some 0\<rparr>) (sample_cache (Some 5)) =
       Inr (Continue, f', sample_cache (Some 5), []) \<and>
     onDestroy f' (sample_cache (Some 5)) = Inr (sample_cache (Some 5))"
  by (rule local_reply_keeps_waiter) simp

section \<open>Keys and configuration\<close>

text \<open>
  C18. For hosts without a slash the key identifies the request: two fresh filters build the
  same key exactly for the same host and path.
\<close>

theorem key_injective:
  assumes "host \<noteq> []" "path \<noteq> []" "CHR ''/'' \<notin> set host" "host' \<noteq> []" "path' \<noteq> []" "CHR ''/'' \<notin> set host'"
  shows "buildKey host path RingCacheFilter = buildKey host' path' RingCacheFilter \<longleftrightarrow> host = host' \<and> path = path'"
proof -
  have "host = host' \<and> path = path'" if "host @ Separator @ path = host' @ Separator @ path'"
  proof -
    have "host = host'" using key_host [OF assms(3), of path] key_host [OF assms(6), of path'] that by metis
    then show ?thesis using that by simp
  qed
  then show ?thesis
    using assms by (auto simp: buildKey_def RingCacheFilter_def)
qed

theorem key_injective_witness:
  "buildKey ''a'' ''/b'' RingCacheFilter \<noteq> buildKey ''b'' ''/a'' RingCacheFilter"
  using key_injective [of "''a''" "''/b''" "''b''" "''/a''"] by simp

text \<open>
  C19. When two requests share a key.  The separator is not escaped: two fresh filters build
  the same key exactly when host and path are the same, or when the cut between them is moved
  by one or two slashes, or past a whole separator, from one host into the other path.
\<close>

theorem key_collisions_exact:
  assumes "host \<noteq> []" "path \<noteq> []" "host' \<noteq> []" "path' \<noteq> []"
  shows "buildKey host path RingCacheFilter = buildKey host' path' RingCacheFilter \<longleftrightarrow>
    (host = host' \<and> path = path') \<or> shifted host path host' path' \<or> shifted host' path' host path"
  using assms keys_agree [of host path host' path'] by (simp add: buildKey_fresh) (simp add: RingCacheFilter_def)

theorem key_collisions_exact_witness:
  "buildKey ''a'' ''b///c'' RingCacheFilter = buildKey ''a///b'' ''c'' RingCacheFilter \<and>
   buildKey ''a'' ''/b'' RingCacheFilter \<noteq> buildKey ''b'' ''/a'' RingCacheFilter"
proof -
  have "shifted ''a'' ''b///c'' ''a///b'' ''c''"
    unfolding shifted_def by (rule disjI2, rule exI [of _ "''b''"]) (simp add: Separator_def)
  moreover have "\<not> shifted ''a'' ''/b'' ''b'' ''/a''" "\<not> shifted ''b'' ''/a'' ''a'' ''/b''"
    by (simp_all add: shifted_def)
  ultimately show ?thesis
    using key_collisions_exact [of "''a''" "''b///c''" "''a///b''" "''c''"]
      key_collisions_exact [of "''a''" "''/b''" "''b''" "''/a''"] by simp
qed

text \<open>
  C20. A process that loads any sequence of configurations accepts exactly those whose
  capacity and slot count are positive, and all accepted ones share one cache: that of the
  first accepted one, with its capacity and slot count, whatever the later ones ask for.
  That cache satisfies the invariant and is empty: no response is cached or inflight and no
  byte is accounted for.
\<close>

theorem config_sequence:
  fixes hs :: "'h \<Rightarrow> size_t"
  shows "load_configs None ps = map (\<lambda>p.
       if 0 < proto_capacity p \<and> 0 < proto_slot_count p
       then Inr \<lparr>cfg_capacity = proto_capacity p, cfg_slot_count = proto_slot_count p, cfg_cache = first_cache ps :: 'h cache\<rparr>
       else Inl ProtoValidationError) ps \<and>
    (\<forall>q qs rs. ps = qs @ q # rs \<and> list_all (\<lambda>p. proto_capacity p = 0 \<or> proto_slot_count p = 0) qs \<and>
         0 < proto_capacity q \<and> 0 < proto_slot_count q \<longrightarrow>
       (let c = first_cache ps :: 'h cache in
        capacity c = proto_capacity q \<and> slot_count c = proto_slot_count q \<and> cache_inv hs c \<and>
        cached_response c = Map.empty \<and> pending_response c = Map.empty \<and> used_size c = 0))"
proof (intro conjI allI impI)
  show "load_configs None ps = map (\<lambda>p.
       if 0 < proto_capacity p \<and> 0 < proto_slot_count p
       then Inr \<lparr>cfg_capacity = proto_capacity p, cfg_slot_count = proto_slot_count p, cfg_cache = first_cache ps :: 'h cache\<rparr>
       else Inl ProtoValidationError) ps"
    by (simp add: load_configs_first config_result_def validate_proto_def fun_eq_iff)
  fix q qs rs
  assume q: "ps = qs @ q # rs \<and> list_all (\<lambda>p. proto_capacity p = 0 \<or> proto_slot_count p = 0) qs \<and>
    0 < proto_capacity q \<and> 0 < proto_slot_count q"
  then have "first_cache ps = (RingBufferCache (proto_capacity q) (proto_slot_count q) :: 'h cache)"
    by (auto simp: validate_proto_def list_all_iff intro!: first_cache_skip)
  then show "let c = first_cache ps :: 'h cache in
      capacity c = proto_capacity q \<and> slot_count c = proto_slot_count q \<and> cache_inv hs c \<and>
      cached_response c = Map.empty \<and> pending_response c = Map.empty \<and> used_size c = 0"
    using q cache_inv_init [of "proto_slot_count q" hs "proto_capacity q"]
    by (simp add: Let_def fun_eq_iff cached_response_def pending_response_def) (simp add: RingBufferCache_def)
qed

theorem config_sequence_witness:
  "load_configs None [\<lparr>proto_capacity = 0, proto_slot_count = 2\<rparr>, \<lparr>proto_capacity = 100, proto_slot_count = 2\<rparr>,
     \<lparr>proto_capacity = 7, proto_slot_count = 9\<rparr>] =
   [Inl ProtoValidationError,
    Inr \<lparr>cfg_capacity = 100, cfg_slot_count = 2, cfg_cache = RingBufferCache 100 2\<rparr>,
    Inr \<lparr>cfg_capacity = 7, cfg_slot_count = 9, cfg_cache = RingBufferCache 100 2 :: nat cache\<rparr>] \<and>
   cache_inv of_nat (RingBufferCache 100 2 :: nat cache)"
proof -
  let ?ps = "[\<lparr>proto_capacity = 0, proto_slot_count = 2\<rparr>, \<lparr>proto_capacity = 100, proto_slot_count = 2\<rparr>,
     \<lparr>proto_capacity = 7, proto_slot_count = 9\<rparr>]"
  have "first_cache ?ps = (RingBufferCache 100 2 :: nat cache)" by (simp add: first_cache_def validate_proto_def)
  then show ?thesis
    using config_sequence [of ?ps "of_nat :: nat \<Rightarrow> size_t", THEN conjunct1]
      config_sequence [of ?ps "of_nat :: nat \<Rightarrow> size_t", THEN conjunct2, rule_format,
        of "[\<lparr>proto_capacity = 0, proto_slot_count = 2\<rparr>]" "\<lparr>proto_capacity = 100, proto_slot_count = 2\<rparr>"]
    by (simp add: Let_def)
qed

end
