(* ===== verification/Http_Chars.thy ===== *)
theory Http_Chars
  imports Prelude
begin

text \<open>
  The constant data of \<^verbatim>\<open>http_parser.h\<close> and \<^verbatim>\<open>http_parser.c\<close>: the status, method and error
  maps, the enumerations, the byte tables and the character classes.  A byte is a
  \<^typ>\<open>char\<close>; where the code computes with it, it is the \<^typ>\<open>8 word\<close> \<open>byte c\<close>.  The
  build option \<^verbatim>\<open>HTTP_PARSER_STRICT\<close> is the argument \<open>strict\<close>.
\<close>

unbundle bit_operations_syntax

section \<open>Maps and enumerations\<close>

definition HTTP_STATUS_MAP :: "(nat \<times> string \<times> string) list" where
  "HTTP_STATUS_MAP =
    [(100, ''CONTINUE'', ''Continue''),
     (101, ''SWITCHING_PROTOCOLS'', ''Switching Protocols''),
     (102, ''PROCESSING'', ''Processing''),
     (200, ''OK'', ''OK''),
     (201, ''CREATED'', ''Created''),
     (202, ''ACCEPTED'', ''Accepted''),
     (203, ''NON_AUTHORITATIVE_INFORMATION'', ''Non-Authoritative Information''),
     (204, ''NO_CONTENT'', ''No Content''),
     (205, ''RESET_CONTENT'', ''Reset Content''),
     (206, ''PARTIAL_CONTENT'', ''Partial Content''),
     (207, ''MULTI_STATUS'', ''Multi-Status''),
     (208, ''ALREADY_REPORTED'', ''Already Reported''),
     (226, ''IM_USED'', ''IM Used''),
     (300, ''MULTIPLE_CHOICES'', ''Multiple Choices''),
     (301, ''MOVED_PERMANENTLY'', ''Moved Permanently''),
     (302, ''FOUND'', ''Found''),
     (303, ''SEE_OTHER'', ''See Other''),
     (304, ''NOT_MODIFIED'', ''Not Modified''),
     (305, ''USE_PROXY'', ''Use Proxy''),
     (307, ''TEMPORARY_REDIRECT'', ''Temporary Redirect''),
     (308, ''PERMANENT_REDIRECT'', ''Permanent Redirect''),
     (400, ''BAD_REQUEST'', ''Bad Request''),
     (401, ''UNAUTHORIZED'', ''Unauthorized''),
     (402, ''PAYMENT_REQUIRED'', ''Payment Required''),
     (403, ''FORBIDDEN'', ''Forbidden''),
     (404, ''NOT_FOUND'', ''Not Found''),
     (405, ''METHOD_NOT_ALLOWED'', ''Method Not Allowed''),
     (406, ''NOT_ACCEPTABLE'', ''Not Acceptable''),
     (407, ''PROXY_AUTHENTICATION_REQUIRED'', ''Proxy Authentication Required''),
     (408, ''REQUEST_TIMEOUT'', ''Request Timeout''),
     (409, ''CONFLICT'', ''Conflict''),
     (410, ''GONE'', ''Gone''),
     (411, ''LENGTH_REQUIRED'', ''Length Required''),
     (412, ''PRECONDITION_FAILED'', ''Precondition Failed''),
     (413, ''PAYLOAD_TOO_LARGE'', ''Payload Too Large''),
     (414, ''URI_TOO_LONG'', ''URI Too Long''),
     (415, ''UNSUPPORTED_MEDIA_TYPE'', ''Unsupported Media Type''),
     (416, ''RANGE_NOT_SATISFIABLE'', ''Range Not Satisfiable''),
     (417, ''EXPECTATION_FAILED'', ''Expectation Failed''),
     (421, ''MISDIRECTED_REQUEST'', ''Misdirected Request''),
     (422, ''UNPROCESSABLE_ENTITY'', ''Unprocessable Entity''),
     (423, ''LOCKED'', ''Locked''),
     (424, ''FAILED_DEPENDENCY'', ''Failed Dependency''),
     (426, ''UPGRADE_REQUIRED'', ''Upgrade Required''),
     (428, ''PRECONDITION_REQUIRED'', ''Precondition Required''),
     (429, ''TOO_MANY_REQUESTS'', ''Too Many Requests''),
     (431, ''REQUEST_HEADER_FIELDS_TOO_LARGE'', ''Request Header Fields Too Large''),
     (451, ''UNAVAILABLE_FOR_LEGAL_REASONS'', ''Unavailable For Legal Reasons''),
     (500, ''INTERNAL_SERVER_ERROR'', ''Internal Server Error''),
     (501, ''NOT_IMPLEMENTED'', ''Not Implemented''),
     (502, ''BAD_GATEWAY'', ''Bad Gateway''),
     (503, ''SERVICE_UNAVAILABLE'', ''Service Unavailable''),
     (504, ''GATEWAY_TIMEOUT'', ''Gateway Timeout''),
     (505, ''HTTP_VERSION_NOT_SUPPORTED'', ''HTTP Version Not Supported''),
     (506, ''VARIANT_ALSO_NEGOTIATES'', ''Variant Also Negotiates''),
     (507, ''INSUFFICIENT_STORAGE'', ''Insufficient Storage''),
     (508, ''LOOP_DETECTED'', ''Loop Detected''),
     (510, ''NOT_EXTENDED'', ''Not Extended''),
     (511, ''NETWORK_AUTHENTICATION_REQUIRED'', ''Network Authentication Required'')]"

definition HTTP_METHOD_MAP :: "(nat \<times> string \<times> string) list" where
  "HTTP_METHOD_MAP =
    [(0, ''DELETE'', ''DELETE''),
     (1, ''GET'', ''GET''),
     (2, ''HEAD'', ''HEAD''),
     (3, ''POST'', ''POST''),
     (4, ''PUT'', ''PUT''),
     (5, ''CONNECT'', ''CONNECT''),
     (6, ''OPTIONS'', ''OPTIONS''),
     (7, ''TRACE'', ''TRACE''),
     (8, ''COPY'', ''COPY''),
     (9, ''LOCK'', ''LOCK''),
     (10, ''MKCOL'', ''MKCOL''),
     (11, ''MOVE'', ''MOVE''),
     (12, ''PROPFIND'', ''PROPFIND''),
     (13, ''PROPPATCH'', ''PROPPATCH''),
     (14, ''SEARCH'', ''SEARCH''),
     (15, ''UNLOCK'', ''UNLOCK''),
     (16, ''BIND'', ''BIND''),
     (17, ''REBIND'', ''REBIND''),
     (18, ''UNBIND'', ''UNBIND''),
     (19, ''ACL'', ''ACL''),
     (20, ''REPORT'', ''REPORT''),
     (21, ''MKACTIVITY'', ''MKACTIVITY''),
     (22, ''CHECKOUT'', ''CHECKOUT''),
     (23, ''MERGE'', ''MERGE''),
     (24, ''MSEARCH'', ''M-SEARCH''),
     (25, ''NOTIFY'', ''NOTIFY''),
     (26, ''SUBSCRIBE'', ''SUBSCRIBE''),
     (27, ''UNSUBSCRIBE'', ''UNSUBSCRIBE''),
     (28, ''PATCH'', ''PATCH''),
     (29, ''PURGE'', ''PURGE''),
     (30, ''MKCALENDAR'', ''MKCALENDAR''),
     (31, ''LINK'', ''LINK''),
     (32, ''UNLINK'', ''UNLINK''),
     (33, ''SOURCE'', ''SOURCE'')]"

definition HTTP_ERRNO_MAP :: "(string \<times> string) list" where
  "HTTP_ERRNO_MAP =
    [(''OK'', ''success''),
     (''CB_message_begin'', ''the on_message_begin callback failed''),
     (''CB_url'', ''the on_url callback failed''),
     (''CB_header_field'', ''the on_header_field callback failed''),
     (''CB_header_value'', ''the on_header_value callback failed''),
     (''CB_headers_complete'', ''the on_headers_complete callback failed''),
     (''CB_body'', ''the on_body callback failed''),
     (''CB_message_complete'', ''the on_message_complete callback failed''),
     (''CB_status'', ''the on_status callback failed''),
     (''CB_chunk_header'', ''the on_chunk_header callback failed''),
     (''CB_chunk_complete'', ''the on_chunk_complete callback failed''),
     (''INVALID_EOF_STATE'', ''stream ended at an unexpected time''),
     (''HEADER_OVERFLOW'', ''too many header bytes seen; overflow detected''),
     (''CLOSED_CONNECTION'', ''data received after completed connection: close message''),
     (''INVALID_VERSION'', ''invalid HTTP version''),
     (''INVALID_STATUS'', ''invalid HTTP status code''),
     (''INVALID_METHOD'', ''invalid HTTP method''),
     (''INVALID_URL'', ''invalid URL''),
     (''INVALID_HOST'', ''invalid host''),
     (''INVALID_PORT'', ''invalid port''),
     (''INVALID_PATH'', ''invalid path''),
     (''INVALID_QUERY_STRING'', ''invalid query string''),
     (''INVALID_FRAGMENT'', ''invalid fragment''),
     (''LF_EXPECTED'', ''LF character expected''),
     (''INVALID_HEADER_TOKEN'', ''invalid character in header''),
     (''INVALID_CONTENT_LENGTH'', ''invalid character in content-length header''),
     (''UNEXPECTED_CONTENT_LENGTH'', ''unexpected content-length header''),
     (''INVALID_CHUNK_SIZE'', ''invalid character in chunk size header''),
     (''INVALID_CONSTANT'', ''invalid constant string''),
     (''INVALID_INTERNAL_STATE'', ''encountered unexpected internal state''),
     (''STRICT'', ''strict mode assertion failed''),
     (''PAUSED'', ''parser is paused''),
     (''UNKNOWN'', ''an unknown error occurred''),
     (''INVALID_TRANSFER_ENCODING'', ''request has invalid transfer-encoding'')]"

datatype http_method =
    HTTP_DELETE | HTTP_GET | HTTP_HEAD | HTTP_POST | HTTP_PUT | HTTP_CONNECT | HTTP_OPTIONS |
    HTTP_TRACE | HTTP_COPY | HTTP_LOCK | HTTP_MKCOL | HTTP_MOVE | HTTP_PROPFIND |
    HTTP_PROPPATCH | HTTP_SEARCH | HTTP_UNLOCK | HTTP_BIND | HTTP_REBIND | HTTP_UNBIND |
    HTTP_ACL | HTTP_REPORT | HTTP_MKACTIVITY | HTTP_CHECKOUT | HTTP_MERGE | HTTP_MSEARCH |
    HTTP_NOTIFY | HTTP_SUBSCRIBE | HTTP_UNSUBSCRIBE | HTTP_PATCH | HTTP_PURGE |
    HTTP_MKCALENDAR | HTTP_LINK | HTTP_UNLINK | HTTP_SOURCE

definition http_methods :: "http_method list" where
  "http_methods =
    [HTTP_DELETE, HTTP_GET, HTTP_HEAD, HTTP_POST, HTTP_PUT, HTTP_CONNECT, HTTP_OPTIONS,
     HTTP_TRACE, HTTP_COPY, HTTP_LOCK, HTTP_MKCOL, HTTP_MOVE, HTTP_PROPFIND, HTTP_PROPPATCH,
     HTTP_SEARCH, HTTP_UNLOCK, HTTP_BIND, HTTP_REBIND, HTTP_UNBIND, HTTP_ACL, HTTP_REPORT,
     HTTP_MKACTIVITY, HTTP_CHECKOUT, HTTP_MERGE, HTTP_MSEARCH, HTTP_NOTIFY, HTTP_SUBSCRIBE,
     HTTP_UNSUBSCRIBE, HTTP_PATCH, HTTP_PURGE, HTTP_MKCALENDAR, HTTP_LINK, HTTP_UNLINK,
     HTTP_SOURCE]"

datatype http_errno =
    HPE_OK | HPE_CB_message_begin | HPE_CB_url | HPE_CB_header_field | HPE_CB_header_value |
    HPE_CB_headers_complete | HPE_CB_body | HPE_CB_message_complete | HPE_CB_status |
    HPE_CB_chunk_header | HPE_CB_chunk_complete | HPE_INVALID_EOF_STATE | HPE_HEADER_OVERFLOW |
    HPE_CLOSED_CONNECTION | HPE_INVALID_VERSION | HPE_INVALID_STATUS | HPE_INVALID_METHOD |
    HPE_INVALID_URL | HPE_INVALID_HOST | HPE_INVALID_PORT | HPE_INVALID_PATH |
    HPE_INVALID_QUERY_STRING | HPE_INVALID_FRAGMENT | HPE_LF_EXPECTED |
    HPE_INVALID_HEADER_TOKEN | HPE_INVALID_CONTENT_LENGTH | HPE_UNEXPECTED_CONTENT_LENGTH |
    HPE_INVALID_CHUNK_SIZE | HPE_INVALID_CONSTANT | HPE_INVALID_INTERNAL_STATE | HPE_STRICT |
    HPE_PAUSED | HPE_UNKNOWN | HPE_INVALID_TRANSFER_ENCODING

definition http_errnos :: "http_errno list" where
  "http_errnos =
    [HPE_OK, HPE_CB_message_begin, HPE_CB_url, HPE_CB_header_field, HPE_CB_header_value,
     HPE_CB_headers_complete, HPE_CB_body, HPE_CB_message_complete, HPE_CB_status,
     HPE_CB_chunk_header, HPE_CB_chunk_complete, HPE_INVALID_EOF_STATE, HPE_HEADER_OVERFLOW,
     HPE_CLOSED_CONNECTION, HPE_INVALID_VERSION, HPE_INVALID_STATUS, HPE_INVALID_METHOD,
     HPE_INVALID_URL, HPE_INVALID_HOST, HPE_INVALID_PORT, HPE_INVALID_PATH,
     HPE_INVALID_QUERY_STRING, HPE_INVALID_FRAGMENT, HPE_LF_EXPECTED, HPE_INVALID_HEADER_TOKEN,
     HPE_INVALID_CONTENT_LENGTH, HPE_UNEXPECTED_CONTENT_LENGTH, HPE_INVALID_CHUNK_SIZE,
     HPE_INVALID_CONSTANT, HPE_INVALID_INTERNAL_STATE, HPE_STRICT, HPE_PAUSED, HPE_UNKNOWN,
     HPE_INVALID_TRANSFER_ENCODING]"

datatype http_parser_type = HTTP_REQUEST | HTTP_RESPONSE | HTTP_BOTH

text \<open>Values of \<^verbatim>\<open>enum flags\<close>, single bits of an eight-bit field.\<close>

definition F_CHUNKED :: uint8 where "F_CHUNKED = push_bit 0 1"
definition F_CONNECTION_KEEP_ALIVE :: uint8 where "F_CONNECTION_KEEP_ALIVE = push_bit 1 1"
definition F_CONNECTION_CLOSE :: uint8 where "F_CONNECTION_CLOSE = push_bit 2 1"
definition F_CONNECTION_UPGRADE :: uint8 where "F_CONNECTION_UPGRADE = push_bit 3 1"
definition F_TRAILING :: uint8 where "F_TRAILING = push_bit 4 1"
definition F_UPGRADE :: uint8 where "F_UPGRADE = push_bit 5 1"
definition F_SKIPBODY :: uint8 where "F_SKIPBODY = push_bit 6 1"
definition F_CONTENTLENGTH :: uint8 where "F_CONTENTLENGTH = push_bit 7 1"

datatype state =
    s_dead | s_start_req_or_res | s_res_or_resp_H | s_start_res | s_res_H | s_res_HT |
    s_res_HTT | s_res_HTTP | s_res_http_major | s_res_http_dot | s_res_http_minor |
    s_res_http_end | s_res_first_status_code | s_res_status_code | s_res_status_start |
    s_res_status | s_res_line_almost_done | s_start_req | s_req_method |
    s_req_spaces_before_url | s_req_schema | s_req_schema_slash | s_req_schema_slash_slash |
    s_req_server_start | s_req_server | s_req_server_with_at | s_req_path |
    s_req_query_string_start | s_req_query_string | s_req_fragment_start | s_req_fragment |
    s_req_http_start | s_req_http_H | s_req_http_HT | s_req_http_HTT | s_req_http_HTTP |
    s_req_http_I | s_req_http_IC | s_req_http_major | s_req_http_dot | s_req_http_minor |
    s_req_http_end | s_req_line_almost_done | s_header_field_start | s_header_field |
    s_header_value_discard_ws | s_header_value_discard_ws_almost_done |
    s_header_value_discard_lws | s_header_value_start | s_header_value | s_header_value_lws |
    s_header_almost_done | s_chunk_size_start | s_chunk_size | s_chunk_parameters |
    s_chunk_size_almost_done | s_headers_almost_done | s_headers_done | s_chunk_data |
    s_chunk_data_almost_done | s_chunk_data_done | s_body_identity | s_body_identity_eof |
    s_message_done

definition states :: "state list" where
  "states =
    [s_dead, s_start_req_or_res, s_res_or_resp_H, s_start_res, s_res_H, s_res_HT, s_res_HTT,
     s_res_HTTP, s_res_http_major, s_res_http_dot, s_res_http_minor, s_res_http_end,
     s_res_first_status_code, s_res_status_code, s_res_status_start, s_res_status,
     s_res_line_almost_done, s_start_req, s_req_method, s_req_spaces_before_url, s_req_schema,
     s_req_schema_slash, s_req_schema_slash_slash, s_req_server_start, s_req_server,
     s_req_server_with_at, s_req_path, s_req_query_string_start, s_req_query_string,
     s_req_fragment_start, s_req_fragment, s_req_http_start, s_req_http_H, s_req_http_HT,
     s_req_http_HTT, s_req_http_HTTP, s_req_http_I, s_req_http_IC, s_req_http_major,
     s_req_http_dot, s_req_http_minor, s_req_http_end, s_req_line_almost_done,
     s_header_field_start, s_header_field, s_header_value_discard_ws,
     s_header_value_discard_ws_almost_done, s_header_value_discard_lws, s_header_value_start,
     s_header_value, s_header_value_lws, s_header_almost_done, s_chunk_size_start,
     s_chunk_size, s_chunk_parameters, s_chunk_size_almost_done, s_headers_almost_done,
     s_headers_done, s_chunk_data, s_chunk_data_almost_done, s_chunk_data_done,
     s_body_identity, s_body_identity_eof, s_message_done]"

text \<open>The number an enumerator stands for: \<^verbatim>\<open>s_dead = 1\<close>, the others count up from it.\<close>

fun position :: "'a \<Rightarrow> 'a list \<Rightarrow> nat" where
  "position x [] = 0"
| "position x (y # ys) = (if x = y then 0 else Suc (position x ys))"

definition state_number :: "state \<Rightarrow> nat" where
  "state_number s = Suc (position s states)"

lemma position_nth: "x \<in> set xs \<Longrightarrow> xs ! position x xs = x"
  by (induction xs) auto

lemma state_number_eq_iff: "state_number s = state_number t \<longleftrightarrow> s = t"
proof -
  have "u \<in> set states" for u by (cases u) (simp_all add: states_def)
  then show ?thesis unfolding state_number_def by (metis position_nth old.nat.inject)
qed

text \<open>The code compares states as the integers of the enumeration.\<close>

instantiation state :: linorder
begin

definition less_eq_state :: "state \<Rightarrow> state \<Rightarrow> bool" where
  "less_eq_state s t \<longleftrightarrow> state_number s \<le> state_number t"

definition less_state :: "state \<Rightarrow> state \<Rightarrow> bool" where
  "less_state s t \<longleftrightarrow> state_number s < state_number t"

instance
  by standard (auto simp: less_eq_state_def less_state_def state_number_eq_iff)

end

definition PARSING_HEADER :: "state \<Rightarrow> bool" where
  "PARSING_HEADER s \<longleftrightarrow> s \<le> s_headers_done"

datatype header_states =
    h_general | h_C | h_CO | h_CON | h_matching_connection | h_matching_proxy_connection |
    h_matching_content_length | h_matching_transfer_encoding | h_matching_upgrade |
    h_connection | h_content_length | h_content_length_num | h_content_length_ws |
    h_transfer_encoding | h_upgrade | h_matching_transfer_encoding_token_start |
    h_matching_transfer_encoding_chunked | h_matching_transfer_encoding_token |
    h_matching_connection_token_start | h_matching_connection_keep_alive |
    h_matching_connection_close | h_matching_connection_upgrade | h_matching_connection_token |
    h_transfer_encoding_chunked | h_connection_keep_alive | h_connection_close |
    h_connection_upgrade

datatype http_host_state =
    s_http_host_dead | s_http_userinfo_start | s_http_userinfo | s_http_host_start |
    s_http_host_v6_start | s_http_host | s_http_host_v6 | s_http_host_v6_end |
    s_http_host_v6_zone_start | s_http_host_v6_zone | s_http_host_port_start | s_http_host_port

datatype http_parser_url_fields =
    UF_SCHEMA | UF_HOST | UF_PORT | UF_PATH | UF_QUERY | UF_FRAGMENT | UF_USERINFO | UF_MAX

section \<open>Byte tables\<close>

abbreviation NUL :: char where "NUL \<equiv> CHR 0x00"
abbreviation CR :: char where "CR \<equiv> CHR 0x0D"
abbreviation LF :: char where "LF \<equiv> CHR 0x0A"
abbreviation HT :: char where "HT \<equiv> CHR 0x09"
abbreviation FF :: char where "FF \<equiv> CHR 0x0C"

definition byte :: "char \<Rightarrow> uint8" where
  "byte c = of_char c"

definition byte_index :: "char \<Rightarrow> nat" where
  "byte_index c = of_char c"

text \<open>
  The initializers of \<^verbatim>\<open>tokens\<close>, \<^verbatim>\<open>unhex\<close> and \<^verbatim>\<open>normal_url_char\<close> stop half way; C fills the
  rest of each array with zeros.
\<close>

definition tokens :: "char list" where
  "tokens =
     replicate 32 NUL @
     [CHR '' '', CHR ''!'', NUL, CHR ''#'', CHR ''$'', CHR ''%'', CHR ''&'', CHR 0x27] @
     [NUL, NUL, CHR ''*'', CHR ''+'', NUL, CHR ''-'', CHR ''.'', NUL] @
     ''01234567'' @
     [CHR ''8'', CHR ''9'', NUL, NUL, NUL, NUL, NUL, NUL] @
     NUL # ''abcdefg'' @
     ''hijklmno'' @
     ''pqrstuvw'' @
     [CHR ''x'', CHR ''y'', CHR ''z'', NUL, NUL, NUL, CHR ''^'', CHR ''_''] @
     CHR 0x60 # ''abcdefg'' @
     ''hijklmno'' @
     ''pqrstuvw'' @
     [CHR ''x'', CHR ''y'', CHR ''z'', NUL, CHR ''|'', NUL, CHR ''~'', NUL] @
     replicate 128 NUL"

definition unhex :: "int list" where
  "unhex =
    [- 1, - 1, - 1, - 1, - 1, - 1, - 1, - 1, - 1, - 1, - 1, - 1, - 1, - 1, - 1, - 1,
     - 1, - 1, - 1, - 1, - 1, - 1, - 1, - 1, - 1, - 1, - 1, - 1, - 1, - 1, - 1, - 1,
     - 1, - 1, - 1, - 1, - 1, - 1, - 1, - 1, - 1, - 1, - 1, - 1, - 1, - 1, - 1, - 1,
     0, 1, 2, 3, 4, 5, 6, 7, 8, 9, - 1, - 1, - 1, - 1, - 1, - 1,
     - 1, 10, 11, 12, 13, 14, 15, - 1, - 1, - 1, - 1, - 1, - 1, - 1, - 1, - 1,
     - 1, - 1, - 1, - 1, - 1, - 1, - 1, - 1, - 1, - 1, - 1, - 1, - 1, - 1, - 1, - 1,
     - 1, 10, 11, 12, 13, 14, 15, - 1, - 1, - 1, - 1, - 1, - 1, - 1, - 1, - 1,
     - 1, - 1, - 1, - 1, - 1, - 1, - 1, - 1, - 1, - 1, - 1, - 1, - 1, - 1, - 1, - 1] @
     replicate 128 0"

definition T_bit :: "bool \<Rightarrow> uint8 \<Rightarrow> uint8" where
  "T_bit strict v = (if strict then 0 else v)"

definition byte_of_bits :: "uint8 list \<Rightarrow> uint8" where
  "byte_of_bits bs = foldr (OR) bs 0"

definition normal_url_char :: "bool \<Rightarrow> uint8 list" where
  "normal_url_char strict =
    [0,
     byte_of_bits [0, (T_bit strict 2), 0, 0, (T_bit strict 16), 0, 0, 0],
     0,
     0,
     byte_of_bits [0, 2, 4, 0, 16, 32, 64, 128],
     byte_of_bits [1, 2, 4, 8, 16, 32, 64, 128],
     byte_of_bits [1, 2, 4, 8, 16, 32, 64, 128],
     byte_of_bits [1, 2, 4, 8, 16, 32, 64, 0],
     byte_of_bits [1, 2, 4, 8, 16, 32, 64, 128],
     byte_of_bits [1, 2, 4, 8, 16, 32, 64, 128],
     byte_of_bits [1, 2, 4, 8, 16, 32, 64, 128],
     byte_of_bits [1, 2, 4, 8, 16, 32, 64, 128],
     byte_of_bits [1, 2, 4, 8, 16, 32, 64, 128],
     byte_of_bits [1, 2, 4, 8, 16, 32, 64, 128],
     byte_of_bits [1, 2, 4, 8, 16, 32, 64, 128],
     byte_of_bits [1, 2, 4, 8, 16, 32, 64, 0]] @
     replicate 16 0"

definition BIT_AT :: "uint8 list \<Rightarrow> nat \<Rightarrow> bool" where
  "BIT_AT a i \<longleftrightarrow> (a ! (i div 8)) AND push_bit (i mod 8) 1 \<noteq> 0"

definition ELEM_AT :: "'a list \<Rightarrow> nat \<Rightarrow> 'a \<Rightarrow> 'a" where
  "ELEM_AT a i v = (if i < length a then a ! i else v)"

section \<open>Character classes\<close>

definition LOWER :: "char \<Rightarrow> char" where
  "LOWER c = char_of (unat (byte c OR 0x20))"

definition IS_ALPHA :: "char \<Rightarrow> bool" where
  "IS_ALPHA c \<longleftrightarrow> byte CHR ''a'' \<le> byte (LOWER c) \<and> byte (LOWER c) \<le> byte CHR ''z''"

definition IS_NUM :: "char \<Rightarrow> bool" where
  "IS_NUM c \<longleftrightarrow> byte CHR ''0'' \<le> byte c \<and> byte c \<le> byte CHR ''9''"

definition IS_ALPHANUM :: "char \<Rightarrow> bool" where
  "IS_ALPHANUM c \<longleftrightarrow> IS_ALPHA c \<or> IS_NUM c"

definition IS_HEX :: "char \<Rightarrow> bool" where
  "IS_HEX c \<longleftrightarrow> IS_NUM c \<or> (byte CHR ''a'' \<le> byte (LOWER c) \<and> byte (LOWER c) \<le> byte CHR ''f'')"

definition IS_MARK :: "char \<Rightarrow> bool" where
  "IS_MARK c \<longleftrightarrow> c = CHR ''-'' \<or> c = CHR ''_'' \<or> c = CHR ''.'' \<or> c = CHR ''!'' \<or> c = CHR ''~'' \<or>
     c = CHR ''*'' \<or> c = CHR 0x27 \<or> c = CHR ''('' \<or> c = CHR '')''"

definition IS_USERINFO_CHAR :: "char \<Rightarrow> bool" where
  "IS_USERINFO_CHAR c \<longleftrightarrow> IS_ALPHANUM c \<or> IS_MARK c \<or> c = CHR ''%'' \<or> c = CHR '';'' \<or> c = CHR '':'' \<or>
     c = CHR ''&'' \<or> c = CHR ''='' \<or> c = CHR ''+'' \<or> c = CHR ''$'' \<or> c = CHR '',''"

definition IS_SCHEMA_CHAR :: "char \<Rightarrow> bool" where
  "IS_SCHEMA_CHAR c \<longleftrightarrow> IS_ALPHANUM c \<or> c = CHR ''.'' \<or> c = CHR ''-'' \<or> c = CHR ''+''"

definition STRICT_TOKEN :: "char \<Rightarrow> char" where
  "STRICT_TOKEN c = (if c = CHR '' '' then NUL else tokens ! byte_index c)"

definition TOKEN :: "bool \<Rightarrow> char \<Rightarrow> char" where
  "TOKEN strict c = (if strict then STRICT_TOKEN c else tokens ! byte_index c)"

definition IS_URL_CHAR :: "bool \<Rightarrow> char \<Rightarrow> bool" where
  "IS_URL_CHAR strict c \<longleftrightarrow>
     (if strict then BIT_AT (normal_url_char strict) (byte_index c)
      else BIT_AT (normal_url_char strict) (byte_index c) \<or> byte c AND 0x80 \<noteq> 0)"

definition IS_HOST_CHAR :: "bool \<Rightarrow> char \<Rightarrow> bool" where
  "IS_HOST_CHAR strict c \<longleftrightarrow>
     (if strict then IS_ALPHANUM c \<or> c = CHR ''.'' \<or> c = CHR ''-''
      else IS_ALPHANUM c \<or> c = CHR ''.'' \<or> c = CHR ''-'' \<or> c = CHR ''_'')"

definition IS_HEADER_CHAR :: "char \<Rightarrow> bool" where
  "IS_HEADER_CHAR ch \<longleftrightarrow> ch = CR \<or> ch = LF \<or> ch = HT \<or> (31 < byte ch \<and> byte ch \<noteq> 127)"

section \<open>Strings of the maps\<close>

definition method_strings :: "string list" where
  "method_strings = map (\<lambda>(num, name, str). str) HTTP_METHOD_MAP"

definition method_number :: "http_method \<Rightarrow> nat" where
  "method_number m = position m http_methods"

definition errno_number :: "http_errno \<Rightarrow> nat" where
  "errno_number e = position e http_errnos"

definition http_strerror_tab :: "(string \<times> string) list" where
  "http_strerror_tab = map (\<lambda>(n, s). (''HPE_'' @ n, s)) HTTP_ERRNO_MAP"

definition http_method_str :: "nat \<Rightarrow> string" where
  "http_method_str m = ELEM_AT method_strings m ''<unknown>''"

definition http_status_str :: "nat \<Rightarrow> string" where
  "http_status_str s =
     (case map_of (map (\<lambda>(num, name, str). (num, str)) HTTP_STATUS_MAP) s of
        Some str \<Rightarrow> str
      | None \<Rightarrow> ''<unknown>'')"

definition http_errno_name :: "nat \<Rightarrow> fault + string" where
  "http_errno_name err =
     (if err < length http_strerror_tab then Inr (fst (http_strerror_tab ! err))
      else Inl (AssertFailed ''((size_t) err) < ARRAY_SIZE(http_strerror_tab)''))"

definition http_errno_description :: "nat \<Rightarrow> fault + string" where
  "http_errno_description err =
     (if err < length http_strerror_tab then Inr (snd (http_strerror_tab ! err))
      else Inl (AssertFailed ''((size_t) err) < ARRAY_SIZE(http_strerror_tab)''))"

definition http_parser_version :: "64 word" where
  "http_parser_version = 2 * 0x10000 OR 9 * 0x00100 OR 4 * 0x00001"

end
