(* ===== verification/Http_Url.thy ===== *)
theory Http_Url
  imports Http_Chars
begin

text \<open>
  The URL parser of \<^verbatim>\<open>http_parser.c\<close>: \<^verbatim>\<open>parse_url_char\<close>, \<^verbatim>\<open>http_parse_host_char\<close>,
  \<^verbatim>\<open>http_parse_host\<close> and \<^verbatim>\<open>http_parser_parse_url\<close>.  Offsets and lengths are the
  \<^verbatim>\<open>uint16_t\<close> fields of \<^verbatim>\<open>struct http_parser_url\<close>, so they wrap as in C; every read of
  the buffer is checked against its length, and a failed assertion is a fault.
\<close>

section \<open>Data\<close>

record url_field =
  off :: uint16
  len :: uint16

record http_parser_url =
  field_set :: uint16
  port :: uint16
  field_data :: "http_parser_url_fields \<Rightarrow> url_field"

fun uf_number :: "http_parser_url_fields \<Rightarrow> nat" where
  "uf_number UF_SCHEMA = 0"
| "uf_number UF_HOST = 1"
| "uf_number UF_PORT = 2"
| "uf_number UF_PATH = 3"
| "uf_number UF_QUERY = 4"
| "uf_number UF_FRAGMENT = 5"
| "uf_number UF_USERINFO = 6"
| "uf_number UF_MAX = 7"

definition uf_bit :: "http_parser_url_fields \<Rightarrow> uint16" where
  "uf_bit uf = push_bit (uf_number uf) 1"

definition has_field :: "http_parser_url \<Rightarrow> http_parser_url_fields \<Rightarrow> bool" where
  "has_field u uf \<longleftrightarrow> field_set u AND uf_bit uf \<noteq> 0"

definition http_parser_url_init :: http_parser_url where
  "http_parser_url_init = \<lparr>field_set = 0, port = 0, field_data = (\<lambda>_. \<lparr>off = 0, len = 0\<rparr>)\<rparr>"

text \<open>The three ways the loops write a field.\<close>

definition set_field :: "http_parser_url_fields \<Rightarrow> url_field \<Rightarrow> http_parser_url \<Rightarrow> http_parser_url" where
  "set_field uf d u = u\<lparr>field_data := (field_data u)(uf := d)\<rparr>"

definition start_field :: "http_parser_url_fields \<Rightarrow> nat \<Rightarrow> http_parser_url \<Rightarrow> http_parser_url" where
  "start_field uf p u = (set_field uf \<lparr>off = of_nat p, len = 1\<rparr> u)\<lparr>field_set := field_set u OR uf_bit uf\<rparr>"

definition bump_len :: "http_parser_url_fields \<Rightarrow> http_parser_url \<Rightarrow> http_parser_url" where
  "bump_len uf u = set_field uf ((field_data u uf)\<lparr>len := len (field_data u uf) + 1\<rparr>) u"

section \<open>The character automata\<close>

text \<open>The cases shared by \<^verbatim>\<open>s_req_server_start\<close>, \<^verbatim>\<open>s_req_server\<close> and \<^verbatim>\<open>s_req_server_with_at\<close>.\<close>

definition url_server_char :: "char \<Rightarrow> state" where
  "url_server_char ch =
     (if ch = CHR ''/'' then s_req_path
      else if ch = CHR ''?'' then s_req_query_string_start
      else if ch = CHR ''@'' then s_req_server_with_at
      else if IS_USERINFO_CHAR ch \<or> ch = CHR ''['' \<or> ch = CHR '']'' then s_req_server
      else s_dead)"

definition parse_url_char :: "bool \<Rightarrow> state \<Rightarrow> char \<Rightarrow> state" where
  "parse_url_char strict s ch =
     (if ch = CHR '' '' \<or> ch = CR \<or> ch = LF then s_dead
      else if strict \<and> (ch = HT \<or> ch = FF) then s_dead
      else
        (case s of
           s_req_spaces_before_url \<Rightarrow>
             (if ch = CHR ''/'' \<or> ch = CHR ''*'' then s_req_path
              else if IS_ALPHA ch then s_req_schema
              else s_dead)
         | s_req_schema \<Rightarrow>
             (if IS_SCHEMA_CHAR ch then s
              else if ch = CHR '':'' then s_req_schema_slash
              else s_dead)
         | s_req_schema_slash \<Rightarrow> (if ch = CHR ''/'' then s_req_schema_slash_slash else s_dead)
         | s_req_schema_slash_slash \<Rightarrow> (if ch = CHR ''/'' then s_req_server_start else s_dead)
         | s_req_server_with_at \<Rightarrow> (if ch = CHR ''@'' then s_dead else url_server_char ch)
         | s_req_server_start \<Rightarrow> url_server_char ch
         | s_req_server \<Rightarrow> url_server_char ch
         | s_req_path \<Rightarrow>
             (if IS_URL_CHAR strict ch then s
              else if ch = CHR ''?'' then s_req_query_string_start
              else if ch = CHR ''#'' then s_req_fragment_start
              else s_dead)
         | s_req_query_string_start \<Rightarrow>
             (if IS_URL_CHAR strict ch then s_req_query_string
              else if ch = CHR ''?'' then s_req_query_string
              else if ch = CHR ''#'' then s_req_fragment_start
              else s_dead)
         | s_req_query_string \<Rightarrow>
             (if IS_URL_CHAR strict ch then s_req_query_string
              else if ch = CHR ''?'' then s_req_query_string
              else if ch = CHR ''#'' then s_req_fragment_start
              else s_dead)
         | s_req_fragment_start \<Rightarrow>
             (if IS_URL_CHAR strict ch then s_req_fragment
              else if ch = CHR ''?'' then s_req_fragment
              else if ch = CHR ''#'' then s
              else s_dead)
         | s_req_fragment \<Rightarrow>
             (if IS_URL_CHAR strict ch then s
              else if ch = CHR ''?'' \<or> ch = CHR ''#'' then s
              else s_dead)
         | _ \<Rightarrow> s_dead))"

definition http_parse_host_char :: "bool \<Rightarrow> http_host_state \<Rightarrow> char \<Rightarrow> http_host_state" where
  "http_parse_host_char strict s ch =
     (case s of
        s_http_userinfo \<Rightarrow>
          (if ch = CHR ''@'' then s_http_host_start
           else if IS_USERINFO_CHAR ch then s_http_userinfo
           else s_http_host_dead)
      | s_http_userinfo_start \<Rightarrow>
          (if ch = CHR ''@'' then s_http_host_start
           else if IS_USERINFO_CHAR ch then s_http_userinfo
           else s_http_host_dead)
      | s_http_host_start \<Rightarrow>
          (if ch = CHR ''['' then s_http_host_v6_start
           else if IS_HOST_CHAR strict ch then s_http_host
           else s_http_host_dead)
      | s_http_host \<Rightarrow>
          (if IS_HOST_CHAR strict ch then s_http_host
           else if ch = CHR '':'' then s_http_host_port_start
           else s_http_host_dead)
      | s_http_host_v6_end \<Rightarrow>
          (if ch = CHR '':'' then s_http_host_port_start else s_http_host_dead)
      | s_http_host_v6 \<Rightarrow>
          (if ch = CHR '']'' then s_http_host_v6_end
           else if IS_HEX ch \<or> ch = CHR '':'' \<or> ch = CHR ''.'' then s_http_host_v6
           else if ch = CHR ''%'' then s_http_host_v6_zone_start
           else s_http_host_dead)
      | s_http_host_v6_start \<Rightarrow>
          (if IS_HEX ch \<or> ch = CHR '':'' \<or> ch = CHR ''.'' then s_http_host_v6
           else s_http_host_dead)
      | s_http_host_v6_zone \<Rightarrow>
          (if ch = CHR '']'' then s_http_host_v6_end
           else if IS_ALPHANUM ch \<or> ch = CHR ''%'' \<or> ch = CHR ''.'' \<or> ch = CHR ''-'' \<or> ch = CHR ''_'' \<or> ch = CHR ''~''
             then s_http_host_v6_zone
           else s_http_host_dead)
      | s_http_host_v6_zone_start \<Rightarrow>
          (if IS_ALPHANUM ch \<or> ch = CHR ''%'' \<or> ch = CHR ''.'' \<or> ch = CHR ''-'' \<or> ch = CHR ''_'' \<or> ch = CHR ''~''
             then s_http_host_v6_zone
           else s_http_host_dead)
      | s_http_host_port \<Rightarrow> (if IS_NUM ch then s_http_host_port else s_http_host_dead)
      | s_http_host_port_start \<Rightarrow> (if IS_NUM ch then s_http_host_port else s_http_host_dead)
      | s_http_host_dead \<Rightarrow> s_http_host_dead)"

section \<open>Parsing the host part\<close>

text \<open>The \<^verbatim>\<open>switch(new_s)\<close> of the loop of \<^verbatim>\<open>http_parse_host\<close>.\<close>

definition host_field_step :: "http_host_state \<Rightarrow> http_host_state \<Rightarrow> nat \<Rightarrow> http_parser_url \<Rightarrow> http_parser_url" where
  "host_field_step s new_s p u =
     (case new_s of
        s_http_host \<Rightarrow>
          bump_len UF_HOST
            (if s \<noteq> s_http_host then set_field UF_HOST ((field_data u UF_HOST)\<lparr>off := of_nat p\<rparr>) u else u)
      | s_http_host_v6 \<Rightarrow>
          bump_len UF_HOST
            (if s \<noteq> s_http_host_v6 then set_field UF_HOST ((field_data u UF_HOST)\<lparr>off := of_nat p\<rparr>) u else u)
      | s_http_host_v6_zone_start \<Rightarrow> bump_len UF_HOST u
      | s_http_host_v6_zone \<Rightarrow> bump_len UF_HOST u
      | s_http_host_port \<Rightarrow>
          bump_len UF_PORT
            (if s \<noteq> s_http_host_port
             then (set_field UF_PORT \<lparr>off = of_nat p, len = 0\<rparr> u)\<lparr>field_set := field_set u OR uf_bit UF_PORT\<rparr>
             else u)
      | s_http_userinfo \<Rightarrow>
          bump_len UF_USERINFO
            (if s \<noteq> s_http_userinfo
             then (set_field UF_USERINFO \<lparr>off = of_nat p, len = 0\<rparr> u)\<lparr>field_set := field_set u OR uf_bit UF_USERINFO\<rparr>
             else u)
      | _ \<Rightarrow> u)"

text \<open>The loop; \<open>None\<close> is its early return of 1.\<close>

function host_loop ::
    "bool \<Rightarrow> string \<Rightarrow> nat \<Rightarrow> nat \<Rightarrow> http_host_state \<Rightarrow> http_parser_url
      \<Rightarrow> fault + (http_host_state option \<times> http_parser_url)" where
  "host_loop strict buf buflen p s u =
     (if p < buflen then
        if p < length buf then
          (let new_s = http_parse_host_char strict s (buf ! p) in
           if new_s = s_http_host_dead then Inr (None, u)
           else host_loop strict buf buflen (Suc p) new_s (host_field_step s new_s p u))
        else Inl OutOfBounds
      else Inr (Some s, u))"
  by pat_completeness auto
termination
  by (relation "measure (\<lambda>(strict, buf, buflen, p, s, u). buflen - p)") auto

declare host_loop.simps [simp del]

definition host_end_ok :: "http_host_state \<Rightarrow> bool" where
  "host_end_ok s \<longleftrightarrow>
     s \<notin> {s_http_host_start, s_http_host_v6_start, s_http_host_v6, s_http_host_v6_zone_start,
           s_http_host_v6_zone, s_http_host_port_start, s_http_userinfo, s_http_userinfo_start}"

text \<open>Both parsers return the value of the C function, 0 or 1, and the structure they filled in.\<close>

definition http_parse_host ::
    "bool \<Rightarrow> string \<Rightarrow> http_parser_url \<Rightarrow> bool \<Rightarrow> fault + (nat \<times> http_parser_url)" where
  "http_parse_host strict buf u found_at =
     (let start = unat (off (field_data u UF_HOST));
          buflen = start + unat (len (field_data u UF_HOST))
      in and_then (check (AssertFailed ''u->field_set & (1 << UF_HOST)'') (has_field u UF_HOST)) (\<lambda>_.
         and_then (host_loop strict buf buflen start
                     (if found_at then s_http_userinfo_start else s_http_host_start)
                     (set_field UF_HOST ((field_data u UF_HOST)\<lparr>len := 0\<rparr>) u)) (\<lambda>(r, u1).
           case r of
             None \<Rightarrow> Inr (1, u1)
           | Some s \<Rightarrow> Inr (if host_end_ok s then 0 else 1, u1))))"

section \<open>Parsing a URL\<close>

text \<open>The \<^verbatim>\<open>switch (s)\<close> of the loop of \<^verbatim>\<open>http_parser_parse_url\<close>.\<close>

datatype url_action = ReturnError | SkipDelimiter | InField http_parser_url_fields | UnexpectedState

definition url_action :: "state \<Rightarrow> url_action" where
  "url_action s =
     (case s of
        s_dead \<Rightarrow> ReturnError
      | s_req_schema_slash \<Rightarrow> SkipDelimiter
      | s_req_schema_slash_slash \<Rightarrow> SkipDelimiter
      | s_req_server_start \<Rightarrow> SkipDelimiter
      | s_req_query_string_start \<Rightarrow> SkipDelimiter
      | s_req_fragment_start \<Rightarrow> SkipDelimiter
      | s_req_schema \<Rightarrow> InField UF_SCHEMA
      | s_req_server_with_at \<Rightarrow> InField UF_HOST
      | s_req_server \<Rightarrow> InField UF_HOST
      | s_req_path \<Rightarrow> InField UF_PATH
      | s_req_query_string \<Rightarrow> InField UF_QUERY
      | s_req_fragment \<Rightarrow> InField UF_FRAGMENT
      | _ \<Rightarrow> UnexpectedState)"

fun url_loop ::
    "bool \<Rightarrow> string \<Rightarrow> nat \<Rightarrow> state \<Rightarrow> http_parser_url_fields \<Rightarrow> bool \<Rightarrow> http_parser_url
      \<Rightarrow> fault + (bool option \<times> http_parser_url)" where
  "url_loop strict [] p s old_uf found_at u = Inr (Some found_at, u)"
| "url_loop strict (ch # rest) p s old_uf found_at u =
     (let s1 = parse_url_char strict s ch;
          found1 = (found_at \<or> s1 = s_req_server_with_at)
      in case url_action s1 of
           ReturnError \<Rightarrow> Inr (None, u)
         | SkipDelimiter \<Rightarrow> url_loop strict rest (Suc p) s1 old_uf found_at u
         | UnexpectedState \<Rightarrow> Inl (AssertFailed ''Unexpected state'')
         | InField uf \<Rightarrow>
             if uf = old_uf then url_loop strict rest (Suc p) s1 old_uf found1 (bump_len uf u)
             else url_loop strict rest (Suc p) s1 uf found1 (start_field uf p u))"

text \<open>
  The port loop: \<^verbatim>\<open>v\<close> is an \<^verbatim>\<open>unsigned long\<close> and \<^verbatim>\<open>*p - '0'\<close> an \<^verbatim>\<open>int\<close>, negative for
  a byte below \<^verbatim>\<open>'0'\<close>.
\<close>

definition digit_value :: "char \<Rightarrow> 64 word" where
  "digit_value c = of_int (sint (byte c) - 48)"

function port_loop :: "string \<Rightarrow> nat \<Rightarrow> nat \<Rightarrow> 64 word \<Rightarrow> fault + 64 word option" where
  "port_loop buf endp p v =
     (if p < endp then
        if p < length buf then
          (let v1 = v * 10 + digit_value (buf ! p) in
           if 0xffff < v1 then Inr None else port_loop buf endp (Suc p) v1)
        else Inl OutOfBounds
      else Inr (Some v))"
  by pat_completeness auto
termination
  by (relation "measure (\<lambda>(buf, endp, p, v). endp - p)") auto

declare port_loop.simps [simp del]

text \<open>The conversion of the port after the other fields are known.\<close>

definition convert_port :: "string \<Rightarrow> http_parser_url \<Rightarrow> fault + (nat \<times> http_parser_url)" where
  "convert_port buf u =
     (if has_field u UF_PORT then
        let po = unat (off (field_data u UF_PORT)); pl = unat (len (field_data u UF_PORT)) in
        and_then (check (AssertFailed ''Port number overflow'') (po + pl \<le> length buf)) (\<lambda>_.
        and_then (port_loop buf (po + pl) po 0) (\<lambda>r.
          case r of
            None \<Rightarrow> Inr (1, u)
          | Some v \<Rightarrow> Inr (0, u\<lparr>port := ucast v\<rparr>)))
      else Inr (0, u))"

definition http_parser_parse_url ::
    "bool \<Rightarrow> string \<Rightarrow> bool \<Rightarrow> http_parser_url \<Rightarrow> fault + (nat \<times> http_parser_url)" where
  "http_parser_parse_url strict buf is_connect u0 =
     (if buf = [] then Inr (1, u0)
      else
        and_then (url_loop strict buf 0
                    (if is_connect then s_req_server_start else s_req_spaces_before_url) UF_MAX False
                    (u0\<lparr>port := 0, field_set := 0\<rparr>)) (\<lambda>(r, u1).
        case r of
          None \<Rightarrow> Inr (1, u1)
        | Some found_at \<Rightarrow>
            if has_field u1 UF_SCHEMA \<and> \<not> has_field u1 UF_HOST then Inr (1, u1)
            else
              and_then (if has_field u1 UF_HOST then http_parse_host strict buf u1 found_at
                        else Inr (0, u1)) (\<lambda>(rh, u2).
                if rh \<noteq> 0 then Inr (1, u2)
                else if is_connect \<and> field_set u2 \<noteq> uf_bit UF_HOST OR uf_bit UF_PORT then Inr (1, u2)
                else convert_port buf u2)))"

end
