(* ===== verification/Http_Url_Spans.thy ===== *)
theory Http_Url_Spans
  imports Http_Url
begin

text \<open>
  What the URL parser computes, without reference to its loops: the fields are the positions
  at which the character automata stand in the states of that field.
\<close>

unbundle bit_operations_syntax

section \<open>Automata with a dead state\<close>

text \<open>
  Both parsers drive a byte automaton.  What their loops rely on: the dead state is never
  left, and every live step keeps or raises a rank.
\<close>

locale byte_automaton =
  fixes next_state :: "'s \<Rightarrow> char \<Rightarrow> 's" and dead :: 's
  assumes dead_absorbs: "next_state dead c = dead"
begin

lemma run_dead: "foldl next_state dead cs = dead"
  by (induction cs) (simp_all add: dead_absorbs)

lemma run_prefix_alive: "foldl next_state s (xs @ ys) \<noteq> dead \<Longrightarrow> foldl next_state s xs \<noteq> dead"
  by (metis foldl_append run_dead)

end

locale ranked_automaton = byte_automaton +
  fixes rank :: "'s \<Rightarrow> nat"
  assumes rank_mono: "next_state s c \<noteq> dead \<Longrightarrow> rank s \<le> rank (next_state s c)"
begin

lemma run_rank_mono: "foldl next_state s cs \<noteq> dead \<Longrightarrow> rank s \<le> rank (foldl next_state s cs)"
proof (induction cs rule: rev_induct)
  case (snoc c cs)
  then have "foldl next_state s cs \<noteq> dead" using run_prefix_alive [of s cs "[c]"] by simp
  with snoc rank_mono [of "foldl next_state s cs" c] show ?case by simp
qed simp

end

fun url_rank :: "state \<Rightarrow> nat" where
  "url_rank s_req_schema = 1"
| "url_rank s_req_schema_slash = 2"
| "url_rank s_req_schema_slash_slash = 3"
| "url_rank s_req_server_start = 4"
| "url_rank s_req_server = 5"
| "url_rank s_req_server_with_at = 5"
| "url_rank s_req_path = 6"
| "url_rank s_req_query_string_start = 7"
| "url_rank s_req_query_string = 8"
| "url_rank s_req_fragment_start = 9"
| "url_rank s_req_fragment = 10"
| "url_rank _ = 0"


text \<open>The live transitions of the URL automaton.\<close>

definition url_edges :: "(state \<times> state) list" where
  "url_edges =
     [(s_req_spaces_before_url, s_req_path), (s_req_spaces_before_url, s_req_schema),
      (s_req_schema, s_req_schema), (s_req_schema, s_req_schema_slash),
      (s_req_schema_slash, s_req_schema_slash_slash), (s_req_schema_slash_slash, s_req_server_start),
      (s_req_server_start, s_req_path), (s_req_server_start, s_req_query_string_start),
      (s_req_server_start, s_req_server_with_at), (s_req_server_start, s_req_server),
      (s_req_server, s_req_path), (s_req_server, s_req_query_string_start),
      (s_req_server, s_req_server_with_at), (s_req_server, s_req_server),
      (s_req_server_with_at, s_req_path), (s_req_server_with_at, s_req_query_string_start),
      (s_req_server_with_at, s_req_server),
      (s_req_path, s_req_path), (s_req_path, s_req_query_string_start), (s_req_path, s_req_fragment_start),
      (s_req_query_string_start, s_req_query_string), (s_req_query_string_start, s_req_fragment_start),
      (s_req_query_string, s_req_query_string), (s_req_query_string, s_req_fragment_start),
      (s_req_fragment_start, s_req_fragment), (s_req_fragment_start, s_req_fragment_start),
      (s_req_fragment, s_req_fragment)]"

lemma parse_url_char_edge:
  "parse_url_char strict s c \<noteq> s_dead \<Longrightarrow> (s, parse_url_char strict s c) \<in> set url_edges"
  by (cases s) (auto simp: parse_url_char_def url_server_char_def url_edges_def split: if_splits)

lemma url_edge_rank: "(s, t) \<in> set url_edges \<Longrightarrow> url_rank s \<le> url_rank t"
  by (auto simp: url_edges_def)

lemma parse_url_char_rank:
  "parse_url_char strict s c \<noteq> s_dead \<Longrightarrow> url_rank s \<le> url_rank (parse_url_char strict s c)"
  by (rule url_edge_rank [OF parse_url_char_edge])

interpretation url: ranked_automaton "parse_url_char strict" s_dead url_rank for strict
  by unfold_locales (simp_all add: parse_url_char_rank, simp add: parse_url_char_def)

fun host_rank :: "http_host_state \<Rightarrow> nat" where
  "host_rank s_http_userinfo = 1"
| "host_rank s_http_host_start = 2"
| "host_rank s_http_host_v6_start = 3"
| "host_rank s_http_host = 4"
| "host_rank s_http_host_v6 = 4"
| "host_rank s_http_host_v6_zone_start = 4"
| "host_rank s_http_host_v6_zone = 4"
| "host_rank s_http_host_v6_end = 5"
| "host_rank s_http_host_port_start = 6"
| "host_rank s_http_host_port = 7"
| "host_rank _ = 0"

lemma http_parse_host_char_rank:
  "http_parse_host_char strict s c \<noteq> s_http_host_dead \<Longrightarrow> host_rank s \<le> host_rank (http_parse_host_char strict s c)"
  by (cases s) (auto simp: http_parse_host_char_def split: if_splits)

interpretation host: ranked_automaton "http_parse_host_char strict" s_http_host_dead host_rank for strict
  by unfold_locales (simp_all add: http_parse_host_char_rank, simp add: http_parse_host_char_def)

section \<open>The bits of a field set\<close>

lemma uf_number_inj [simp]: "uf_number a = uf_number b \<longleftrightarrow> a = b"
  by (cases a; cases b) simp_all

lemma uf_number_less: "uf_number uf < 16"
  by (cases uf) simp_all

lemma bit_uf_bit: "bit (uf_bit uf) n \<longleftrightarrow> n = uf_number uf"
  using uf_number_less [of uf] by (auto simp: uf_bit_def bit_simps)

lemma has_field_bit: "has_field u uf \<longleftrightarrow> bit (field_set u) (uf_number uf)"
proof -
  have "field_set u AND uf_bit uf = (if bit (field_set u) (uf_number uf) then uf_bit uf else 0)"
    by (rule bit_word_eqI) (auto simp: bit_and_iff bit_uf_bit)
  moreover have "uf_bit uf \<noteq> 0" using bit_uf_bit [of uf "uf_number uf"] by auto
  ultimately show ?thesis by (simp add: has_field_def)
qed

lemma has_field_simps [simp]:
  "has_field (u\<lparr>port := x\<rparr>) uf = has_field u uf"
  "has_field (u\<lparr>field_data := m\<rparr>) uf = has_field u uf"
  "has_field (u\<lparr>field_set := 0\<rparr>) uf = False"
  "has_field (v\<lparr>field_set := field_set u OR uf_bit uf'\<rparr>) uf = (uf = uf' \<or> has_field u uf)"
  "has_field (set_field uf' d u) uf = has_field u uf"
  "has_field (bump_len uf' u) uf = has_field u uf"
  "has_field (start_field uf' p u) uf = (uf = uf' \<or> has_field u uf)"
  by (auto simp: has_field_bit bump_len_def set_field_def start_field_def bit_or_iff bit_uf_bit)

section \<open>Spans\<close>

text \<open>A field as natural numbers; \<open>covers\<close>: it is exactly the set of positions \<open>P\<close>.\<close>

definition span :: "http_parser_url \<Rightarrow> http_parser_url_fields \<Rightarrow> nat set" where
  "span u uf = {unat (off (field_data u uf)) ..< unat (off (field_data u uf)) + unat (len (field_data u uf))}"

definition field_text :: "string \<Rightarrow> http_parser_url \<Rightarrow> http_parser_url_fields \<Rightarrow> string" where
  "field_text buf u uf = take (unat (len (field_data u uf))) (drop (unat (off (field_data u uf))) buf)"

lemma span_simps [simp]:
  "span (u\<lparr>port := x\<rparr>) uf = span u uf" "span (u\<lparr>field_set := y\<rparr>) uf = span u uf"
  "uf \<noteq> uf' \<Longrightarrow> span (set_field uf' d u) uf = span u uf"
  "uf \<noteq> uf' \<Longrightarrow> span (bump_len uf' u) uf = span u uf"
  "uf \<noteq> uf' \<Longrightarrow> span (start_field uf' p u) uf = span u uf"
  by (simp_all add: span_def set_field_def bump_len_def start_field_def)

lemma unat_of_nat_16 [simp]: "n < 65536 \<Longrightarrow> unat (of_nat n :: 16 word) = n"
  by (simp add: unat_of_nat take_bit_nat_eq_self)

lemma span_start: "p < 65536 \<Longrightarrow> span (start_field uf p u) uf = {p}"
  by (auto simp: span_def start_field_def set_field_def)

text \<open>Growing a non-empty span that ends just before \<open>p\<close>.\<close>

lemma span_bump:
  assumes ne: "span u uf \<noteq> {}" and last: "p - 1 \<in> span u uf" "p \<notin> span u uf" and p: "p < 65535"
  shows "span (bump_len uf u) uf = insert p (span u uf)"
proof -
  define a l where "a = unat (off (field_data u uf))" and "l = unat (len (field_data u uf))"
  have sp: "span u uf = {a ..< a + l}" by (simp add: span_def a_def l_def)
  then have e: "a + l = p" "0 < l" using last ne by auto
  then have "unat (len (field_data u uf)) + unat (1 :: 16 word) < 2 ^ LENGTH(16)"
    using p l_def by simp
  then have "unat (len (field_data u uf) + 1) = l + 1"
    by (simp only: unat_add_no_wrap l_def) simp
  then have "span (bump_len uf u) uf = {a ..< a + (l + 1)}"
    by (simp add: span_def bump_len_def set_field_def a_def)
  then show ?thesis using e sp by auto
qed

text \<open>Positions whose character was read into a state of the field.\<close>

definition url_positions :: "bool \<Rightarrow> state \<Rightarrow> string \<Rightarrow> http_parser_url_fields \<Rightarrow> nat set" where
  "url_positions strict s buf uf =
     {i. i < length buf \<and> url_action (foldl (parse_url_char strict) s (take (Suc i) buf)) = InField uf}"

lemma url_positions_Nil [simp]: "url_positions strict s [] uf = {}"
  by (simp add: url_positions_def)

lemma url_positions_snoc:
  "url_positions strict s (xs @ [c]) uf =
     url_positions strict s xs uf \<union>
     (if url_action (foldl (parse_url_char strict) s (xs @ [c])) = InField uf then {length xs} else {})"
proof -
  have "take (Suc i) (xs @ [c]) = (if i < length xs then take (Suc i) xs else xs @ [c])" if "i < Suc (length xs)" for i
    using that by (cases "i = length xs") simp_all
  then show ?thesis by (auto simp: url_positions_def less_Suc_eq)
qed


section \<open>The loop of \<^verbatim>\<open>http_parser_parse_url\<close>\<close>

fun uf_rank :: "http_parser_url_fields \<Rightarrow> nat" where
  "uf_rank UF_SCHEMA = 1"
| "uf_rank UF_HOST = 5"
| "uf_rank UF_PATH = 6"
| "uf_rank UF_QUERY = 8"
| "uf_rank UF_FRAGMENT = 10"
| "uf_rank _ = 0"

lemma url_action_expected: "(s, t) \<in> set url_edges \<Longrightarrow> url_action t \<noteq> UnexpectedState \<and> url_action t \<noteq> ReturnError"
  by (auto simp: url_edges_def url_action_def)

lemma url_action_dead [simp]: "url_action s_dead = ReturnError"
  by (simp add: url_action_def)

lemma url_action_rank: "url_action s = InField uf \<Longrightarrow> url_rank s = uf_rank uf \<and> 0 < uf_rank uf"
  by (cases s) (auto simp: url_action_def)

lemma uf_rank_inj: "uf_rank a = uf_rank b \<Longrightarrow> 0 < uf_rank a \<Longrightarrow> a = b"
  by (cases a; cases b) simp_all

lemma url_edge_leaves:
  "(s, t) \<in> set url_edges \<Longrightarrow> url_action s = InField uf \<Longrightarrow> url_action t \<noteq> InField uf \<Longrightarrow> url_rank s < url_rank t"
  by (auto simp: url_edges_def url_action_def)

definition url_tracked ::
    "bool \<Rightarrow> state \<Rightarrow> string \<Rightarrow> http_parser_url_fields \<Rightarrow> http_parser_url \<Rightarrow> bool" where
  "url_tracked strict s0 xs old u \<longleftrightarrow>
     (\<forall>uf. has_field u uf \<longleftrightarrow> url_positions strict s0 xs uf \<noteq> {}) \<and>
     (\<forall>uf. has_field u uf \<longrightarrow> span u uf = url_positions strict s0 xs uf) \<and>
     (\<forall>uf. has_field u uf \<longrightarrow> uf \<noteq> old \<longrightarrow> uf_rank uf < uf_rank old) \<and>
     (if old = UF_MAX then \<forall>uf. \<not> has_field u uf
      else has_field u old \<and> (url_rank (foldl (parse_url_char strict) s0 xs) = uf_rank old \<longrightarrow>
             url_action (foldl (parse_url_char strict) s0 xs) = InField old)) \<and>
     uf_rank old \<le> url_rank (foldl (parse_url_char strict) s0 xs)"

lemma url_positions_last:
  "xs \<noteq> [] \<Longrightarrow> url_action (foldl (parse_url_char strict) s0 xs) = InField uf \<Longrightarrow>
     length xs - 1 \<in> url_positions strict s0 xs uf"
  by (simp add: url_positions_def)

lemma url_positions_less: "i \<in> url_positions strict s0 xs uf \<Longrightarrow> i < length xs"
  by (simp add: url_positions_def)

lemma url_tracked_skip:
  assumes tr: "url_tracked strict s0 xs old u"
    and alive: "parse_url_char strict (foldl (parse_url_char strict) s0 xs) c \<noteq> s_dead"
    and skip: "url_action (parse_url_char strict (foldl (parse_url_char strict) s0 xs) c) = SkipDelimiter"
  shows "url_tracked strict s0 (xs @ [c]) old u"
proof -
  let ?s = "foldl (parse_url_char strict) s0 xs" and ?t = "parse_url_char strict (foldl (parse_url_char strict) s0 xs) c"
  have edge: "(?s, ?t) \<in> set url_edges" by (rule parse_url_char_edge [OF alive])
  have same: "url_positions strict s0 (xs @ [c]) uf = url_positions strict s0 xs uf" for uf
    using skip by (simp add: url_positions_snoc)
  have le: "url_rank ?s \<le> url_rank ?t" by (rule url_edge_rank [OF edge])
  have "url_rank ?t \<noteq> uf_rank old" if "old \<noteq> UF_MAX"
  proof
    assume eq: "url_rank ?t = uf_rank old"
    with tr le have "url_rank ?s = uf_rank old" by (simp add: url_tracked_def)
    with tr that have "url_action ?s = InField old" by (simp add: url_tracked_def)
    with url_edge_leaves [OF edge] skip eq url_action_rank [of ?s old] show False by simp
  qed
  with tr le show ?thesis by (auto simp: url_tracked_def same)
qed

lemma url_tracked_bump:
  assumes tr: "url_tracked strict s0 xs old u" and small: "length xs < 65535"
    and act: "url_action (parse_url_char strict (foldl (parse_url_char strict) s0 xs) c) = InField old"
  shows "url_tracked strict s0 (xs @ [c]) old (bump_len old u)"
proof -
  let ?s = "foldl (parse_url_char strict) s0 xs" and ?t = "parse_url_char strict (foldl (parse_url_char strict) s0 xs) c"
  have edge: "(?s, ?t) \<in> set url_edges" using act by (intro parse_url_char_edge) auto
  have old: "old \<noteq> UF_MAX" "has_field u old"
    using tr url_action_rank [OF act] by (auto simp: url_tracked_def split: if_splits)
  have "url_rank ?s = uf_rank old"
    using tr url_edge_rank [OF edge] url_action_rank [OF act] by (simp add: url_tracked_def)
  then have "url_action ?s = InField old" using tr old by (simp add: url_tracked_def)
  moreover have ne: "url_positions strict s0 xs old \<noteq> {}" using tr old by (simp add: url_tracked_def)
  moreover from this have "xs \<noteq> []" by auto
  ultimately have last: "length xs - 1 \<in> url_positions strict s0 xs old" by - (rule url_positions_last)
  have sp: "span u old = url_positions strict s0 xs old" using tr old by (simp add: url_tracked_def)
  have grown: "span (bump_len old u) old = insert (length xs) (url_positions strict s0 xs old)"
    using span_bump [of u old "length xs"] ne last sp small url_positions_less by fastforce
  have pos: "url_positions strict s0 (xs @ [c]) uf =
      (if uf = old then insert (length xs) (url_positions strict s0 xs old) else url_positions strict s0 xs uf)" for uf
    using act by (simp add: url_positions_snoc)
  show ?thesis
    using tr old grown url_action_rank [OF act] act
    by (auto simp: url_tracked_def pos)
qed

lemma url_tracked_start:
  assumes tr: "url_tracked strict s0 xs old u" and small: "length xs < 65536"
    and act: "url_action (parse_url_char strict (foldl (parse_url_char strict) s0 xs) c) = InField uf"
    and new: "uf \<noteq> old"
  shows "url_tracked strict s0 (xs @ [c]) uf (start_field uf (length xs) u)"
proof -
  let ?s = "foldl (parse_url_char strict) s0 xs" and ?t = "parse_url_char strict (foldl (parse_url_char strict) s0 xs) c"
  have edge: "(?s, ?t) \<in> set url_edges" using act by (intro parse_url_char_edge) auto
  have "uf_rank old \<le> uf_rank uf"
    using tr url_edge_rank [OF edge] url_action_rank [OF act] by (simp add: url_tracked_def)
  then have lt: "uf_rank old < uf_rank uf"
    using new uf_rank_inj url_action_rank [OF act] le_neq_implies_less by metis
  have below: "uf_rank uf' < uf_rank uf" if "has_field u uf'" for uf'
    using tr lt that unfolding url_tracked_def by (metis less_trans)
  then have unset: "\<not> has_field u uf" by auto
  then have "url_positions strict s0 xs uf = {}" using tr by (simp add: url_tracked_def)
  then have pos: "url_positions strict s0 (xs @ [c]) uf' =
      (if uf' = uf then {length xs} else url_positions strict s0 xs uf')" for uf'
    using act by (simp add: url_positions_snoc)
  show ?thesis
    using tr below unset span_start [OF small] act url_action_rank [OF act]
    by (auto simp: url_tracked_def pos)
qed

lemma url_loop_tracked:
  assumes "url_loop strict rest (length xs) (foldl (parse_url_char strict) s0 xs) old fa u = Inr (Some fa', u')"
    and "url_tracked strict s0 xs old u" and "length (xs @ rest) < 65536"
  shows "\<exists>old'. url_tracked strict s0 (xs @ rest) old' u'"
  using assms
proof (induction rest arbitrary: xs old fa u)
  case (Cons c rest)
  let ?t = "parse_url_char strict (foldl (parse_url_char strict) s0 xs) c"
  have alive: "?t \<noteq> s_dead" using Cons.prems(1) by auto
  have go: "\<exists>old'. url_tracked strict s0 ((xs @ [c]) @ rest) old' u'"
    if "url_loop strict rest (length (xs @ [c])) (foldl (parse_url_char strict) s0 (xs @ [c])) o1 f1 u1 = Inr (Some fa', u')"
      "url_tracked strict s0 (xs @ [c]) o1 u1" for o1 f1 u1
    using Cons.prems(3) that by (intro Cons.IH) simp_all
  show ?case
  proof (cases "url_action ?t")
    case SkipDelimiter
    then show ?thesis using go url_tracked_skip [OF Cons.prems(2) alive] Cons.prems(1) by simp
  next
    case (InField uf)
    then show ?thesis
      using go Cons.prems url_tracked_bump [OF Cons.prems(2)] url_tracked_start [OF Cons.prems(2)]
      by (cases "uf = old") (simp_all add: Let_def)
  qed (use Cons.prems(1) in simp_all)
qed auto

lemma url_loop_total:
  "\<exists>r u'. url_loop strict rest p s old fa u = Inr (r, u') \<and>
     (r = None \<longleftrightarrow> foldl (parse_url_char strict) s rest = s_dead \<and> rest \<noteq> [])"
proof (induction rest arbitrary: p s old fa u)
  case (Cons c rest)
  let ?t = "parse_url_char strict s c"
  show ?case
  proof (cases "?t = s_dead")
    case True
    then show ?thesis using url.run_dead [of strict rest] by simp
  next
    case False
    then have "url_action ?t \<noteq> UnexpectedState \<and> url_action ?t \<noteq> ReturnError"
      by (rule url_action_expected [OF parse_url_char_edge])
    moreover have "\<exists>r u'. url_loop strict rest (Suc p) ?t o1 f1 u1 = Inr (r, u') \<and>
      (r = None \<longleftrightarrow> foldl (parse_url_char strict) ?t rest = s_dead)" for o1 f1 u1
      using Cons.IH [of "Suc p" ?t o1 f1 u1] False by (cases "rest = []") auto
    ultimately show ?thesis by (cases "url_action ?t") (simp_all add: Let_def)
  qed
qed simp


section \<open>The loop of \<^verbatim>\<open>http_parse_host\<close>\<close>

fun host_field :: "http_host_state \<Rightarrow> http_parser_url_fields" where
  "host_field s_http_host = UF_HOST"
| "host_field s_http_host_v6 = UF_HOST"
| "host_field s_http_host_v6_zone_start = UF_HOST"
| "host_field s_http_host_v6_zone = UF_HOST"
| "host_field s_http_host_port = UF_PORT"
| "host_field s_http_userinfo = UF_USERINFO"
| "host_field _ = UF_MAX"

text \<open>Positions in the buffer, for a host part \<open>xs\<close> that starts at \<open>a\<close>.\<close>

definition host_positions :: "bool \<Rightarrow> http_host_state \<Rightarrow> nat \<Rightarrow> string \<Rightarrow> http_parser_url_fields \<Rightarrow> nat set" where
  "host_positions strict s a xs uf =
     {a + i | i. i < length xs \<and> host_field (foldl (http_parse_host_char strict) s (take (Suc i) xs)) = uf}"

lemma host_positions_Nil [simp]: "host_positions strict s a [] uf = {}"
  by (simp add: host_positions_def)

lemma host_positions_snoc:
  "host_positions strict s a (xs @ [c]) uf =
     host_positions strict s a xs uf \<union>
     (if host_field (foldl (http_parse_host_char strict) s (xs @ [c])) = uf then {a + length xs} else {})"
proof -
  have "take (Suc i) (xs @ [c]) = (if i < length xs then take (Suc i) xs else xs @ [c])" if "i < Suc (length xs)" for i
    using that by (cases "i = length xs") simp_all
  then show ?thesis by (auto simp: host_positions_def less_Suc_eq)
qed

lemma host_positions_last:
  "xs \<noteq> [] \<Longrightarrow> host_field (foldl (http_parse_host_char strict) s xs) = uf \<Longrightarrow>
     a + length xs - 1 \<in> host_positions strict s a xs uf"
  by (cases xs rule: rev_cases) (auto simp: host_positions_snoc)

lemma host_positions_range: "i \<in> host_positions strict s a xs uf \<Longrightarrow> a \<le> i \<and> i < a + length xs"
  by (auto simp: host_positions_def)

fun host_field_rank :: "http_parser_url_fields \<Rightarrow> nat" where
  "host_field_rank UF_USERINFO = 1"
| "host_field_rank UF_HOST = 4"
| "host_field_rank UF_PORT = 7"
| "host_field_rank _ = 0"

lemma host_field_rank: "host_field s \<noteq> UF_MAX \<Longrightarrow> host_rank s = host_field_rank (host_field s)"
  by (cases s) simp_all

lemma host_positions_rank:
  assumes alive: "foldl (http_parse_host_char strict) s xs \<noteq> s_http_host_dead"
    and i: "host_positions strict s a xs uf \<noteq> {}" and uf: "uf \<noteq> UF_MAX"
  shows "host_field_rank uf \<le> host_rank (foldl (http_parse_host_char strict) s xs)"
proof -
  obtain i where i: "i < length xs" "host_field (foldl (http_parse_host_char strict) s (take (Suc i) xs)) = uf"
    using i by (auto simp: host_positions_def)
  let ?m = "foldl (http_parse_host_char strict) s (take (Suc i) xs)"
  have run: "foldl (http_parse_host_char strict) s xs = foldl (http_parse_host_char strict) ?m (drop (Suc i) xs)"
    by (metis append_take_drop_id foldl_append)
  have "host_rank ?m \<le> host_rank (foldl (http_parse_host_char strict) s xs)"
    unfolding run by (rule host.run_rank_mono) (use alive run in simp)
  then show ?thesis using host_field_rank [of ?m] i(2) uf by simp
qed

text \<open>One turn of the loop: outside the fields, inside a field, and on entering one.\<close>

lemma host_field_enter:
  assumes "http_parse_host_char strict s c \<noteq> s_http_host_dead" "host_field (http_parse_host_char strict s c) = uf"
    "uf \<noteq> UF_MAX" "host_field s \<noteq> uf"
  shows "host_rank s < host_field_rank uf"
  using assms by (cases s) (auto simp: http_parse_host_char_def split: if_splits)

lemma host_field_step_cases:
  assumes alive: "http_parse_host_char strict s c \<noteq> s_http_host_dead"
  defines "t \<equiv> http_parse_host_char strict s c"
  shows "host_field t = UF_MAX \<Longrightarrow> host_field_step s t p u = u"
    and "host_field t = uf \<Longrightarrow> host_field s = uf \<Longrightarrow> uf \<noteq> UF_MAX \<Longrightarrow> host_field_step s t p u = bump_len uf u"
    and "host_field t = uf \<Longrightarrow> host_field s \<noteq> uf \<Longrightarrow> uf = UF_PORT \<or> uf = UF_USERINFO \<Longrightarrow>
      host_field_step s t p u = start_field uf p u"
    and "host_field t = UF_HOST \<Longrightarrow> host_field s \<noteq> UF_HOST \<Longrightarrow>
      host_field_step s t p u = bump_len UF_HOST (set_field UF_HOST ((field_data u UF_HOST)\<lparr>off := of_nat p\<rparr>) u)"
  using alive unfolding t_def
  by (cases s; auto simp: http_parse_host_char_def host_field_step_def start_field_def bump_len_def set_field_def
      split: if_splits)+

definition host_tracked ::
    "bool \<Rightarrow> http_host_state \<Rightarrow> nat \<Rightarrow> string \<Rightarrow> http_parser_url \<Rightarrow> http_parser_url \<Rightarrow> bool" where
  "host_tracked strict s0 a xs u0 u \<longleftrightarrow>
     (\<forall>uf \<in> {UF_PORT, UF_USERINFO}.
        (has_field u uf \<longleftrightarrow> host_positions strict s0 a xs uf \<noteq> {}) \<and>
        (has_field u uf \<longrightarrow> span u uf = host_positions strict s0 a xs uf)) \<and>
     span u UF_HOST = host_positions strict s0 a xs UF_HOST \<and>
     (\<forall>uf. uf \<notin> {UF_PORT, UF_USERINFO} \<longrightarrow> has_field u uf = has_field u0 uf) \<and>
     (\<forall>uf. uf \<notin> {UF_PORT, UF_USERINFO, UF_HOST} \<longrightarrow> field_data u uf = field_data u0 uf) \<and>
     port u = port u0"

lemma port_simps [simp]:
  "port (set_field uf d u) = port u" "port (bump_len uf u) = port u" "port (start_field uf p u) = port u"
  by (simp_all add: set_field_def bump_len_def start_field_def)

lemma field_data_simps [simp]:
  "uf \<noteq> uf' \<Longrightarrow> field_data (set_field uf' d u) uf = field_data u uf"
  "uf \<noteq> uf' \<Longrightarrow> field_data (bump_len uf' u) uf = field_data u uf"
  "uf \<noteq> uf' \<Longrightarrow> field_data (start_field uf' p u) uf = field_data u uf"
  by (simp_all add: set_field_def bump_len_def start_field_def)

lemma span_enter_host:
  assumes "span u UF_HOST = {}" "p < 65536"
  shows "span (bump_len UF_HOST (set_field UF_HOST ((field_data u UF_HOST)\<lparr>off := of_nat p\<rparr>) u)) UF_HOST = {p}"
proof -
  have "len (field_data u UF_HOST) = 0" using assms(1) by (simp add: span_def unat_eq_0)
  then show ?thesis using assms(2) by (auto simp: span_def bump_len_def set_field_def)
qed

lemma host_tracked_step:
  fixes c :: char
  assumes tr: "host_tracked strict s0 a xs u0 u"
    and s0: "host_field s0 = UF_MAX" and small: "a + length xs < 65535"
  defines "s \<equiv> foldl (http_parse_host_char strict) s0 xs"
  defines "t \<equiv> http_parse_host_char strict s c"
  assumes alive: "t \<noteq> s_http_host_dead"
  shows "host_tracked strict s0 a (xs @ [c]) u0 (host_field_step s t (a + length xs) u)"
proof (cases "host_field t = UF_MAX")
  case True
  have same: "uf \<noteq> UF_MAX \<Longrightarrow> host_positions strict s0 a (xs @ [c]) uf = host_positions strict s0 a xs uf" for uf
    using True by (simp add: host_positions_snoc t_def s_def)
  show ?thesis
    using tr alive True same host_field_step_cases(1) [of strict s c] by (simp add: t_def host_tracked_def)
next
  case False
  let ?uf = "host_field t" and ?p = "a + length xs"
  have uf: "?uf = UF_PORT \<or> ?uf = UF_USERINFO \<or> ?uf = UF_HOST" using False by (cases t) simp_all
  have live_s: "s \<noteq> s_http_host_dead" using alive by (auto simp: t_def host.dead_absorbs)
  have pos: "uf \<noteq> UF_MAX \<Longrightarrow> host_positions strict s0 a (xs @ [c]) uf =
      (if uf = ?uf then insert ?p (host_positions strict s0 a xs uf) else host_positions strict s0 a xs uf)" for uf
    by (simp add: host_positions_snoc t_def s_def)
  show ?thesis
  proof (cases "host_field s = ?uf")
    case True
    have "xs \<noteq> []" using True False s0 by (auto simp: s_def)
    then have last: "?p - 1 \<in> host_positions strict s0 a xs ?uf"
      using True by (intro host_positions_last) (simp_all add: s_def)
    have sp: "span u ?uf = host_positions strict s0 a xs ?uf"
      using tr uf last by (auto simp: host_tracked_def)
    have notin: "?p \<notin> span u ?uf" using sp host_positions_range by fastforce
    have "span (bump_len ?uf u) ?uf = insert ?p (span u ?uf)"
      by (rule span_bump) (use sp last notin small in auto)
    moreover have "host_field_step s t ?p u = bump_len ?uf u"
      using host_field_step_cases(2) [of strict s c] alive True False by (simp add: t_def)
    ultimately show ?thesis using tr uf sp last by (auto simp: host_tracked_def pos)
  next
    case enter: False
    have "host_rank s < host_field_rank ?uf"
      using alive False enter by (intro host_field_enter [of strict s c]) (simp_all add: t_def)
    then have none: "host_positions strict s0 a xs ?uf = {}"
      using host_positions_rank [of strict s0 xs a ?uf] live_s False by (fastforce simp: s_def)
    show ?thesis
    proof (cases "?uf = UF_HOST")
      case True
      then have "span u UF_HOST = {}" using tr none by (simp add: host_tracked_def)
      from span_enter_host [OF this, of ?p] small
      show ?thesis
        using tr none True enter host_field_step_cases(4) [of strict s c] alive
        by (auto simp: host_tracked_def pos t_def)
    next
      case nh: False
      then have "host_field_step s t ?p u = start_field ?uf ?p u"
        using uf enter host_field_step_cases(3) [of strict s c] alive by (simp add: t_def)
      then show ?thesis
        using tr none nh uf span_start [of ?p ?uf u] small by (auto simp: host_tracked_def pos)
    qed
  qed
qed


lemma host_loop_tracked:
  assumes "host_loop strict buf n (a + length xs) (foldl (http_parse_host_char strict) s0 xs) u = Inr (Some s', u')"
    and "host_tracked strict s0 a xs u0 u" and "host_field s0 = UF_MAX"
    and "xs = take (length xs) (drop a buf)" "n \<le> length buf" "a + length xs \<le> n" "n < 65536"
  shows "host_tracked strict s0 a (take (n - a) (drop a buf)) u0 u' \<and>
    s' = foldl (http_parse_host_char strict) s0 (take (n - a) (drop a buf))"
  using assms
proof (induction "n - (a + length xs)" arbitrary: xs u)
  case 0
  then have "n = a + length xs" by simp
  with 0 show ?case by (simp add: host_loop.simps)
next
  case (Suc m)
  let ?p = "a + length xs" and ?s = "foldl (http_parse_host_char strict) s0 xs"
  let ?t = "http_parse_host_char strict ?s (buf ! ?p)"
  have lt: "?p < n" "?p < length buf" using Suc.hyps(2) Suc.prems by simp_all
  have alive: "?t \<noteq> s_http_host_dead" using Suc.prems(1) lt by (subst (asm) host_loop.simps) auto
  have run: "host_loop strict buf n (a + length (xs @ [buf ! ?p])) (foldl (http_parse_host_char strict) s0 (xs @ [buf ! ?p]))
      (host_field_step ?s ?t ?p u) = Inr (Some s', u')"
    using Suc.prems(1) lt alive by (subst (asm) host_loop.simps) (simp add: Let_def)
  have ext: "xs @ [buf ! ?p] = take (Suc (length xs)) (drop a buf)"
    using lt Suc.prems(4) by (simp add: take_Suc_conv_app_nth)
  show ?case
    by (rule Suc.hyps(1) [OF _ run host_tracked_step [OF Suc.prems(2,3)]])
      (use Suc.hyps(2) lt alive ext Suc.prems in simp_all)
qed

lemma host_loop_total:
  assumes "n \<le> length buf"
  shows "\<exists>r u'. host_loop strict buf n p s u = Inr (r, u')"
  using assms
proof (induction strict buf n p s u rule: host_loop.induct)
  case (1 strict buf n p s u)
  show ?case
  proof (cases "p < n \<and> http_parse_host_char strict s (buf ! p) \<noteq> s_http_host_dead")
    case True
    then show ?thesis using 1 by (subst host_loop.simps) (simp add: Let_def)
  next
    case False
    then show ?thesis using 1(2) by (subst host_loop.simps) (auto simp: Let_def)
  qed
qed

end
