(* ===== verification/Http_Char_Facts.thy ===== *)
theory Http_Char_Facts
  imports Http_Chars
begin

text \<open>
  The byte tables and character classes described by ranges of byte codes, proved by
  checking all 256 bytes.
\<close>

unbundle bit_operations_syntax

section \<open>Character classes as ranges\<close>

lemma byte_index_less: "byte_index c < 256"
  unfolding byte_index_def by (metis char_of_char of_char_of mod_less_divisor zero_less_numeral)

lemma byte_of_nat: "byte c = of_nat (byte_index c)"
  by (simp add: byte_def byte_index_def of_nat_of_char)

lemma unat_byte [simp]: "unat (byte c) = byte_index c"
  using byte_index_less [of c] by (simp add: byte_of_nat unat_of_nat take_bit_nat_eq_self)

lemma byte_le: "byte c \<le> byte d \<longleftrightarrow> byte_index c \<le> byte_index d"
  by (simp add: word_le_nat_alt)

lemma IS_NUM_iff: "IS_NUM c \<longleftrightarrow> 48 \<le> byte_index c \<and> byte_index c \<le> 57"
  by (simp add: IS_NUM_def byte_le) (simp add: byte_index_def)

text \<open>A property of all bytes is a finite check.\<close>

lemma all_bytes:
  assumes "list_all (\<lambda>n. P (char_of (n::nat))) (0 # 1 # [2..<256])"
  shows "P c"
proof -
  let ?n = "of_char c :: nat"
  have "?n < 256" using byte_index_less [of c] by (simp add: byte_index_def)
  then have "?n = 0 \<or> ?n = 1 \<or> ?n \<in> set [2..<256]" unfolding set_upt atLeastLessThan_iff by linarith
  moreover have "\<forall>n \<in> set (0 # 1 # [2..<256]). P (char_of n)" using assms by (simp only: list_all_iff)
  ultimately have "P (char_of ?n)" by (metis list.set_intros)
  then show ?thesis by simp
qed

lemma byte_char_of [simp]: "byte (char_of n) = of_nat (n mod 256)"
  by (simp add: byte_of_nat byte_index_def)

lemma byte_index_char_of [simp]: "byte_index (char_of n) = n mod 256"
  by (simp add: byte_index_def)

lemma byte_LOWER: "byte (LOWER c) = byte c OR 0x20"
proof -
  have "unat (byte c OR 0x20) < 256" using unsigned_less [of "byte c OR 0x20", where ?'a = nat] by simp
  then show ?thesis by (simp add: LOWER_def)
qed

lemma LOWER_range:
  "97 \<le> byte c OR 0x20 \<and> byte c OR 0x20 \<le> 122 \<longleftrightarrow>
     (65 \<le> byte_index c \<and> byte_index c \<le> 90) \<or> (97 \<le> byte_index c \<and> byte_index c \<le> 122)"
  by (rule all_bytes [of _ c]) (simp add: upt_rec_numeral)

lemma LOWER_hex_range:
  "97 \<le> byte c OR 0x20 \<and> byte c OR 0x20 \<le> 102 \<longleftrightarrow>
     (65 \<le> byte_index c \<and> byte_index c \<le> 70) \<or> (97 \<le> byte_index c \<and> byte_index c \<le> 102)"
  by (rule all_bytes [of _ c]) (simp add: upt_rec_numeral)

lemma IS_ALPHA_iff:
  "IS_ALPHA c \<longleftrightarrow> (65 \<le> byte_index c \<and> byte_index c \<le> 90) \<or> (97 \<le> byte_index c \<and> byte_index c \<le> 122)"
  unfolding LOWER_range [symmetric] by (simp add: IS_ALPHA_def byte_LOWER) (simp add: byte_def)

lemma IS_HEX_iff:
  "IS_HEX c \<longleftrightarrow> (48 \<le> byte_index c \<and> byte_index c \<le> 57) \<or> (65 \<le> byte_index c \<and> byte_index c \<le> 70) \<or>
     (97 \<le> byte_index c \<and> byte_index c \<le> 102)"
  unfolding LOWER_hex_range [symmetric] by (simp add: IS_HEX_def byte_LOWER IS_NUM_iff) (simp add: byte_def)

lemma IS_URL_CHAR_iff:
  "IS_URL_CHAR strict c \<longleftrightarrow>
     (33 \<le> byte_index c \<and> byte_index c \<le> 126 \<and> byte_index c \<noteq> 35 \<and> byte_index c \<noteq> 63) \<or>
     (\<not> strict \<and> (byte_index c = 9 \<or> byte_index c = 12 \<or> 128 \<le> byte_index c))"
  by (rule all_bytes [of _ c])
    (cases strict; simp add: IS_URL_CHAR_def BIT_AT_def normal_url_char_def T_bit_def byte_of_bits_def upt_rec_numeral)

lemmas char_class_iffs = IS_ALPHA_iff IS_NUM_iff IS_HEX_iff IS_URL_CHAR_iff IS_ALPHANUM_def IS_MARK_def
  IS_USERINFO_CHAR_def IS_SCHEMA_CHAR_def IS_HOST_CHAR_def


section \<open>The tables against their description\<close>

text \<open>The separators of RFC 2616, by code: \<open>( ) < > @ , ; : \ " / [ ] ? = { }\<close>, space and tab.\<close>

definition separators :: "nat list" where
  "separators = [40, 41, 60, 62, 64, 44, 59, 58, 92, 34, 47, 91, 93, 63, 61, 123, 125, 32, 9]"

definition token_code :: "nat \<Rightarrow> nat" where
  "token_code b =
     (if b = 32 \<or> (31 < b \<and> b < 127 \<and> b \<notin> set separators) then if 65 \<le> b \<and> b \<le> 90 then b + 32 else b else 0)"

definition hex_code :: "nat \<Rightarrow> int" where
  "hex_code b =
     (if 48 \<le> b \<and> b \<le> 57 then int b - 48
      else if 65 \<le> b \<and> b \<le> 70 then int b - 55
      else if 97 \<le> b \<and> b \<le> 102 then int b - 87
      else if b < 128 then - 1 else 0)"

lemma upt_bytes: "[0..<256] = 0 # 1 # [2..<128] @ [128..<256::nat]"
  using upt_add_eq_append [of 2 128 128] by (simp add: upt_conv_Cons)

lemma map_const_upt: "\<forall>n \<ge> a. f n = k \<Longrightarrow> map f [a..<a + m::nat] = replicate m k"
  by (rule nth_equalityI) simp_all

lemma map_upper: "\<forall>n \<ge> 128. f n = k \<Longrightarrow> map f [128..<256::nat] = replicate 128 k"
proof -
  assume "\<forall>n \<ge> 128. f n = k"
  moreover have "256 = 128 + (128::nat)" by simp
  ultimately show ?thesis by (metis map_const_upt)
qed

lemma tokens_codes: "map byte_index tokens = map token_code [0..<256]"
proof -
  have "map token_code [128..<256] = replicate 128 0" by (rule map_upper) (simp add: token_code_def)
  moreover have "byte_index NUL = 0" by (simp add: byte_index_def)
  ultimately show ?thesis
    unfolding upt_bytes tokens_def
    by (simp add: upt_rec_numeral) (simp add: token_code_def separators_def byte_index_def numeral_eq_Suc)
qed

lemma unhex_codes: "unhex = map hex_code [0..<256]"
proof -
  have "map hex_code [128..<256] = replicate 128 0" by (rule map_upper) (simp add: hex_code_def)
  then show ?thesis unfolding upt_bytes unhex_def by (simp add: upt_rec_numeral) (simp add: hex_code_def)
qed

lemma tokens_nth: "byte_index (tokens ! byte_index c) = token_code (byte_index c)"
proof -
  have "length (map byte_index tokens) = 256" unfolding tokens_codes by simp
  then have "byte_index (tokens ! byte_index c) = map byte_index tokens ! byte_index c"
    using byte_index_less [of c] by simp
  also have "\<dots> = token_code (byte_index c)" unfolding tokens_codes using byte_index_less [of c] by simp
  finally show ?thesis .
qed

lemma unhex_nth: "unhex ! byte_index c = hex_code (byte_index c)"
  unfolding unhex_codes using byte_index_less [of c] by simp

lemma byte_index_inj: "byte_index c = byte_index d \<longleftrightarrow> c = d"
  by (simp add: byte_index_def)

definition hex_value :: "char \<Rightarrow> nat" where
  "hex_value c = (if IS_NUM c then byte_index c - 48 else byte_index (LOWER c) - 97 + 10)"

lemma byte_index_LOWER_alpha:
  "IS_ALPHA c \<Longrightarrow> byte_index (LOWER c) = (if byte_index c \<le> 90 then byte_index c + 32 else byte_index c)"
proof -
  have "IS_ALPHA c \<longrightarrow> byte_index (LOWER c) = (if byte_index c \<le> 90 then byte_index c + 32 else byte_index c)"
    by (rule all_bytes [of _ c]) (simp add: IS_ALPHA_iff LOWER_def upt_rec_numeral)
  then show "IS_ALPHA c \<Longrightarrow> ?thesis" by blast
qed

lemma unhex_value:
  "unhex ! byte_index c = (if IS_HEX c then int (hex_value c) else if byte_index c < 128 then - 1 else 0)"
proof (cases "IS_HEX c \<and> \<not> IS_NUM c")
  case True
  then have "IS_ALPHA c" by (auto simp: IS_HEX_iff IS_NUM_iff IS_ALPHA_iff)
  then show ?thesis using True
    by (auto simp: unhex_nth hex_code_def hex_value_def byte_index_LOWER_alpha IS_HEX_iff IS_NUM_iff)
next
  case False
  then show ?thesis by (auto simp: unhex_nth hex_code_def hex_value_def IS_HEX_iff IS_NUM_iff)
qed

lemma space_code: "byte_index CHR '' '' = 32"
  by (simp add: byte_index_def)

lemma space_index: "byte_index c = 32 \<longleftrightarrow> c = CHR '' ''"
  using byte_index_inj [of c "CHR '' ''"] space_code by metis

lemma tokens_code:
  "byte_index (tokens ! byte_index c) =
     (if c = CHR '' '' then 32
      else if 31 < byte_index c \<and> byte_index c < 127 \<and> byte_index c \<notin> set separators
      then if IS_ALPHA c then byte_index (LOWER c) else byte_index c else 0)"
  by (cases "IS_ALPHA c") (auto simp: tokens_nth token_code_def byte_index_LOWER_alpha IS_ALPHA_iff space_index space_code)

lemma STRICT_TOKEN_code:
  "byte_index (STRICT_TOKEN c) =
     (if 31 < byte_index c \<and> byte_index c < 127 \<and> byte_index c \<notin> set separators
      then if IS_ALPHA c then byte_index (LOWER c) else byte_index c else 0)"
  using tokens_code [of c] by (cases "c = CHR '' ''") (simp_all add: STRICT_TOKEN_def byte_index_def separators_def)

lemma TOKEN_NUL:
  "TOKEN strict c = NUL \<longleftrightarrow>
     \<not> (31 < byte_index c \<and> byte_index c < 127 \<and> byte_index c \<notin> set separators) \<and> (strict \<or> c \<noteq> CHR '' '')"
proof -
  have zero: "d = NUL \<longleftrightarrow> byte_index d = 0" for d using byte_index_inj [of d NUL] by (simp add: byte_index_def)
  have table: "tokens ! byte_index c = NUL \<longleftrightarrow>
      \<not> (31 < byte_index c \<and> byte_index c < 127 \<and> byte_index c \<notin> set separators) \<and> c \<noteq> CHR '' ''"
    unfolding zero tokens_nth by (auto simp: token_code_def space_index space_code)
  show ?thesis
  proof (cases "c = CHR '' ''")
    case True
    then have "byte_index c \<in> set separators" by (simp add: byte_index_def separators_def)
    then show ?thesis using True table by (simp add: TOKEN_def STRICT_TOKEN_def)
  qed (use table in \<open>simp add: TOKEN_def STRICT_TOKEN_def\<close>)
qed

end
