(* ===== verification/Http_Url_Ref.thy ===== *)
theory Http_Url_Ref
  imports Http_Url_Parse
begin

text \<open>
  A reference definition of what \<^verbatim>\<open>http_parser_parse_url\<close> computes, free of offsets, lengths
  and mutation, and the refinement: the C function returns 0 exactly on the accepted URLs,
  and the fields it reports are the reference components.
\<close>

unbundle bit_operations_syntax

section \<open>Reference definition\<close>

definition url_part :: "bool \<Rightarrow> state \<Rightarrow> string \<Rightarrow> http_parser_url_fields \<Rightarrow> string" where
  "url_part strict s buf uf =
     map ((!) buf) (filter (\<lambda>i. url_action (foldl (parse_url_char strict) s (take (Suc i) buf)) = InField uf) [0..<length buf])"

definition host_part :: "bool \<Rightarrow> http_host_state \<Rightarrow> string \<Rightarrow> http_parser_url_fields \<Rightarrow> string" where
  "host_part strict s xs uf =
     map ((!) xs) (filter (\<lambda>i. host_field (foldl (http_parse_host_char strict) s (take (Suc i) xs)) = uf) [0..<length xs])"

definition url_has_at :: "bool \<Rightarrow> state \<Rightarrow> string \<Rightarrow> bool" where
  "url_has_at strict s buf \<longleftrightarrow>
     list_ex (\<lambda>i. foldl (parse_url_char strict) s (take (Suc i) buf) = s_req_server_with_at) [0..<length buf]"

definition host_start_state :: "bool \<Rightarrow> http_host_state" where
  "host_start_state found_at = (if found_at then s_http_userinfo_start else s_http_host_start)"

definition component :: "bool \<Rightarrow> bool \<Rightarrow> string \<Rightarrow> http_parser_url_fields \<Rightarrow> string" where
  "component strict is_connect buf uf =
     (let s0 = url_start is_connect;
          authority = url_part strict s0 buf UF_HOST;
          h0 = host_start_state (url_has_at strict s0 buf)
      in if uf \<in> {UF_HOST, UF_PORT, UF_USERINFO} then host_part strict h0 authority uf
         else url_part strict s0 buf uf)"

definition host_accepts :: "bool \<Rightarrow> bool \<Rightarrow> string \<Rightarrow> bool" where
  "host_accepts strict is_connect buf \<longleftrightarrow>
     (let s0 = url_start is_connect;
          h = foldl (http_parse_host_char strict) (host_start_state (url_has_at strict s0 buf)) (url_part strict s0 buf UF_HOST)
      in h \<noteq> s_http_host_dead \<and> host_end_ok h)"

definition url_accepts :: "bool \<Rightarrow> bool \<Rightarrow> string \<Rightarrow> bool" where
  "url_accepts strict is_connect buf \<longleftrightarrow>
     buf \<noteq> [] \<and> foldl (parse_url_char strict) (url_start is_connect) buf \<noteq> s_dead \<and>
     (url_part strict (url_start is_connect) buf UF_HOST = [] \<longrightarrow> component strict is_connect buf UF_SCHEMA = []) \<and>
     (url_part strict (url_start is_connect) buf UF_HOST \<noteq> [] \<longrightarrow> host_accepts strict is_connect buf) \<and>
     (is_connect \<longrightarrow>
        component strict is_connect buf UF_HOST \<noteq> [] \<and> component strict is_connect buf UF_PORT \<noteq> [] \<and>
        component strict is_connect buf UF_SCHEMA = [] \<and> component strict is_connect buf UF_PATH = [] \<and>
        component strict is_connect buf UF_QUERY = [] \<and> component strict is_connect buf UF_FRAGMENT = [] \<and>
        component strict is_connect buf UF_USERINFO = []) \<and>
     decimal 0 (component strict is_connect buf UF_PORT) \<le> 65535"

section \<open>Spans and slices\<close>

lemma span_indices:
  assumes "span u uf = set is" "sorted_wrt (<) is"
  shows "is = [unat (off (field_data u uf)) ..< unat (off (field_data u uf)) + unat (len (field_data u uf))]"
  using assms by (intro sorted_distinct_set_unique) (simp_all add: span_def strict_sorted_iff)

lemma field_text_indices:
  assumes "span u uf = set is" "sorted_wrt (<) is" "\<forall>i \<in> set is. i < length buf"
  shows "field_text buf u uf = map ((!) buf) is"
proof -
  define a n where "a = unat (off (field_data u uf))" and "n = unat (len (field_data u uf))"
  have ix: "is = [a ..< a + n]" using span_indices [OF assms(1,2)] by (simp add: a_def n_def)
  have "n = 0 \<or> a + n \<le> length buf" using assms(3) unfolding ix by (cases n) auto
  then have "take n (drop a buf) = map ((!) buf) [a ..< a + n]"
    by (auto intro!: nth_equalityI)
  then show ?thesis by (simp add: field_text_def ix a_def n_def)
qed

lemma url_positions_indices:
  "url_positions strict s buf uf =
     set (filter (\<lambda>i. url_action (foldl (parse_url_char strict) s (take (Suc i) buf)) = InField uf) [0..<length buf])"
  by (auto simp: url_positions_def)

lemma host_positions_indices:
  "host_positions strict s a xs uf =
     set (map ((+) a) (filter (\<lambda>i. host_field (foldl (http_parse_host_char strict) s (take (Suc i) xs)) = uf) [0..<length xs]))"
  by (auto simp: host_positions_def)

lemma url_part_Nil: "url_part strict s buf uf = [] \<longleftrightarrow> url_positions strict s buf uf = {}"
  by (auto simp: url_part_def url_positions_indices filter_empty_conv)

lemma host_part_Nil: "host_part strict s xs uf = [] \<longleftrightarrow> host_positions strict s a xs uf = {}"
  by (auto simp: host_part_def host_positions_indices filter_empty_conv)

lemma sorted_filter_upt: "sorted_wrt (<) (filter P [0..<n])"
  by (rule sorted_wrt_filter) simp

lemma sorted_filter_upt': "sorted (filter P [0..<n])"
  using sorted_filter_upt [of P n] by (simp add: strict_sorted_iff)

lemma field_text_url_part:
  "span u uf = url_positions strict s buf uf \<Longrightarrow> field_text buf u uf = url_part strict s buf uf"
  unfolding url_part_def
  by (rule field_text_indices) (simp_all add: url_positions_indices sorted_filter_upt)

lemma field_text_host_part:
  assumes sp: "span u uf = host_positions strict s a (take n (drop a buf)) uf" and n: "a + n \<le> length buf"
  shows "field_text buf u uf = host_part strict s (take n (drop a buf)) uf"
proof -
  let ?is = "filter (\<lambda>i. host_field (foldl (http_parse_host_char strict) s (take (Suc i) (take n (drop a buf)))) = uf)
    [0..<length (take n (drop a buf))]"
  have "field_text buf u uf = map ((!) buf) (map ((+) a) ?is)"
  proof (rule field_text_indices)
    show "span u uf = set (map ((+) a) ?is)" using sp by (simp only: host_positions_indices)
    show "sorted_wrt (<) (map ((+) a) ?is)" by (simp add: sorted_wrt_map sorted_filter_upt)
    show "\<forall>i \<in> set (map ((+) a) ?is). i < length buf" using n by auto
  qed
  also have "\<dots> = host_part strict s (take n (drop a buf)) uf"
    using n by (simp add: host_part_def)
  finally show ?thesis .
qed


section \<open>The loops against the reference\<close>

lemma url_has_at_Cons:
  "url_has_at strict s (c # cs) \<longleftrightarrow>
     parse_url_char strict s c = s_req_server_with_at \<or> url_has_at strict (parse_url_char strict s c) cs"
proof -
  have "[0..<length (c # cs)] = 0 # map Suc [0..<length cs]"
    unfolding map_Suc_upt by (simp add: upt_conv_Cons del: upt_Suc)
  then show ?thesis by (simp add: url_has_at_def list_ex_iff del: upt_Suc image_Suc_atLeastLessThan)
qed

lemma with_at_field: "url_action s_req_server_with_at = InField UF_HOST"
  by (simp add: url_action_def)

lemma url_loop_found:
  assumes "url_loop strict rest p s old fa u = Inr (Some fa', u')"
  shows "fa' \<longleftrightarrow> fa \<or> url_has_at strict s rest"
  using assms
proof (induction rest arbitrary: p s old fa u)
  case Nil
  then show ?case by (simp add: url_has_at_def)
next
  case (Cons c rest)
  show ?case
  proof (cases "url_action (parse_url_char strict s c)")
    case SkipDelimiter
    then have "parse_url_char strict s c \<noteq> s_req_server_with_at" by (auto simp: with_at_field)
    then show ?thesis using Cons SkipDelimiter by (simp add: url_has_at_Cons)
  next
    case (InField uf)
    let ?f = "fa \<or> parse_url_char strict s c = s_req_server_with_at"
    have "\<exists>o1 u1. url_loop strict rest (Suc p) (parse_url_char strict s c) o1 ?f u1 = Inr (Some fa', u')"
      using Cons.prems InField by (cases "uf = old") (auto simp: Let_def)
    then have "fa' \<longleftrightarrow> ?f \<or> url_has_at strict (parse_url_char strict s c) rest" using Cons.IH by blast
    then show ?thesis by (simp add: url_has_at_Cons)
  qed (use Cons.prems in simp_all)
qed

lemma host_loop_result:
  assumes "n \<le> length buf" "p \<le> n" "s \<noteq> s_http_host_dead"
  shows "\<exists>u'. host_loop strict buf n p s u =
    Inr (let t = foldl (http_parse_host_char strict) s (take (n - p) (drop p buf))
         in if t = s_http_host_dead then None else Some t, u')"
  using assms
proof (induction strict buf n p s u rule: host_loop.induct)
  case (1 strict buf n p s u)
  let ?t = "http_parse_host_char strict s (buf ! p)"
  show ?case
  proof (cases "p < n")
    case True
    then have chars: "take (n - p) (drop p buf) = buf ! p # take (n - Suc p) (drop (Suc p) buf)"
      using 1(2) by (simp add: Cons_nth_drop_Suc [symmetric] take_Cons')
    show ?thesis
    proof (cases "?t = s_http_host_dead")
      case dead: True
      then show ?thesis using True 1(2) host.run_dead [of strict]
        by (subst host_loop.simps) (simp add: chars Let_def)
    next
      case False
      then show ?thesis using True 1(1) 1(2) by (subst host_loop.simps) (simp add: chars Let_def)
    qed
  next
    case False
    then show ?thesis using 1(3,4) by (subst host_loop.simps) simp
  qed
qed

lemma authority_text:
  assumes "url_positions strict s buf UF_HOST = {a ..< a + n}"
  shows "url_part strict s buf UF_HOST = take n (drop a buf)"
proof -
  let ?is = "filter (\<lambda>i. url_action (foldl (parse_url_char strict) s (take (Suc i) buf)) = InField UF_HOST) [0..<length buf]"
  have "?is = [a ..< a + n]"
    using assms by (intro sorted_distinct_set_unique) (simp_all add: url_positions_indices sorted_filter_upt' del: sorted_filter)
  moreover have "n = 0 \<or> a + n - 1 \<in> url_positions strict s buf UF_HOST" using assms by (cases n) auto
  then have "n = 0 \<or> a + n \<le> length buf" using url_positions_less by fastforce
  then have "map ((!) buf) [a ..< a + n] = take n (drop a buf)" by (auto intro!: nth_equalityI)
  ultimately show ?thesis by (simp add: url_part_def)
qed

lemma interval_eq:
  fixes b m a n :: nat
  assumes "{b ..< b + m} = {a ..< a + n}" "0 < n"
  shows "b = a \<and> m = n"
proof -
  have "0 < m" using assms by (cases "m = 0") auto
  then have "b = a" "b + m = a + n"
    using atLeastLessThan_inj [of b "b + m" a "a + n"] assms by simp_all
  then show ?thesis by simp
qed

text \<open>The host part of an accepted URL.\<close>

lemma parse_host_result:
  fixes strict fa :: bool
  assumes u: "has_field u UF_HOST" "\<not> has_field u UF_PORT" "\<not> has_field u UF_USERINFO"
    and sp: "span u UF_HOST = {a ..< a + n}" "0 < n" and n: "a + n \<le> length buf" "length buf < 65536"
  defines "h \<equiv> foldl (http_parse_host_char strict) (host_start_state fa) (take n (drop a buf))"
  shows "\<exists>u'. http_parse_host strict buf u fa = Inr (if h \<noteq> s_http_host_dead \<and> host_end_ok h then 0 else 1, u') \<and>
    (h \<noteq> s_http_host_dead \<longrightarrow> host_tracked strict (host_start_state fa) a (take n (drop a buf)) u u')"
proof -
  have a: "unat (off (field_data u UF_HOST)) = a" "unat (len (field_data u UF_HOST)) = n"
    using interval_eq [OF sp [unfolded span_def]] by auto
  let ?u = "set_field UF_HOST ((field_data u UF_HOST)\<lparr>len := 0\<rparr>) u"
  have start: "host_field (host_start_state fa) = UF_MAX" "host_start_state fa \<noteq> s_http_host_dead"
    by (simp_all add: host_start_state_def)
  obtain u' where run: "host_loop strict buf (a + n) a (host_start_state fa) ?u =
      Inr (if h = s_http_host_dead then None else Some h, u')"
    using host_loop_result [OF n(1) _ start(2), of a strict ?u] by (auto simp: h_def Let_def)
  have tr: "host_tracked strict (host_start_state fa) a [] u ?u"
    using u by (simp add: host_tracked_def span_def set_field_def)
  have "host_tracked strict (host_start_state fa) a (take n (drop a buf)) u u'" if "h \<noteq> s_http_host_dead"
    using host_loop_tracked [of strict buf "a + n" a "[]" "host_start_state fa" ?u h u' u] run tr start n that by simp
  then show ?thesis
    using u(1) run by (auto simp: http_parse_host_def a host_start_state_def Let_def)
qed


section \<open>The field set of a CONNECT request\<close>

definition low_bits :: "http_parser_url \<Rightarrow> bool" where
  "low_bits u \<longleftrightarrow> (\<forall>n. bit (field_set u) n \<longrightarrow> n < 8)"

lemma uf_number_less8: "uf_number uf < 8"
  by (cases uf) simp_all

lemma low_bits_simps [simp]:
  "low_bits (set_field uf d u) = low_bits u" "low_bits (bump_len uf u) = low_bits u"
  "low_bits (u\<lparr>field_set := 0\<rparr>)"
  by (simp_all add: low_bits_def set_field_def bump_len_def)

lemma low_bits_or: "low_bits u \<Longrightarrow> low_bits (v\<lparr>field_set := field_set u OR uf_bit uf\<rparr>)"
  using uf_number_less8 by (auto simp: low_bits_def bit_or_iff bit_uf_bit)

lemma low_bits_start: "low_bits u \<Longrightarrow> low_bits (start_field uf p u)"
  by (simp add: start_field_def low_bits_or)

lemma low_bits_host_step: "low_bits u \<Longrightarrow> low_bits (host_field_step s t p u)"
  by (cases t) (simp_all add: host_field_step_def low_bits_or)

lemma url_loop_low_bits:
  "url_loop strict rest p s old fa u = Inr (r, u') \<Longrightarrow> low_bits u \<Longrightarrow> low_bits u'"
proof (induction rest arbitrary: p s old fa u)
  case (Cons c rest)
  show ?case
  proof (cases "url_action (parse_url_char strict s c)")
    case (InField uf)
    then show ?thesis using Cons low_bits_start by (cases "uf = old") (auto simp: Let_def)
  qed (use Cons in auto)
qed simp

lemma host_loop_low_bits:
  "host_loop strict buf n p s u = Inr (r, u') \<Longrightarrow> low_bits u \<Longrightarrow> low_bits u'"
proof (induction strict buf n p s u rule: host_loop.induct)
  case (1 strict buf n p s u)
  show ?case
    using 1(2,3) 1(1) [OF _ _ refl] low_bits_host_step
    by (subst (asm) host_loop.simps) (auto simp: Let_def split: if_splits)
qed

lemma field_of_number: "n < 8 \<Longrightarrow> \<exists>uf. uf_number uf = n"
proof -
  assume "n < 8"
  then have "n \<in> {0, 1, 2, 3, 4, 5, 6, 7}" by auto
  moreover have "uf_number ` {UF_SCHEMA, UF_HOST, UF_PORT, UF_PATH, UF_QUERY, UF_FRAGMENT, UF_USERINFO, UF_MAX}
    = {0, 1, 2, 3, 4, 5, 6, 7}" by simp
  ultimately show ?thesis by (metis imageE)
qed

lemma host_port_only:
  assumes "low_bits u"
  shows "field_set u = uf_bit UF_HOST OR uf_bit UF_PORT \<longleftrightarrow> (\<forall>uf. has_field u uf \<longleftrightarrow> uf = UF_HOST \<or> uf = UF_PORT)"
proof
  assume "field_set u = uf_bit UF_HOST OR uf_bit UF_PORT"
  then show "\<forall>uf. has_field u uf \<longleftrightarrow> uf = UF_HOST \<or> uf = UF_PORT"
    by (auto simp: has_field_bit bit_or_iff bit_uf_bit simp del: uf_number.simps)
next
  assume all: "\<forall>uf. has_field u uf \<longleftrightarrow> uf = UF_HOST \<or> uf = UF_PORT"
  show "field_set u = uf_bit UF_HOST OR uf_bit UF_PORT"
  proof (rule bit_word_eqI)
    fix n assume "n < LENGTH(16)"
    show "bit (field_set u) n = bit (uf_bit UF_HOST OR uf_bit UF_PORT) n"
    proof (cases "n < 8")
      case True
      then obtain uf where n: "n = uf_number uf" using field_of_number by metis
      show ?thesis
        unfolding n bit_or_iff bit_uf_bit uf_number_inj using all by (simp add: has_field_bit [symmetric])
    next
      case False
      then show ?thesis using assms uf_number_less8 by (auto simp: low_bits_def bit_or_iff bit_uf_bit)
    qed
  qed
qed

section \<open>Host and port of an accepted URL\<close>

lemma host_rank_enter:
  "host_rank s < 4 \<Longrightarrow> http_parse_host_char strict s c \<noteq> s_http_host_dead \<Longrightarrow>
     4 \<le> host_rank (http_parse_host_char strict s c) \<Longrightarrow> host_field (http_parse_host_char strict s c) = UF_HOST"
  by (cases s) (auto simp: http_parse_host_char_def split: if_splits)

lemma host_nonempty:
  assumes "foldl (http_parse_host_char strict) s xs \<noteq> s_http_host_dead"
    "4 \<le> host_rank (foldl (http_parse_host_char strict) s xs)" "host_rank s < 4"
  shows "host_positions strict s a xs UF_HOST \<noteq> {}"
  using assms
proof (induction xs rule: rev_induct)
  case (snoc c xs)
  let ?s = "foldl (http_parse_host_char strict) s xs"
  have alive: "?s \<noteq> s_http_host_dead" using snoc.prems(1) host.dead_absorbs by auto
  show ?case
  proof (cases "4 \<le> host_rank ?s")
    case True
    then show ?thesis using snoc alive by (simp add: host_positions_snoc)
  next
    case False
    then have "host_field (http_parse_host_char strict ?s c) = UF_HOST"
      using snoc.prems(1,2) by (intro host_rank_enter) simp_all
    then show ?thesis by (simp add: host_positions_snoc)
  qed
qed simp

lemma host_end_rank: "h \<noteq> s_http_host_dead \<Longrightarrow> host_end_ok h \<Longrightarrow> 4 \<le> host_rank h"
  by (cases h) (simp_all add: host_end_ok_def)

lemma port_digits:
  assumes "i \<in> host_positions strict s a (take n (drop a buf)) UF_PORT" "a + n \<le> length buf"
  shows "IS_NUM (buf ! i)"
proof -
  let ?xs = "take n (drop a buf)"
  obtain j where j: "i = a + j" "j < length ?xs" "host_field (foldl (http_parse_host_char strict) s (take (Suc j) ?xs)) = UF_PORT"
    using assms(1) by (auto simp: host_positions_def)
  have port: "host_field (http_parse_host_char strict t c) = UF_PORT \<Longrightarrow> IS_NUM c" for t c
    by (cases t) (auto simp: http_parse_host_char_def split: if_splits)
  have "take (Suc j) ?xs = take j ?xs @ [?xs ! j]" by (rule take_Suc_conv_app_nth [OF j(2)])
  with j(3) have "IS_NUM (?xs ! j)" by (intro port) (simp only: foldl_append foldl.simps)
  then show ?thesis using j assms(2) by simp
qed

lemma convert_port_result:
  assumes "has_field u UF_PORT \<longrightarrow> span u UF_PORT = P \<and> P \<noteq> {} \<and> (\<forall>i \<in> P. i < length buf \<and> IS_NUM (buf ! i))"
  defines "d \<equiv> if has_field u UF_PORT then decimal 0 (field_text buf u UF_PORT) else 0"
  shows "\<exists>u'. convert_port buf u = Inr (if d \<le> 65535 then 0 else 1, u') \<and>
    (d \<le> 65535 \<longrightarrow> u' = (if has_field u UF_PORT then u\<lparr>port := of_nat d\<rparr> else u))"
proof (cases "has_field u UF_PORT")
  case True
  define b m where "b = unat (off (field_data u UF_PORT))" and "m = unat (len (field_data u UF_PORT))"
  have sp: "{b ..< b + m} = P" using assms(1) True by (simp add: span_def b_def m_def)
  have "0 < m" using sp assms(1) True by (cases m) auto
  then have "b + m - 1 \<in> P" unfolding sp [symmetric] by auto
  then have "b + m - 1 < length buf" using assms(1) True by blast
  then have le: "b + m \<le> length buf" using \<open>0 < m\<close> by linarith
  have num: "\<forall>i. b \<le> i \<longrightarrow> i < b + m \<longrightarrow> IS_NUM (buf ! i)" using sp assms(1) True by auto
  have d: "d = decimal 0 (take m (drop b buf))" using True by (simp add: d_def field_text_def b_def m_def)
  have run: "port_loop buf (b + m) b 0 = Inr (if d \<le> 65535 then Some (of_nat d) else None)"
    using port_loop_decimal [OF le _ num, of 0] d by (simp add: Let_def)
  have "ucast (of_nat d :: 64 word) = (of_nat d :: 16 word)" if "d \<le> 65535"
    using that by (simp add: unsigned_of_nat take_bit_nat_eq_self)
  then show ?thesis
    using True run le by (simp add: convert_port_def b_def [symmetric] m_def [symmetric])
qed (simp add: convert_port_def d_def)


section \<open>The refinement\<close>

definition reports :: "string \<Rightarrow> (http_parser_url_fields \<Rightarrow> string) \<Rightarrow> http_parser_url \<Rightarrow> bool" where
  "reports buf cmp u \<longleftrightarrow>
     (\<forall>uf. (has_field u uf \<longleftrightarrow> uf \<noteq> UF_MAX \<and> cmp uf \<noteq> []) \<and>
        (has_field u uf \<longrightarrow> field_text buf u uf = cmp uf \<and> ends_by (length buf) u uf))"

lemma field_text_port [simp]: "field_text buf (u\<lparr>port := x\<rparr>) uf = field_text buf u uf"
  by (simp add: field_text_def)

lemma reports_port [simp]: "reports buf cmp (u\<lparr>port := x\<rparr>) = reports buf cmp u"
  by (simp add: reports_def ends_by_def)

lemma reports_cong:
  assumes "\<forall>uf. uf \<noteq> UF_MAX \<longrightarrow> f uf = g uf"
  shows "reports buf f u = reports buf g u"
  unfolding reports_def
proof (intro iff_allI)
  fix uf
  show "((has_field u uf \<longleftrightarrow> uf \<noteq> UF_MAX \<and> f uf \<noteq> []) \<and> (has_field u uf \<longrightarrow> field_text buf u uf = f uf \<and> ends_by (length buf) u uf))
    = ((has_field u uf \<longleftrightarrow> uf \<noteq> UF_MAX \<and> g uf \<noteq> []) \<and> (has_field u uf \<longrightarrow> field_text buf u uf = g uf \<and> ends_by (length buf) u uf))"
    using assms by (cases "uf = UF_MAX") auto
qed

lemma span_empty_text: "span u uf = {} \<Longrightarrow> field_text buf u uf = []"
  by (simp add: span_def field_text_def)

lemma all_fields:
  "(\<forall>uf. P uf) \<longleftrightarrow> P UF_SCHEMA \<and> P UF_HOST \<and> P UF_PORT \<and> P UF_PATH \<and> P UF_QUERY \<and> P UF_FRAGMENT \<and>
     P UF_USERINFO \<and> P UF_MAX"
  by (metis http_parser_url_fields.exhaust)

lemma parse_url_tail:
  fixes is_connect :: bool
  assumes rep: "reports buf cmp u" and low: "low_bits u" and port: "port u = 0"
    and digits: "has_field u UF_PORT \<longrightarrow> (\<forall>i \<in> span u UF_PORT. i < length buf \<and> IS_NUM (buf ! i))"
  defines "ok \<equiv> (is_connect \<longrightarrow> cmp UF_HOST \<noteq> [] \<and> cmp UF_PORT \<noteq> [] \<and> cmp UF_SCHEMA = [] \<and> cmp UF_PATH = [] \<and>
      cmp UF_QUERY = [] \<and> cmp UF_FRAGMENT = [] \<and> cmp UF_USERINFO = []) \<and> decimal 0 (cmp UF_PORT) \<le> 65535"
  shows "\<exists>u'. (if is_connect \<and> field_set u \<noteq> uf_bit UF_HOST OR uf_bit UF_PORT then Inr (1, u) else convert_port buf u)
        = Inr (if ok then 0 else 1, u') \<and>
    (ok \<longrightarrow> reports buf cmp u' \<and> unat (port u') = decimal 0 (cmp UF_PORT))"
proof -
  have hf: "has_field u uf \<longleftrightarrow> uf \<noteq> UF_MAX \<and> cmp uf \<noteq> []" for uf using rep by (simp add: reports_def)
  have set_iff: "field_set u = uf_bit UF_HOST OR uf_bit UF_PORT \<longleftrightarrow>
      cmp UF_HOST \<noteq> [] \<and> cmp UF_PORT \<noteq> [] \<and> cmp UF_SCHEMA = [] \<and> cmp UF_PATH = [] \<and>
      cmp UF_QUERY = [] \<and> cmp UF_FRAGMENT = [] \<and> cmp UF_USERINFO = []"
    unfolding host_port_only [OF low] all_fields by (auto simp: hf)
  have ne: "has_field u UF_PORT \<longrightarrow> span u UF_PORT \<noteq> {}"
    using rep hf span_empty_text [of u UF_PORT buf] unfolding reports_def by metis
  let ?d = "if has_field u UF_PORT then decimal 0 (field_text buf u UF_PORT) else 0"
  have d: "?d = decimal 0 (cmp UF_PORT)" using rep by (cases "cmp UF_PORT = []") (auto simp: reports_def)
  obtain u' where u': "convert_port buf u = Inr (if ?d \<le> 65535 then 0 else 1, u')"
    "?d \<le> 65535 \<longrightarrow> u' = (if has_field u UF_PORT then u\<lparr>port := of_nat ?d\<rparr> else u)"
    using convert_port_result [of u "span u UF_PORT" buf] digits ne by auto
  show ?thesis
  proof (cases ok)
    case True
    then have "u' = (if has_field u UF_PORT then u\<lparr>port := of_nat ?d\<rparr> else u)" "?d \<le> 65535"
      using u'(2) d by (simp_all add: ok_def)
    then have "reports buf cmp u' \<and> unat (port u') = ?d"
      using rep port by (cases "has_field u UF_PORT") simp_all
    then show ?thesis using True u'(1) d set_iff by (auto simp: ok_def)
  next
    case False
    then show ?thesis using u'(1) d set_iff by (auto simp: ok_def)
  qed
qed

lemma url_loop_port: "url_loop strict rest p s old fa u = Inr (r, u') \<Longrightarrow> port u' = port u"
proof (induction rest arbitrary: p s old fa u)
  case (Cons c rest)
  show ?case
  proof (cases "url_action (parse_url_char strict s c)")
    case (InField uf)
    then show ?thesis using Cons by (cases "uf = old") (auto simp: Let_def)
  qed (use Cons in auto)
qed simp


text \<open>The state after the first loop, for a live automaton.\<close>

lemma parse_url_loop_result:
  assumes ne: "buf \<noteq> []" and small: "length buf < 65536"
    and alive: "foldl (parse_url_char strict) (url_start is_connect) buf \<noteq> s_dead"
  obtains u1 where
    "url_loop strict buf 0 (url_start is_connect) UF_MAX False (u0\<lparr>port := 0, field_set := 0\<rparr>) =
       Inr (Some (url_has_at strict (url_start is_connect) buf), u1)"
    "\<forall>uf. has_field u1 uf \<longleftrightarrow> url_part strict (url_start is_connect) buf uf \<noteq> []"
    "\<forall>uf. has_field u1 uf \<longrightarrow> span u1 uf = url_positions strict (url_start is_connect) buf uf"
    "\<forall>uf. has_field u1 uf \<longrightarrow> ends_by (length buf) u1 uf"
    "\<not> has_field u1 UF_PORT \<and> \<not> has_field u1 UF_USERINFO" "\<not> has_field u1 UF_MAX" "low_bits u1" "port u1 = 0"
proof -
  let ?s = "url_start is_connect" and ?u = "u0\<lparr>port := 0, field_set := 0\<rparr>"
  obtain r u1 where run: "url_loop strict buf 0 ?s UF_MAX False ?u = Inr (r, u1)"
    and r: "buf \<noteq> [] \<Longrightarrow> r = None \<longleftrightarrow> foldl (parse_url_char strict) ?s buf = s_dead"
    and ends: "r \<noteq> None \<Longrightarrow> \<forall>uf. has_field u1 uf \<longrightarrow> ends_by (length buf) u1 uf"
    and noport: "r \<noteq> None \<Longrightarrow> \<not> has_field u1 UF_PORT \<and> \<not> has_field u1 UF_USERINFO"
    by (rule parse_url_loop [of strict buf is_connect u0]) blast
  obtain f where f: "r = Some f" using r ne alive by auto
  have none: "\<not> has_field ?u uf" for uf by (simp add: has_field_bit)
  have "url_tracked strict ?s [] UF_MAX ?u" by (simp add: url_tracked_def none)
  then obtain old where tr: "url_tracked strict ?s buf old u1"
    using url_loop_tracked [of strict buf "[]" ?s UF_MAX False ?u f u1] run f small by auto
  have "f \<longleftrightarrow> url_has_at strict ?s buf" using url_loop_found [OF run [unfolded f]] by simp
  moreover have "low_bits u1" by (rule url_loop_low_bits [OF run]) (simp add: low_bits_def)
  moreover have "port u1 = 0" using url_loop_port [OF run] by simp
  moreover have "\<not> has_field u1 UF_MAX" using url_loop_fields [OF run [unfolded f], of UF_MAX] none by auto
  ultimately show thesis
    using that [of u1] run f tr ends noport by (simp add: url_tracked_def url_part_Nil)
qed

lemma parse_url_dead:
  assumes "buf = [] \<or> foldl (parse_url_char strict) (url_start is_connect) buf = s_dead"
  shows "\<exists>u. http_parser_parse_url strict buf is_connect u0 = Inr (1, u)"
proof (cases "buf = []")
  case False
  obtain r u1 where run: "url_loop strict buf 0 (url_start is_connect) UF_MAX False (u0\<lparr>port := 0, field_set := 0\<rparr>) = Inr (r, u1)"
    and "buf \<noteq> [] \<Longrightarrow> r = None \<longleftrightarrow> foldl (parse_url_char strict) (url_start is_connect) buf = s_dead"
    by (rule parse_url_loop [of strict buf is_connect u0]) blast
  then show ?thesis using parse_url_unfold [OF False run] False assms by simp
qed (simp add: http_parser_parse_url_def)


lemma parse_host_low_bits:
  "http_parse_host strict buf u fa = Inr (r, u') \<Longrightarrow> low_bits u \<Longrightarrow> low_bits u'"
  by (auto simp: http_parse_host_def Let_def dest!: host_loop_low_bits split: option.splits)

lemma component_simps:
  "component strict is_connect buf UF_SCHEMA = url_part strict (url_start is_connect) buf UF_SCHEMA"
  "component strict is_connect buf UF_PATH = url_part strict (url_start is_connect) buf UF_PATH"
  "component strict is_connect buf UF_QUERY = url_part strict (url_start is_connect) buf UF_QUERY"
  "component strict is_connect buf UF_FRAGMENT = url_part strict (url_start is_connect) buf UF_FRAGMENT"
  "uf \<in> {UF_HOST, UF_PORT, UF_USERINFO} \<Longrightarrow> component strict is_connect buf uf =
     host_part strict (host_start_state (url_has_at strict (url_start is_connect) buf))
       (url_part strict (url_start is_connect) buf UF_HOST) uf"
  by (simp_all add: component_def Let_def)

lemma host_part_of_Nil [simp]: "host_part strict s [] uf = []"
  by (simp add: host_part_def)

lemma reports_no_host:
  assumes "\<forall>uf. has_field u uf \<longleftrightarrow> url_part strict (url_start is_connect) buf uf \<noteq> []"
    "\<forall>uf. has_field u uf \<longrightarrow> span u uf = url_positions strict (url_start is_connect) buf uf"
    "\<not> has_field u UF_PORT \<and> \<not> has_field u UF_USERINFO" "\<not> has_field u UF_MAX" "\<not> has_field u UF_HOST"
    "\<forall>uf. has_field u uf \<longrightarrow> ends_by (length buf) u uf"
  shows "reports buf (component strict is_connect buf) u"
proof -
  have parts: "field_text buf u uf = url_part strict (url_start is_connect) buf uf \<and> ends_by (length buf) u uf"
    if "has_field u uf" for uf
    using assms(2,6) that by (simp add: field_text_url_part)
  have "url_part strict (url_start is_connect) buf UF_HOST = []" using assms(1,5) by blast
  then show ?thesis
    unfolding reports_def all_fields using assms(1,3,4,5) parts by (auto simp: component_simps)
qed

lemma span_ends_by: "span u uf \<noteq> {} \<Longrightarrow> \<forall>i \<in> span u uf. i < m \<Longrightarrow> ends_by m u uf"
proof -
  define a n where "a = unat (off (field_data u uf))" and "n = unat (len (field_data u uf))"
  assume "span u uf \<noteq> {}" "\<forall>i \<in> span u uf. i < m"
  then have "0 < n" "\<forall>i \<in> {a ..< a + n}. i < m" by (auto simp: span_def a_def n_def)
  then have "a + n - 1 < m" by auto
  then show "ends_by m u uf" using \<open>0 < n\<close> by (simp add: ends_by_def a_def n_def)
qed

lemma reports_host:
  assumes u1: "\<forall>uf. has_field u1 uf \<longleftrightarrow> url_part strict (url_start is_connect) buf uf \<noteq> []"
    "\<forall>uf. has_field u1 uf \<longrightarrow> span u1 uf = url_positions strict (url_start is_connect) buf uf"
    "\<not> has_field u1 UF_MAX" "has_field u1 UF_HOST" "\<forall>uf. has_field u1 uf \<longrightarrow> ends_by (length buf) u1 uf"
  defines "h0 \<equiv> host_start_state (url_has_at strict (url_start is_connect) buf)"
  assumes auth: "url_part strict (url_start is_connect) buf UF_HOST = take n (drop a buf)" "a + n \<le> length buf"
    and tr: "host_tracked strict h0 a (take n (drop a buf)) u1 u"
    and host: "host_positions strict h0 a (take n (drop a buf)) UF_HOST \<noteq> {}"
  shows "reports buf (component strict is_connect buf) u"
proof -
  have comp: "uf \<in> {UF_HOST, UF_PORT, UF_USERINFO} \<Longrightarrow>
      component strict is_connect buf uf = host_part strict h0 (take n (drop a buf)) uf" for uf
    by (simp add: component_simps auth h0_def)
  have inner: "(has_field u uf \<longleftrightarrow> component strict is_connect buf uf \<noteq> []) \<and>
      (has_field u uf \<longrightarrow> field_text buf u uf = component strict is_connect buf uf \<and> ends_by (length buf) u uf)"
    if uf: "uf \<in> {UF_HOST, UF_PORT, UF_USERINFO}" for uf
  proof -
    have sp: "has_field u uf \<longrightarrow> span u uf = host_positions strict h0 a (take n (drop a buf)) uf \<and> span u uf \<noteq> {}"
      using uf tr host by (auto simp: host_tracked_def)
    have "has_field u uf \<longrightarrow> ends_by (length buf) u uf"
      using sp span_ends_by [of u uf "length buf"] host_positions_range [of _ strict h0 a "take n (drop a buf)" uf] auth(2)
      by fastforce
    then show ?thesis
      using uf tr host u1(4) comp [OF uf] field_text_host_part [OF _ auth(2), of u uf strict h0]
      by (auto simp: host_tracked_def host_part_Nil [where a = a])
  qed
  have outer: "(has_field u uf \<longleftrightarrow> url_part strict (url_start is_connect) buf uf \<noteq> []) \<and>
      (has_field u uf \<longrightarrow> field_text buf u uf = url_part strict (url_start is_connect) buf uf \<and> ends_by (length buf) u uf)"
    if "uf \<notin> {UF_HOST, UF_PORT, UF_USERINFO}" for uf
  proof -
    have same: "has_field u uf = has_field u1 uf" "field_data u uf = field_data u1 uf"
      using tr that by (simp_all add: host_tracked_def)
    have "field_text buf u uf = field_text buf u1 uf" "ends_by (length buf) u uf = ends_by (length buf) u1 uf"
      by (simp_all add: field_text_def ends_by_def same)
    then show ?thesis using u1(1,2,5) same by (simp add: field_text_url_part)
  qed
  have "\<not> has_field u UF_MAX" using tr u1(3) by (simp add: host_tracked_def)
  then show ?thesis
    unfolding reports_def all_fields using inner outer by (simp add: component_simps(1-4))
qed

text \<open>The second half of the parse, when the first pass has found an authority.\<close>

lemma parse_url_authority:
  fixes strict is_connect buf u1
  defines "s \<equiv> url_start is_connect"
  assumes small: "length buf < 65536" and ne: "buf \<noteq> []" and alive: "foldl (parse_url_char strict) s buf \<noteq> s_dead"
    and run: "url_loop strict buf 0 s UF_MAX False (u0\<lparr>port := 0, field_set := 0\<rparr>) = Inr (Some (url_has_at strict s buf), u1)"
    and u1: "\<forall>uf. has_field u1 uf \<longleftrightarrow> url_part strict s buf uf \<noteq> []"
      "\<forall>uf. has_field u1 uf \<longrightarrow> span u1 uf = url_positions strict s buf uf"
      "\<forall>uf. has_field u1 uf \<longrightarrow> ends_by (length buf) u1 uf"
      "\<not> has_field u1 UF_PORT \<and> \<not> has_field u1 UF_USERINFO" "\<not> has_field u1 UF_MAX" "low_bits u1" "port u1 = 0"
    and yes: "has_field u1 UF_HOST"
  shows "\<exists>u. http_parser_parse_url strict buf is_connect u0 = Inr (if url_accepts strict is_connect buf then 0 else 1, u) \<and>
    (url_accepts strict is_connect buf \<longrightarrow>
       reports buf (component strict is_connect buf) u \<and> unat (port u) = decimal 0 (component strict is_connect buf UF_PORT))"
proof -
  let ?s = "url_start is_connect" and ?comp = "component strict is_connect buf"
  note run = run [unfolded s_def] and u1 = u1 [unfolded s_def] and alive = alive [unfolded s_def]
  note unfold = parse_url_unfold [OF ne run]
  define a n where "a = unat (off (field_data u1 UF_HOST))" and "n = unat (len (field_data u1 UF_HOST))"
  have sp: "span u1 UF_HOST = {a ..< a + n}" by (simp add: span_def a_def n_def)
  have pos: "url_positions strict ?s buf UF_HOST = {a ..< a + n}" using u1(2) yes sp by simp
  have auth: "url_part strict ?s buf UF_HOST = take n (drop a buf)" by (rule authority_text [OF pos])
  have part: "url_part strict ?s buf UF_HOST \<noteq> []" using u1(1) yes by blast
  have n: "0 < n" using part auth by (cases n) auto
  have le: "a + n \<le> length buf" using u1(3) yes by (simp add: ends_by_def a_def n_def)
  let ?start = "host_start_state (url_has_at strict ?s buf)"
  let ?h = "foldl (http_parse_host_char strict) ?start (take n (drop a buf))"
  let ?ok = "?h \<noteq> s_http_host_dead \<and> host_end_ok ?h"
  obtain u2 where u2: "http_parse_host strict buf u1 (url_has_at strict ?s buf) = Inr (if ?ok then 0 else 1, u2)"
    and tr: "?h \<noteq> s_http_host_dead \<longrightarrow> host_tracked strict ?start a (take n (drop a buf)) u1 u2"
    using parse_host_result [OF yes conjunct1 [OF u1(4)] conjunct2 [OF u1(4)] sp n le small,
        of strict "url_has_at strict ?s buf"] by blast
  have acc: "host_accepts strict is_connect buf \<longleftrightarrow> ?ok" by (simp add: host_accepts_def auth Let_def)
  show ?thesis
  proof (cases ?ok)
    case False
    then have "\<not> url_accepts strict is_connect buf" using acc part unfolding url_accepts_def by blast
    then show ?thesis using unfold yes u2 False by auto
  next
    case True
    have track: "host_tracked strict ?start a (take n (drop a buf)) u1 u2" using tr True by blast
    have "host_rank ?start < 4" by (simp add: host_start_state_def)
    then have "host_positions strict ?start a (take n (drop a buf)) UF_HOST \<noteq> {}"
      using True host_end_rank by (intro host_nonempty) blast+
    then have rep: "reports buf ?comp u2"
      using u1(1,2,3,5) yes auth le track by (intro reports_host) simp_all
    have low: "low_bits u2" by (rule parse_host_low_bits [OF u2 u1(6)])
    have port: "port u2 = 0" using track u1(7) by (simp add: host_tracked_def)
    have digits: "has_field u2 UF_PORT \<longrightarrow> (\<forall>i \<in> span u2 UF_PORT. i < length buf \<and> IS_NUM (buf ! i))"
      using track le port_digits [OF _ le] host_positions_range by (fastforce simp: host_tracked_def)
    have tail: "http_parser_parse_url strict buf is_connect u0 =
        (if is_connect \<and> field_set u2 \<noteq> uf_bit UF_HOST OR uf_bit UF_PORT then Inr (1, u2) else convert_port buf u2)"
      using unfold yes u2 True by simp
    show ?thesis
      unfolding tail using parse_url_tail [OF rep low port digits, of is_connect] acc True part ne alive
      by (simp add: url_accepts_def)
  qed
qed

lemma parse_url_refines:
  assumes small: "length buf < 65536"
  shows "\<exists>u. http_parser_parse_url strict buf is_connect u0 = Inr (if url_accepts strict is_connect buf then 0 else 1, u) \<and>
    (url_accepts strict is_connect buf \<longrightarrow>
       reports buf (component strict is_connect buf) u \<and> unat (port u) = decimal 0 (component strict is_connect buf UF_PORT))"
proof (cases "buf = [] \<or> foldl (parse_url_char strict) (url_start is_connect) buf = s_dead")
  case True
  then have "\<not> url_accepts strict is_connect buf" by (auto simp: url_accepts_def)
  then show ?thesis using parse_url_dead [OF True] by simp
next
  case False
  let ?s = "url_start is_connect" and ?comp = "component strict is_connect buf"
  have ne: "buf \<noteq> []" and alive: "foldl (parse_url_char strict) ?s buf \<noteq> s_dead" using False by auto
  obtain u1 where run: "url_loop strict buf 0 ?s UF_MAX False (u0\<lparr>port := 0, field_set := 0\<rparr>) =
       Inr (Some (url_has_at strict ?s buf), u1)"
    and u1: "\<forall>uf. has_field u1 uf \<longleftrightarrow> url_part strict ?s buf uf \<noteq> []"
      "\<forall>uf. has_field u1 uf \<longrightarrow> span u1 uf = url_positions strict ?s buf uf"
      "\<forall>uf. has_field u1 uf \<longrightarrow> ends_by (length buf) u1 uf"
      "\<not> has_field u1 UF_PORT \<and> \<not> has_field u1 UF_USERINFO" "\<not> has_field u1 UF_MAX" "low_bits u1" "port u1 = 0"
    by (rule parse_url_loop_result [OF ne small alive, of u0]) blast
  note unfold = parse_url_unfold [OF ne run]
  show ?thesis
  proof (cases "has_field u1 UF_HOST")
    case no: False
    then have part: "url_part strict ?s buf UF_HOST = []" using u1(1) by blast
    have schema: "has_field u1 UF_SCHEMA \<longleftrightarrow> ?comp UF_SCHEMA \<noteq> []" using u1(1) by (simp add: component_simps)
    show ?thesis
    proof (cases "has_field u1 UF_SCHEMA")
      case True
      then have "\<not> url_accepts strict is_connect buf" using schema part by (simp add: url_accepts_def)
      then show ?thesis using unfold True no by simp
    next
      case False
      have rep: "reports buf ?comp u1" using u1(1-5) no by (intro reports_no_host) simp_all
      show ?thesis
        using parse_url_tail [OF rep u1(6,7), of is_connect] u1(4) unfold no False schema part ne alive
        by (simp add: url_accepts_def)
    qed
  next
    case yes: True
    then show ?thesis by (rule parse_url_authority [OF small ne alive run u1])
  qed
qed

end
