(* ===== verification/Http_Url_Render.thy ===== *)
theory Http_Url_Render
  imports Http_Url_Ref
begin

text \<open>
  Writing a URL from its components and parsing it again; what strict mode changes; and the
  wrap-around of offsets in longer buffers.
\<close>

unbundle bit_operations_syntax

section \<open>Composition of the reference\<close>

lemma foldl_take_append:
  "foldl f s (take (Suc i) (xs @ ys)) =
     (if i < length xs then foldl f s (take (Suc i) xs) else foldl f (foldl f s xs) (take (Suc (i - length xs)) ys))"
  by (auto simp: Suc_diff_le)

text \<open>Indices of a concatenation, for any property of the state reached at an index.\<close>

lemma filter_states_append:
  "map ((!) (xs @ ys)) (filter (\<lambda>i. Q (foldl f s (take (Suc i) (xs @ ys)))) [0..<length (xs @ ys)]) =
     map ((!) xs) (filter (\<lambda>i. Q (foldl f s (take (Suc i) xs))) [0..<length xs]) @
     map ((!) ys) (filter (\<lambda>i. Q (foldl f (foldl f s xs) (take (Suc i) ys))) [0..<length ys])"
proof -
  have split: "[0..<length (xs @ ys)] = [0..<length xs] @ map (\<lambda>i. i + length xs) [0..<length ys]"
    using upt_add_eq_append [of 0 "length xs" "length ys"] map_add_upt [of "length xs" "length ys"]
    by (simp add: add.commute [of "length xs"])
  have left: "filter (\<lambda>i. Q (foldl f s (take (Suc i) (xs @ ys)))) [0..<length xs] =
      filter (\<lambda>i. Q (foldl f s (take (Suc i) xs))) [0..<length xs]"
    by (rule filter_cong) (simp_all add: foldl_take_append)
  have right: "filter (\<lambda>i. Q (foldl f s (take (Suc i) (xs @ ys)))) (map (\<lambda>i. i + length xs) [0..<length ys]) =
      map (\<lambda>i. i + length xs) (filter (\<lambda>i. Q (foldl f (foldl f s xs) (take (Suc i) ys))) [0..<length ys])"
    by (simp add: filter_map comp_def foldl_take_append)
  show ?thesis
    unfolding split filter_append left right by (auto simp: nth_append)
qed

lemma url_part_append:
  "url_part strict s (xs @ ys) uf = url_part strict s xs uf @ url_part strict (foldl (parse_url_char strict) s xs) ys uf"
  unfolding url_part_def by (rule filter_states_append [where Q = "\<lambda>t. url_action t = InField uf"])

lemma host_part_append:
  "host_part strict s (xs @ ys) uf = host_part strict s xs uf @ host_part strict (foldl (http_parse_host_char strict) s xs) ys uf"
  unfolding host_part_def by (rule filter_states_append [where Q = "\<lambda>t. host_field t = uf"])

lemma url_part_Cons:
  "url_part strict s (c # cs) uf =
     (if url_action (parse_url_char strict s c) = InField uf then [c] else []) @ url_part strict (parse_url_char strict s c) cs uf"
  using url_part_append [of strict s "[c]" cs uf] by (simp add: url_part_def)

lemma host_part_Cons:
  "host_part strict s (c # cs) uf =
     (if host_field (http_parse_host_char strict s c) = uf then [c] else []) @ host_part strict (http_parse_host_char strict s c) cs uf"
  using host_part_append [of strict s "[c]" cs uf] by (simp add: host_part_def)

lemma url_part_empty [simp]: "url_part strict s [] uf = []"
  by (simp add: url_part_def)

text \<open>A run that stays in one state.\<close>

lemma url_stay:
  assumes "\<forall>c \<in> set cs. parse_url_char strict s c = s"
  shows "foldl (parse_url_char strict) s cs = s" "url_part strict s cs uf = (if url_action s = InField uf then cs else [])"
  using assms by (induction cs) (auto simp: url_part_Cons)

lemma host_stay:
  assumes "\<forall>c \<in> set cs. http_parse_host_char strict s c = s"
  shows "foldl (http_parse_host_char strict) s cs = s" "host_part strict s cs uf = (if host_field s = uf then cs else [])"
  using assms by (induction cs) (auto simp: host_part_Cons)

lemma url_has_at_Nil [simp]: "\<not> url_has_at strict s []"
  by (simp add: url_has_at_def)

lemma url_has_at_append:
  "url_has_at strict s (xs @ ys) \<longleftrightarrow> url_has_at strict s xs \<or> url_has_at strict (foldl (parse_url_char strict) s xs) ys"
  by (induction xs arbitrary: s) (auto simp: url_has_at_Cons)

lemma url_has_at_stay:
  "\<forall>c \<in> set cs. parse_url_char strict s c = s \<Longrightarrow> s \<noteq> s_req_server_with_at \<Longrightarrow> \<not> url_has_at strict s cs"
  by (induction cs) (simp_all add: url_has_at_Cons)


section \<open>Character classes in the automata\<close>

lemma class_exclusions:
  "\<not> IS_USERINFO_CHAR CHR ''/''" "\<not> IS_USERINFO_CHAR CHR ''?''" "\<not> IS_USERINFO_CHAR CHR ''@''"
  "\<not> IS_USERINFO_CHAR CHR '' ''" "\<not> IS_USERINFO_CHAR CR" "\<not> IS_USERINFO_CHAR LF"
  "\<not> IS_USERINFO_CHAR HT" "\<not> IS_USERINFO_CHAR FF"
  "\<not> IS_SCHEMA_CHAR CHR '' ''" "\<not> IS_SCHEMA_CHAR CR" "\<not> IS_SCHEMA_CHAR LF" "\<not> IS_SCHEMA_CHAR HT" "\<not> IS_SCHEMA_CHAR FF"
  "\<not> IS_SCHEMA_CHAR CHR '':''"
  "\<not> IS_URL_CHAR strict CHR '' ''" "\<not> IS_URL_CHAR strict CR" "\<not> IS_URL_CHAR strict LF"
  "\<not> IS_URL_CHAR True HT" "\<not> IS_URL_CHAR True FF" "\<not> IS_URL_CHAR strict CHR ''?''" "\<not> IS_URL_CHAR strict CHR ''#''"
  "IS_URL_CHAR strict CHR ''/''" "\<not> IS_ALPHA CHR ''/''" "\<not> IS_ALPHA CHR ''*''"
  "\<not> IS_HOST_CHAR strict CHR ''[''" "\<not> IS_HOST_CHAR strict CHR '':''" "IS_USERINFO_CHAR CHR '':''" 
  by (simp_all add: char_class_iffs) (simp_all add: byte_index_def)

lemma class_inclusions:
  "IS_ALPHA c \<Longrightarrow> IS_SCHEMA_CHAR c"
  "IS_NUM c \<Longrightarrow> IS_USERINFO_CHAR c" "IS_HOST_CHAR strict c \<Longrightarrow> IS_USERINFO_CHAR c"
  by (auto simp: IS_SCHEMA_CHAR_def IS_USERINFO_CHAR_def IS_ALPHANUM_def IS_HOST_CHAR_def IS_MARK_def split: if_splits)


lemma neq_of_class: "P c \<Longrightarrow> \<not> P d \<Longrightarrow> c \<noteq> d"
  by auto

lemma userinfo_neq:
  assumes "IS_USERINFO_CHAR c"
  shows "c \<noteq> CHR ''/''" "c \<noteq> CHR ''?''" "c \<noteq> CHR ''@''" "c \<noteq> CHR '' ''" "c \<noteq> CR" "c \<noteq> LF" "c \<noteq> HT" "c \<noteq> FF"
  using assms class_exclusions(1-8) by (auto dest: neq_of_class)

lemma schema_neq:
  assumes "IS_SCHEMA_CHAR c"
  shows "c \<noteq> CHR '' ''" "c \<noteq> CR" "c \<noteq> LF" "c \<noteq> HT" "c \<noteq> FF"
  using assms class_exclusions(9-13) by (auto dest: neq_of_class)

lemma url_char_neq:
  assumes "IS_URL_CHAR strict c"
  shows "c \<noteq> CHR '' ''" "c \<noteq> CR" "c \<noteq> LF" "strict \<Longrightarrow> c \<noteq> HT" "strict \<Longrightarrow> c \<noteq> FF"
  using assms class_exclusions(15-19) by (auto dest: neq_of_class)

lemma server_char:
  assumes "IS_USERINFO_CHAR c" "s \<in> {s_req_server_start, s_req_server, s_req_server_with_at}"
  shows "parse_url_char strict s c = s_req_server"
  using assms(2) userinfo_neq [OF assms(1)] assms(1)
  by (elim insertE emptyE) (simp_all add: parse_url_char_def url_server_char_def)

lemma path_chars:
  assumes "IS_URL_CHAR strict c"
  shows "parse_url_char strict s_req_path c = s_req_path"
    "parse_url_char strict s_req_query_string_start c = s_req_query_string"
    "parse_url_char strict s_req_query_string c = s_req_query_string"
    "parse_url_char strict s_req_fragment_start c = s_req_fragment"
    "parse_url_char strict s_req_fragment c = s_req_fragment"
  using assms url_char_neq [OF assms] by (simp_all add: parse_url_char_def)

lemma schema_chars:
  assumes "IS_SCHEMA_CHAR c"
  shows "parse_url_char strict s_req_schema c = s_req_schema"
    "IS_ALPHA c \<Longrightarrow> parse_url_char strict s_req_spaces_before_url c = s_req_schema"
  using assms schema_neq [OF assms] class_exclusions(23,24) by (auto simp add: parse_url_char_def)

text \<open>A non-empty run of characters that lead into a state and keep it.\<close>

lemma url_segment:
  assumes "cs \<noteq> []" "\<forall>c \<in> set cs. parse_url_char strict s c = t \<and> parse_url_char strict t c = t"
  shows "foldl (parse_url_char strict) s cs = t"
    "url_part strict s cs uf = (if url_action t = InField uf then cs else [])"
    "t \<noteq> s_req_server_with_at \<Longrightarrow> \<not> url_has_at strict s cs"
proof -
  obtain c ds where cs: "cs = c # ds" using assms(1) by (cases cs) auto
  have stay: "\<forall>d \<in> set ds. parse_url_char strict t d = t" using assms(2) cs by simp
  have enter: "parse_url_char strict s c = t" using assms(2) cs by simp
  show "foldl (parse_url_char strict) s cs = t"
    using url_stay(1) [OF stay] enter by (simp add: cs)
  show "url_part strict s cs uf = (if url_action t = InField uf then cs else [])"
    using url_stay(2) [OF stay] enter by (simp add: cs url_part_Cons)
  show "t \<noteq> s_req_server_with_at \<Longrightarrow> \<not> url_has_at strict s cs"
    using url_has_at_stay [OF stay] enter by (simp add: cs url_has_at_Cons)
qed

lemma host_segment:
  assumes "cs \<noteq> []" "\<forall>c \<in> set cs. http_parse_host_char strict s c = t \<and> http_parse_host_char strict t c = t"
  shows "foldl (http_parse_host_char strict) s cs = t"
    "host_part strict s cs uf = (if host_field t = uf then cs else [])"
proof -
  obtain c ds where cs: "cs = c # ds" using assms(1) by (cases cs) auto
  have stay: "\<forall>d \<in> set ds. http_parse_host_char strict t d = t" using assms(2) cs by simp
  have enter: "http_parse_host_char strict s c = t" using assms(2) cs by simp
  show "foldl (http_parse_host_char strict) s cs = t"
    using host_stay(1) [OF stay] enter by (simp add: cs)
  show "host_part strict s cs uf = (if host_field t = uf then cs else [])"
    using host_stay(2) [OF stay] enter by (simp add: cs host_part_Cons)
qed

section \<open>Rendering\<close>

record url_parts =
  up_schema :: string
  up_userinfo :: "string option"
  up_host :: string
  up_port :: "string option"
  up_path :: string
  up_query :: "string option"
  up_fragment :: "string option"

definition opt_text :: "string option \<Rightarrow> string" where
  "opt_text x = (case x of None \<Rightarrow> [] | Some t \<Rightarrow> t)"

definition before :: "string option \<Rightarrow> string \<Rightarrow> string" where
  "before x sep = (case x of None \<Rightarrow> [] | Some t \<Rightarrow> t @ sep)"

definition after :: "string \<Rightarrow> string option \<Rightarrow> string" where
  "after sep x = (case x of None \<Rightarrow> [] | Some t \<Rightarrow> sep @ t)"

definition render_authority :: "url_parts \<Rightarrow> string" where
  "render_authority p = before (up_userinfo p) ''@'' @ up_host p @ after '':'' (up_port p)"

definition render_tail :: "url_parts \<Rightarrow> string" where
  "render_tail p = up_path p @ after ''?'' (up_query p) @ after ''#'' (up_fragment p)"

definition render_url :: "url_parts \<Rightarrow> string" where
  "render_url p = up_schema p @ ''://'' @ render_authority p @ render_tail p"

definition rendered_part :: "url_parts \<Rightarrow> http_parser_url_fields \<Rightarrow> string" where
  "rendered_part p uf =
     (case uf of
        UF_SCHEMA \<Rightarrow> up_schema p | UF_HOST \<Rightarrow> up_host p | UF_PORT \<Rightarrow> opt_text (up_port p) | UF_PATH \<Rightarrow> up_path p
      | UF_QUERY \<Rightarrow> opt_text (up_query p) | UF_FRAGMENT \<Rightarrow> opt_text (up_fragment p)
      | UF_USERINFO \<Rightarrow> opt_text (up_userinfo p) | UF_MAX \<Rightarrow> [])"

definition nonempty_all :: "(char \<Rightarrow> bool) \<Rightarrow> string \<Rightarrow> bool" where
  "nonempty_all P cs \<longleftrightarrow> cs \<noteq> [] \<and> (\<forall>c \<in> set cs. P c)"

definition wf_url :: "bool \<Rightarrow> url_parts \<Rightarrow> bool" where
  "wf_url strict p \<longleftrightarrow>
     nonempty_all IS_SCHEMA_CHAR (up_schema p) \<and> IS_ALPHA (hd (up_schema p)) \<and>
     pred_option (nonempty_all IS_USERINFO_CHAR) (up_userinfo p) \<and>
     nonempty_all (IS_HOST_CHAR strict) (up_host p) \<and>
     pred_option (nonempty_all IS_NUM) (up_port p) \<and> decimal 0 (opt_text (up_port p)) \<le> 65535 \<and>
     (up_path p \<noteq> [] \<longrightarrow> hd (up_path p) = CHR ''/'' \<and> nonempty_all (IS_URL_CHAR strict) (up_path p)) \<and>
     pred_option (nonempty_all (IS_URL_CHAR strict)) (up_query p) \<and>
     pred_option (nonempty_all (IS_URL_CHAR strict)) (up_fragment p) \<and>
     (up_fragment p \<noteq> None \<longrightarrow> up_path p \<noteq> [] \<or> up_query p \<noteq> None)"


lemma delimiters:
  "parse_url_char strict s_req_schema CHR '':'' = s_req_schema_slash"
  "parse_url_char strict s_req_schema_slash CHR ''/'' = s_req_schema_slash_slash"
  "parse_url_char strict s_req_schema_slash_slash CHR ''/'' = s_req_server_start"
  "parse_url_char strict s_req_server CHR ''@'' = s_req_server_with_at"
  "parse_url_char strict s_req_server CHR ''/'' = s_req_path"
  "parse_url_char strict s_req_server CHR ''?'' = s_req_query_string_start"
  "parse_url_char strict s_req_path CHR ''?'' = s_req_query_string_start"
  "parse_url_char strict s_req_path CHR ''#'' = s_req_fragment_start"
  "parse_url_char strict s_req_query_string CHR ''#'' = s_req_fragment_start"
  using class_exclusions(14,20,21) by (simp_all add: parse_url_char_def url_server_char_def)

lemma host_delimiters:
  "http_parse_host_char strict s_http_userinfo CHR ''@'' = s_http_host_start"
  "http_parse_host_char strict s_http_host CHR '':'' = s_http_host_port_start"
  using class_exclusions(26) by (simp_all add: http_parse_host_char_def)

lemma url_actions:
  "url_action s_req_schema = InField UF_SCHEMA" "url_action s_req_schema_slash = SkipDelimiter"
  "url_action s_req_schema_slash_slash = SkipDelimiter" "url_action s_req_server_start = SkipDelimiter"
  "url_action s_req_server = InField UF_HOST" "url_action s_req_path = InField UF_PATH"
  "url_action s_req_query_string_start = SkipDelimiter" "url_action s_req_query_string = InField UF_QUERY"
  "url_action s_req_fragment_start = SkipDelimiter" "url_action s_req_fragment = InField UF_FRAGMENT"
  by (simp_all add: url_action_def)

lemmas url_walk = url_part_append url_part_Cons url_has_at_append url_has_at_Cons delimiters url_actions with_at_field

lemma schema_run:
  assumes "nonempty_all IS_SCHEMA_CHAR cs" "IS_ALPHA (hd cs)"
  shows "foldl (parse_url_char strict) s_req_spaces_before_url (cs @ ''://'') = s_req_server_start"
    "url_part strict s_req_spaces_before_url (cs @ ''://'') uf = (if uf = UF_SCHEMA then cs else [])"
    "\<not> url_has_at strict s_req_spaces_before_url (cs @ ''://'')"
proof -
  obtain c ds where cs: "cs = c # ds" using assms(1) by (cases cs) (auto simp: nonempty_all_def)
  have enter: "parse_url_char strict s_req_spaces_before_url c = s_req_schema"
    using assms cs by (intro schema_chars(2)) (simp_all add: nonempty_all_def)
  have stay: "\<forall>d \<in> set ds. parse_url_char strict s_req_schema d = s_req_schema"
    using assms(1) cs schema_chars(1) by (simp add: nonempty_all_def)
  show "foldl (parse_url_char strict) s_req_spaces_before_url (cs @ ''://'') = s_req_server_start"
    using url_stay(1) [OF stay] by (simp add: cs enter delimiters)
  show "url_part strict s_req_spaces_before_url (cs @ ''://'') uf = (if uf = UF_SCHEMA then cs else [])"
    using url_stay [OF stay] by (simp add: cs enter url_walk)
  show "\<not> url_has_at strict s_req_spaces_before_url (cs @ ''://'')"
    using url_stay(1) [OF stay] url_has_at_stay [OF stay] by (simp add: cs enter url_walk)
qed

lemma server_run:
  assumes "nonempty_all IS_USERINFO_CHAR cs" "s \<in> {s_req_server_start, s_req_server, s_req_server_with_at}"
  shows "foldl (parse_url_char strict) s cs = s_req_server"
    "url_part strict s cs uf = (if uf = UF_HOST then cs else [])" "\<not> url_has_at strict s cs"
proof -
  have seg: "\<forall>c \<in> set cs. parse_url_char strict s c = s_req_server \<and> parse_url_char strict s_req_server c = s_req_server"
    using assms server_char by (simp add: nonempty_all_def)
  have ne: "cs \<noteq> []" using assms(1) by (simp add: nonempty_all_def)
  show "foldl (parse_url_char strict) s cs = s_req_server"
    "url_part strict s cs uf = (if uf = UF_HOST then cs else [])" "\<not> url_has_at strict s cs"
    using url_segment [OF ne seg] by (auto simp: url_actions)
qed

lemma host_port_userinfo:
  assumes "wf_url strict p"
  shows "nonempty_all IS_USERINFO_CHAR (up_host p @ after '':'' (up_port p))"
  using assms class_inclusions class_exclusions(27)
  by (cases "up_port p") (auto simp: wf_url_def nonempty_all_def after_def)

lemma authority_run:
  assumes "wf_url strict p"
  shows "foldl (parse_url_char strict) s_req_server_start (render_authority p) = s_req_server"
    "url_part strict s_req_server_start (render_authority p) uf = (if uf = UF_HOST then render_authority p else [])"
    "url_has_at strict s_req_server_start (render_authority p) \<longleftrightarrow> up_userinfo p \<noteq> None"
proof -
  note hp = server_run [OF host_port_userinfo [OF assms]]
  have "foldl (parse_url_char strict) s_req_server_start (render_authority p) = s_req_server \<and>
    url_part strict s_req_server_start (render_authority p) uf = (if uf = UF_HOST then render_authority p else []) \<and>
    (url_has_at strict s_req_server_start (render_authority p) \<longleftrightarrow> up_userinfo p \<noteq> None)"
  proof (cases "up_userinfo p")
    case None
    then show ?thesis using hp [of s_req_server_start] by (simp add: render_authority_def before_def)
  next
    case (Some i)
    then have "nonempty_all IS_USERINFO_CHAR i" using assms by (simp add: wf_url_def)
    note ui = server_run [OF this, of s_req_server_start]
    have split: "render_authority p = i @ CHR ''@'' # (up_host p @ after '':'' (up_port p))"
      using Some by (simp add: render_authority_def before_def)
    show ?thesis
      unfolding split using ui hp [of s_req_server_with_at] Some
      by (simp del: append_assoc add: url_part_append [of strict s_req_server_start i]
          url_has_at_append [of strict s_req_server_start i] url_part_Cons url_has_at_Cons delimiters with_at_field)
  qed
  then show "foldl (parse_url_char strict) s_req_server_start (render_authority p) = s_req_server"
    "url_part strict s_req_server_start (render_authority p) uf = (if uf = UF_HOST then render_authority p else [])"
    "url_has_at strict s_req_server_start (render_authority p) \<longleftrightarrow> up_userinfo p \<noteq> None" by blast+
qed


lemma path_run:
  assumes "path \<noteq> [] \<longrightarrow> hd path = CHR ''/'' \<and> nonempty_all (IS_URL_CHAR strict) path"
  shows "foldl (parse_url_char strict) s_req_server path = (if path = [] then s_req_server else s_req_path)"
    "url_part strict s_req_server path uf = (if uf = UF_PATH then path else [])"
    "\<not> url_has_at strict s_req_server path"
proof -
  have "foldl (parse_url_char strict) s_req_server path = (if path = [] then s_req_server else s_req_path) \<and>
    url_part strict s_req_server path uf = (if uf = UF_PATH then path else []) \<and> \<not> url_has_at strict s_req_server path"
  proof (cases path)
    case (Cons c cs)
    then have c: "c = CHR ''/''" and stay: "\<forall>d \<in> set cs. parse_url_char strict s_req_path d = s_req_path"
      using assms path_chars(1) by (simp_all add: nonempty_all_def)
    show ?thesis
      using url_stay [OF stay] url_has_at_stay [OF stay] by (simp add: Cons c url_part_Cons url_has_at_Cons delimiters url_actions)
  qed simp
  then show "foldl (parse_url_char strict) s_req_server path = (if path = [] then s_req_server else s_req_path)"
    "url_part strict s_req_server path uf = (if uf = UF_PATH then path else [])"
    "\<not> url_has_at strict s_req_server path" by blast+
qed

lemma query_run:
  assumes "pred_option (nonempty_all (IS_URL_CHAR strict)) q" "s = s_req_server \<or> s = s_req_path"
  shows "foldl (parse_url_char strict) s (after ''?'' q) = (if q = None then s else s_req_query_string)"
    "url_part strict s (after ''?'' q) uf = (if uf = UF_QUERY then opt_text q else [])"
    "\<not> url_has_at strict s (after ''?'' q)"
proof -
  have "foldl (parse_url_char strict) s (after ''?'' q) = (if q = None then s else s_req_query_string) \<and>
    url_part strict s (after ''?'' q) uf = (if uf = UF_QUERY then opt_text q else []) \<and> \<not> url_has_at strict s (after ''?'' q)"
  proof (cases q)
    case (Some t)
    have start: "parse_url_char strict s CHR ''?'' = s_req_query_string_start" using assms(2) delimiters(6,7) by auto
    have ne: "t \<noteq> []" and seg: "\<forall>c \<in> set t. parse_url_char strict s_req_query_string_start c = s_req_query_string \<and>
        parse_url_char strict s_req_query_string c = s_req_query_string"
      using assms(1) Some path_chars(2,3) by (simp_all add: nonempty_all_def)
    show ?thesis
      using url_segment [OF ne seg] start
      by (simp add: Some after_def opt_text_def url_part_Cons url_has_at_Cons url_actions)
  qed (simp add: after_def opt_text_def)
  then show "foldl (parse_url_char strict) s (after ''?'' q) = (if q = None then s else s_req_query_string)"
    "url_part strict s (after ''?'' q) uf = (if uf = UF_QUERY then opt_text q else [])"
    "\<not> url_has_at strict s (after ''?'' q)" by blast+
qed

lemma fragment_run:
  assumes "pred_option (nonempty_all (IS_URL_CHAR strict)) f" "f \<noteq> None \<longrightarrow> s = s_req_path \<or> s = s_req_query_string"
  shows "foldl (parse_url_char strict) s (after ''#'' f) = (if f = None then s else s_req_fragment)"
    "url_part strict s (after ''#'' f) uf = (if uf = UF_FRAGMENT then opt_text f else [])"
    "\<not> url_has_at strict s (after ''#'' f)"
proof -
  have "foldl (parse_url_char strict) s (after ''#'' f) = (if f = None then s else s_req_fragment) \<and>
    url_part strict s (after ''#'' f) uf = (if uf = UF_FRAGMENT then opt_text f else []) \<and> \<not> url_has_at strict s (after ''#'' f)"
  proof (cases f)
    case (Some t)
    have start: "parse_url_char strict s CHR ''#'' = s_req_fragment_start" using assms(2) Some delimiters(8,9) by auto
    have ne: "t \<noteq> []" and seg: "\<forall>c \<in> set t. parse_url_char strict s_req_fragment_start c = s_req_fragment \<and>
        parse_url_char strict s_req_fragment c = s_req_fragment"
      using assms(1) Some path_chars(4,5) by (simp_all add: nonempty_all_def)
    show ?thesis
      using url_segment [OF ne seg] start
      by (simp add: Some after_def opt_text_def url_part_Cons url_has_at_Cons url_actions)
  qed (simp add: after_def opt_text_def)
  then show "foldl (parse_url_char strict) s (after ''#'' f) = (if f = None then s else s_req_fragment)"
    "url_part strict s (after ''#'' f) uf = (if uf = UF_FRAGMENT then opt_text f else [])"
    "\<not> url_has_at strict s (after ''#'' f)" by blast+
qed

lemma tail_run:
  assumes wf: "wf_url strict p"
  shows "foldl (parse_url_char strict) s_req_server (render_tail p) \<noteq> s_dead"
    "url_part strict s_req_server (render_tail p) uf =
       (if uf \<in> {UF_PATH, UF_QUERY, UF_FRAGMENT} then rendered_part p uf else [])"
    "\<not> url_has_at strict s_req_server (render_tail p)"
proof -
  have path: "up_path p \<noteq> [] \<longrightarrow> hd (up_path p) = CHR ''/'' \<and> nonempty_all (IS_URL_CHAR strict) (up_path p)"
    and q: "pred_option (nonempty_all (IS_URL_CHAR strict)) (up_query p)"
    and f: "pred_option (nonempty_all (IS_URL_CHAR strict)) (up_fragment p)"
      "up_fragment p \<noteq> None \<longrightarrow> up_path p \<noteq> [] \<or> up_query p \<noteq> None"
    using wf unfolding wf_url_def by blast+
  note prun = path_run [OF path]
  let ?s1 = "if up_path p = [] then s_req_server else s_req_path"
  let ?s2 = "if up_query p = None then ?s1 else s_req_query_string"
  have qrun: "foldl (parse_url_char strict) ?s1 (after ''?'' (up_query p)) = ?s2"
    "url_part strict ?s1 (after ''?'' (up_query p)) uf = (if uf = UF_QUERY then opt_text (up_query p) else [])"
    "\<not> url_has_at strict ?s1 (after ''?'' (up_query p))" for uf
    using query_run [OF q, of ?s1] by auto
  have "up_fragment p \<noteq> None \<longrightarrow> ?s2 = s_req_path \<or> ?s2 = s_req_query_string" using f(2) by auto
  note frun = fragment_run [OF f(1) this]
  show "foldl (parse_url_char strict) s_req_server (render_tail p) \<noteq> s_dead"
    unfolding render_tail_def foldl_append prun(1) qrun(1) frun(1) by simp
  show "url_part strict s_req_server (render_tail p) uf =
       (if uf \<in> {UF_PATH, UF_QUERY, UF_FRAGMENT} then rendered_part p uf else [])"
    unfolding render_tail_def url_part_append foldl_append prun qrun frun by (cases uf) (simp_all add: rendered_part_def)
  show "\<not> url_has_at strict s_req_server (render_tail p)"
    unfolding render_tail_def url_has_at_append foldl_append prun(1) qrun(1) using prun(3) qrun(3) frun(3) by blast
qed

lemma host_run:
  assumes wf: "wf_url strict p"
  shows "host_end_ok (foldl (http_parse_host_char strict) (host_start_state (up_userinfo p \<noteq> None)) (render_authority p))"
    "foldl (http_parse_host_char strict) (host_start_state (up_userinfo p \<noteq> None)) (render_authority p) \<noteq> s_http_host_dead"
    "uf \<in> {UF_HOST, UF_PORT, UF_USERINFO} \<Longrightarrow>
       host_part strict (host_start_state (up_userinfo p \<noteq> None)) (render_authority p) uf = rendered_part p uf"
proof -
  have host: "up_host p \<noteq> []" "\<forall>c \<in> set (up_host p). http_parse_host_char strict s_http_host_start c = s_http_host \<and>
      http_parse_host_char strict s_http_host c = s_http_host"
    using wf class_exclusions(25) by (auto simp: wf_url_def nonempty_all_def http_parse_host_char_def)
  note hrun = host_segment [OF host]
  have prun: "foldl (http_parse_host_char strict) s_http_host (after '':'' (up_port p)) =
      (if up_port p = None then s_http_host else s_http_host_port) \<and>
    (uf \<noteq> UF_MAX \<longrightarrow> host_part strict s_http_host (after '':'' (up_port p)) uf = (if uf = UF_PORT then opt_text (up_port p) else []))" for uf
  proof (cases "up_port p")
    case (Some d)
    then have "d \<noteq> []" "\<forall>c \<in> set d. http_parse_host_char strict s_http_host_port_start c = s_http_host_port \<and>
        http_parse_host_char strict s_http_host_port c = s_http_host_port"
      using wf by (simp_all add: wf_url_def nonempty_all_def http_parse_host_char_def)
    from host_segment [OF this] show ?thesis
      by (simp add: Some after_def opt_text_def host_part_Cons host_delimiters)
  qed (simp add: after_def opt_text_def)
  have urun: "foldl (http_parse_host_char strict) (host_start_state (up_userinfo p \<noteq> None)) (before (up_userinfo p) ''@'') = s_http_host_start \<and>
    (uf \<noteq> UF_MAX \<longrightarrow> host_part strict (host_start_state (up_userinfo p \<noteq> None)) (before (up_userinfo p) ''@'') uf =
      (if uf = UF_USERINFO then opt_text (up_userinfo p) else []))" for uf
  proof (cases "up_userinfo p")
    case (Some i)
    then have i: "nonempty_all IS_USERINFO_CHAR i" using wf by (simp add: wf_url_def)
    then have "i \<noteq> []" "\<forall>c \<in> set i. http_parse_host_char strict s_http_userinfo_start c = s_http_userinfo \<and>
        http_parse_host_char strict s_http_userinfo c = s_http_userinfo"
      using userinfo_neq(3) by (auto simp: nonempty_all_def http_parse_host_char_def)
    from host_segment [OF this] show ?thesis
      by (simp add: Some before_def opt_text_def host_part_append host_part_Cons host_delimiters host_start_state_def)
  qed (simp add: before_def opt_text_def host_start_state_def)
  have all: "foldl (http_parse_host_char strict) (host_start_state (up_userinfo p \<noteq> None)) (render_authority p) =
      (if up_port p = None then s_http_host else s_http_host_port)"
    unfolding render_authority_def foldl_append using urun hrun(1) prun by simp
  show "host_end_ok (foldl (http_parse_host_char strict) (host_start_state (up_userinfo p \<noteq> None)) (render_authority p))"
    "foldl (http_parse_host_char strict) (host_start_state (up_userinfo p \<noteq> None)) (render_authority p) \<noteq> s_http_host_dead"
    unfolding all by (simp_all add: host_end_ok_def)
  show "uf \<in> {UF_HOST, UF_PORT, UF_USERINFO} \<Longrightarrow>
       host_part strict (host_start_state (up_userinfo p \<noteq> None)) (render_authority p) uf = rendered_part p uf"
    unfolding render_authority_def host_part_append using urun hrun prun by (auto simp: rendered_part_def)
qed


section \<open>Parsing a rendered URL\<close>

lemma render_components:
  assumes wf: "wf_url strict p"
  shows "foldl (parse_url_char strict) (url_start False) (render_url p) \<noteq> s_dead"
    "url_part strict (url_start False) (render_url p) UF_HOST = render_authority p"
    "uf \<noteq> UF_MAX \<Longrightarrow> component strict False (render_url p) uf = rendered_part p uf"
    "host_accepts strict False (render_url p)"
proof -
  have schema: "nonempty_all IS_SCHEMA_CHAR (up_schema p)" "IS_ALPHA (hd (up_schema p))"
    using wf by (simp_all add: wf_url_def)
  note srun = schema_run [OF schema] and arun = authority_run [OF wf] and trun = tail_run [OF wf]
  have split: "render_url p = (up_schema p @ ''://'') @ render_authority p @ render_tail p"
    by (simp add: render_url_def)
  show "foldl (parse_url_char strict) (url_start False) (render_url p) \<noteq> s_dead"
    unfolding split url_start_def foldl_append [of _ _ _ "_ @ render_tail p"] foldl_append [of _ _ "render_authority p"]
    using srun(1) arun(1) trun(1) by simp
  have part: "url_part strict (url_start False) (render_url p) uf' =
      (if uf' = UF_SCHEMA then up_schema p else []) @ (if uf' = UF_HOST then render_authority p else []) @
      (if uf' \<in> {UF_PATH, UF_QUERY, UF_FRAGMENT} then rendered_part p uf' else [])" for uf'
    unfolding split url_start_def url_part_append [of _ _ _ "_ @ render_tail p"] url_part_append [of _ _ "render_authority p"]
    using srun(1,2) arun(1,2) trun(2) by simp
  show auth: "url_part strict (url_start False) (render_url p) UF_HOST = render_authority p" by (simp add: part)
  have at: "url_has_at strict (url_start False) (render_url p) \<longleftrightarrow> up_userinfo p \<noteq> None"
    unfolding split url_start_def url_has_at_append [of _ _ _ "_ @ render_tail p"] url_has_at_append [of _ _ "render_authority p"]
    using srun(1,3) arun(1,3) trun(3) by simp
  show "host_accepts strict False (render_url p)"
    using host_run(1,2) [OF wf] by (simp add: host_accepts_def auth at Let_def)
  show "component strict False (render_url p) uf = rendered_part p uf" if "uf \<noteq> UF_MAX"
  proof (cases "uf \<in> {UF_HOST, UF_PORT, UF_USERINFO}")
    case True
    then show ?thesis using host_run(3) [OF wf True] by (simp add: component_simps(5) auth at)
  next
    case False
    then show ?thesis using that part [of uf] by (cases uf) (simp_all add: component_simps rendered_part_def)
  qed
qed

lemma parse_render:
  assumes wf: "wf_url strict p" and small: "length (render_url p) < 65536"
  shows "\<exists>u. http_parser_parse_url strict (render_url p) False u0 = Inr (0, u) \<and>
    reports (render_url p) (rendered_part p) u \<and> unat (port u) = decimal 0 (opt_text (up_port p))"
proof -
  note rc = render_components [OF wf]
  have ne: "render_url p \<noteq> []" by (simp add: render_url_def)
  have auth: "render_authority p \<noteq> []" using wf by (auto simp: render_authority_def wf_url_def nonempty_all_def)
  have port: "rendered_part p UF_PORT = opt_text (up_port p)" by (simp add: rendered_part_def)
  have "url_accepts strict False (render_url p)"
    using rc(1,2,4) rc(3) [of UF_PORT] ne auth port wf by (simp add: url_accepts_def wf_url_def)
  moreover have "reports (render_url p) (component strict False (render_url p)) u = reports (render_url p) (rendered_part p) u" for u
    using rc(3) by (intro reports_cong) simp
  ultimately show ?thesis
    using parse_url_refines [OF small, of strict False u0] rc(3) [of UF_PORT] port by simp
qed

section \<open>Strict mode\<close>

lemma IS_URL_CHAR_lenient: "IS_URL_CHAR True c \<Longrightarrow> IS_URL_CHAR False c"
  by (simp add: IS_URL_CHAR_iff)

lemma parse_url_char_lenient:
  assumes "parse_url_char True s c \<noteq> s_dead"
  shows "parse_url_char False s c = parse_url_char True s c"
  using assms IS_URL_CHAR_lenient [of c] class_exclusions(20,21) [of False]
  by (cases s) (auto simp: parse_url_char_def split: if_splits)

lemma http_parse_host_char_lenient:
  assumes "http_parse_host_char True s c \<noteq> s_http_host_dead"
  shows "http_parse_host_char False s c = http_parse_host_char True s c"
  using assms by (cases s) (auto simp: http_parse_host_char_def IS_HOST_CHAR_def split: if_splits)

lemma url_loop_lenient:
  "url_loop True rest p s old fa u = Inr (Some fa', u') \<Longrightarrow> url_loop False rest p s old fa u = Inr (Some fa', u')"
proof (induction rest arbitrary: p s old fa u)
  case (Cons c rest)
  have "parse_url_char True s c \<noteq> s_dead" using Cons.prems by auto
  note same = parse_url_char_lenient [OF this]
  show ?case
  proof (cases "url_action (parse_url_char True s c)")
    case (InField uf)
    then show ?thesis using Cons same by (cases "uf = old") (auto simp: Let_def)
  qed (use Cons same in \<open>auto simp: Let_def\<close>)
qed simp

lemma host_loop_lenient:
  "host_loop True buf n p s u = Inr (Some s', u') \<Longrightarrow> host_loop False buf n p s u = Inr (Some s', u')"
proof (induction True buf n p s u rule: host_loop.induct)
  case (1 buf n p s u)
  let ?t = "http_parse_host_char True s (buf ! p)"
  show ?case
  proof (cases "p < n \<and> p < length buf")
    case True
    then have live: "?t \<noteq> s_http_host_dead" using 1(2) by (subst (asm) host_loop.simps) (auto simp: Let_def)
    have "host_loop True buf n (Suc p) ?t (host_field_step s ?t p u) = Inr (Some s', u')"
      using 1(2) True live by (subst (asm) host_loop.simps) (simp add: Let_def)
    then have "host_loop False buf n (Suc p) ?t (host_field_step s ?t p u) = Inr (Some s', u')"
      using 1(1) True live by simp
    then show ?thesis
      using True live http_parse_host_char_lenient [OF live] by (subst host_loop.simps) (simp add: Let_def)
  next
    case False
    then show ?thesis using 1(2) by (subst host_loop.simps, subst (asm) host_loop.simps) auto
  qed
qed


lemma http_parse_host_lenient:
  "http_parse_host True buf u fa = Inr (0, u') \<Longrightarrow> http_parse_host False buf u fa = Inr (0, u')"
  by (auto simp: http_parse_host_def Let_def dest!: host_loop_lenient split: option.splits if_splits)

lemma parse_url_lenient:
  assumes "http_parser_parse_url True buf is_connect u0 = Inr (0, u)"
  shows "http_parser_parse_url False buf is_connect u0 = Inr (0, u)"
proof -
  have ne: "buf \<noteq> []" using assms by (auto simp: http_parser_parse_url_def)
  obtain r u1 where run: "url_loop True buf 0 (url_start is_connect) UF_MAX False (u0\<lparr>port := 0, field_set := 0\<rparr>) = Inr (r, u1)"
    by (rule parse_url_loop [of True buf is_connect u0]) blast
  note strict = assms [unfolded parse_url_unfold [OF ne run]]
  obtain f where f: "r = Some f" using strict by (cases r) auto
  note lenient = parse_url_unfold [OF ne url_loop_lenient [OF run [unfolded f]]]
  show ?thesis
  proof (cases "has_field u1 UF_HOST")
    case True
    then obtain rh u2 where h: "http_parse_host True buf u1 f = Inr (rh, u2)" using strict f by auto
    then have "rh = 0" using strict f True by (auto split: if_splits)
    then show ?thesis using strict f True h http_parse_host_lenient [of buf u1 f u2] by (simp add: lenient)
  qed (use strict f in \<open>auto simp: lenient split: if_splits\<close>)
qed

section \<open>Offsets beyond sixteen bits\<close>

lemma url_loop_stay:
  assumes "\<forall>c \<in> set cs. parse_url_char strict s c = s" "url_action s = InField uf" "s \<noteq> s_req_server_with_at"
  shows "url_loop strict (cs @ rest) p s uf fa u = url_loop strict rest (p + length cs) s uf fa ((bump_len uf ^^ length cs) u)"
  using assms
proof (induction cs arbitrary: p u)
  case (Cons c cs)
  then show ?case by (simp add: Let_def funpow_swap1)
qed simp

lemma bump_other: "uf' \<noteq> uf \<Longrightarrow> field_data ((bump_len uf ^^ n) u) uf' = field_data u uf'"
  by (induction n) simp_all

lemma has_field_bump: "has_field ((bump_len uf ^^ n) u) uf' = has_field u uf'"
  by (induction n) simp_all

lemma long_path_query:
  fixes n :: nat
  defines "buf \<equiv> ''/'' @ replicate n CHR ''a'' @ ''?q''"
  shows "\<exists>u. http_parser_parse_url strict buf False u0 = Inr (0, u) \<and> has_field u UF_QUERY \<and>
    off (field_data u UF_QUERY) = of_nat (n + 2) \<and> len (field_data u UF_QUERY) = 1"
proof -
  let ?u0 = "u0\<lparr>port := 0, field_set := 0\<rparr>"
  have a: "IS_URL_CHAR strict CHR ''a''" "IS_URL_CHAR strict CHR ''q''"
    by (simp_all add: IS_URL_CHAR_iff byte_index_def)
  have first: "parse_url_char strict s_req_spaces_before_url CHR ''/'' = s_req_path" by (simp add: parse_url_char_def)
  have stay: "\<forall>c \<in> set (replicate n CHR ''a''). parse_url_char strict s_req_path c = s_req_path"
    using path_chars(1) [OF a(1)] by simp
  define v where "v = start_field UF_QUERY (n + 2) ((bump_len UF_PATH ^^ n) (start_field UF_PATH 0 ?u0))"
  have run: "url_loop strict buf 0 (url_start False) UF_MAX False ?u0 = Inr (Some False, v)"
    using url_loop_stay [OF stay, of UF_PATH "''?q''" 1 False "start_field UF_PATH 0 ?u0"] path_chars(2) [OF a(2)]
    by (simp add: buf_def url_start_def first delimiters url_actions Let_def v_def)
  have fields: "has_field v uf \<longleftrightarrow> uf = UF_QUERY \<or> uf = UF_PATH" for uf
    by (simp add: has_field_bump has_field_bit [of ?u0] v_def)
  have "buf \<noteq> []" by (simp add: buf_def)
  from parse_url_unfold [OF this run] have "http_parser_parse_url strict buf False u0 = Inr (0, v)"
    by (simp add: fields convert_port_def)
  moreover have "field_data v UF_QUERY = \<lparr>off = of_nat (n + 2), len = 1\<rparr>"
    by (simp add: v_def start_field_def set_field_def)
  ultimately show ?thesis using fields by simp
qed

section \<open>CONNECT and wrapped offsets\<close>

lemma connect_fields:
  assumes "http_parser_parse_url strict buf True u0 = Inr (0, u)"
  shows "has_field u uf \<longleftrightarrow> uf = UF_HOST \<or> uf = UF_PORT"
proof -
  have ne: "buf \<noteq> []" using assms by (auto simp: http_parser_parse_url_def)
  obtain r u1 where run: "url_loop strict buf 0 (url_start True) UF_MAX False (u0\<lparr>port := 0, field_set := 0\<rparr>) = Inr (r, u1)"
    by (rule parse_url_loop [of strict buf True u0]) blast
  obtain u2 where "field_set u2 = uf_bit UF_HOST OR uf_bit UF_PORT" "convert_port buf u2 = Inr (0, u)"
    using assms unfolding parse_url_unfold [OF ne run] by (auto split: option.splits if_splits)
  then have "field_set u = uf_bit UF_HOST OR uf_bit UF_PORT"
    by (auto simp: convert_port_def Let_def split: if_splits option.splits)
  then show ?thesis by (simp only: has_field_bit bit_or_iff bit_uf_bit uf_number_inj)
qed

lemma long_path_wrap:
  "\<exists>u. http_parser_parse_url strict (''/'' @ replicate 65534 CHR ''a'' @ ''?q'') False u0 = Inr (0, u) \<and>
     has_field u UF_QUERY \<and> field_text (''/'' @ replicate 65534 CHR ''a'' @ ''?q'') u UF_QUERY = ''/''"
proof -
  define n :: nat where "n = 65534"
  obtain u where u: "http_parser_parse_url strict (''/'' @ replicate n CHR ''a'' @ ''?q'') False u0 = Inr (0, u)"
    "has_field u UF_QUERY" "off (field_data u UF_QUERY) = of_nat (n + 2)" "len (field_data u UF_QUERY) = 1"
    using long_path_query [of strict n u0] by blast
  have "(of_nat (n + 2) :: 16 word) = 0" by (simp add: n_def)
  then have "field_text (''/'' @ replicate n CHR ''a'' @ ''?q'') u UF_QUERY = ''/''"
    using u(3,4) by (simp add: field_text_def)
  then show ?thesis using u unfolding n_def by blast
qed

end
