(* ===== verification/Http_Parser.thy ===== *)
theory Http_Parser
  imports Http_Char_Facts
begin

text \<open>
  \<^verbatim>\<open>struct http_parser\<close>, its callbacks, and the functions of \<^verbatim>\<open>http_parser.c\<close> that work on the
  structure alone: initialization, end-of-message and keep-alive decisions, pausing.
  Bit fields keep their width: \<^verbatim>\<open>flags\<close> has eight bits and \<^verbatim>\<open>index\<close> five.
\<close>

unbundle bit_operations_syntax

section \<open>Data\<close>

record http_parser =
  ptype :: http_parser_type
  flags :: uint8
  pstate :: state
  header_state :: header_states
  index :: "5 word"
  uses_transfer_encoding :: bool
  allow_chunked_length :: bool
  lenient_http_headers :: bool
  nread :: uint32
  content_length :: uint64
  http_major :: uint16
  http_minor :: uint16
  status_code :: uint16
  pmethod :: http_method
  http_errno :: http_errno
  upgrade :: bool
  pdata :: nat

text \<open>
  A callback gets the parser and the embedder's own state and returns its result code with
  both; a data callback also gets the bytes between its two pointers.
\<close>

type_synonym 'w http_cb = "http_parser \<Rightarrow> 'w \<Rightarrow> int \<times> http_parser \<times> 'w"
type_synonym 'w http_data_cb = "http_parser \<Rightarrow> string \<Rightarrow> 'w \<Rightarrow> int \<times> http_parser \<times> 'w"

record 'w http_parser_settings =
  on_message_begin :: "'w http_cb option"
  on_url :: "'w http_data_cb option"
  on_status :: "'w http_data_cb option"
  on_header_field :: "'w http_data_cb option"
  on_header_value :: "'w http_data_cb option"
  on_headers_complete :: "'w http_cb option"
  on_body :: "'w http_data_cb option"
  on_message_complete :: "'w http_cb option"
  on_chunk_header :: "'w http_cb option"
  on_chunk_complete :: "'w http_cb option"

definition ULLONG_MAX :: uint64 where
  "ULLONG_MAX = - 1"

definition has_flag :: "http_parser \<Rightarrow> uint8 \<Rightarrow> bool" where
  "has_flag parser f \<longleftrightarrow> flags parser AND f \<noteq> 0"

definition add_flag :: "uint8 \<Rightarrow> http_parser \<Rightarrow> http_parser" where
  "add_flag f parser = parser\<lparr>flags := flags parser OR f\<rparr>"

section \<open>Initialization\<close>

definition http_parser_init :: "http_parser_type \<Rightarrow> nat \<Rightarrow> http_parser" where
  "http_parser_init t data =
     \<lparr>ptype = t, flags = 0,
      pstate = (if t = HTTP_REQUEST then s_start_req
                else if t = HTTP_RESPONSE then s_start_res else s_start_req_or_res),
      header_state = h_general, index = 0, uses_transfer_encoding = False,
      allow_chunked_length = False, lenient_http_headers = False, nread = 0, content_length = 0,
      http_major = 0, http_minor = 0, status_code = 0, pmethod = HTTP_DELETE,
      http_errno = HPE_OK, upgrade = False, pdata = data\<rparr>"

definition http_parser_settings_init :: "'w http_parser_settings" where
  "http_parser_settings_init =
     \<lparr>on_message_begin = None, on_url = None, on_status = None, on_header_field = None,
      on_header_value = None, on_headers_complete = None, on_body = None,
      on_message_complete = None, on_chunk_header = None, on_chunk_complete = None\<rparr>"

section \<open>Message length and connection reuse\<close>

definition http_message_needs_eof :: "http_parser \<Rightarrow> bool" where
  "http_message_needs_eof parser =
     (if ptype parser = HTTP_REQUEST then False
      else if status_code parser div 100 = 1 \<or> status_code parser = 204 \<or> status_code parser = 304 \<or>
              has_flag parser F_SKIPBODY then False
      else if uses_transfer_encoding parser \<and> \<not> has_flag parser F_CHUNKED then True
      else if has_flag parser F_CHUNKED \<or> content_length parser \<noteq> ULLONG_MAX then False
      else True)"

definition http_should_keep_alive :: "http_parser \<Rightarrow> bool" where
  "http_should_keep_alive parser =
     (if 0 < http_major parser \<and> 0 < http_minor parser then
        if has_flag parser F_CONNECTION_CLOSE then False else \<not> http_message_needs_eof parser
      else
        if \<not> has_flag parser F_CONNECTION_KEEP_ALIVE then False else \<not> http_message_needs_eof parser)"

definition start_state :: "http_parser \<Rightarrow> state" where
  "start_state parser = (if ptype parser = HTTP_REQUEST then s_start_req else s_start_res)"

definition NEW_MESSAGE :: "bool \<Rightarrow> http_parser \<Rightarrow> state" where
  "NEW_MESSAGE strict parser =
     (if strict then if http_should_keep_alive parser then start_state parser else s_dead
      else start_state parser)"

section \<open>Pausing\<close>

definition http_parser_pause :: "bool \<Rightarrow> http_parser \<Rightarrow> fault + http_parser" where
  "http_parser_pause paused parser =
     (if http_errno parser = HPE_OK \<or> http_errno parser = HPE_PAUSED then
        Inr (parser\<lparr>nread := nread parser, http_errno := (if paused then HPE_PAUSED else HPE_OK)\<rparr>)
      else Inl (AssertFailed ''Attempting to pause parser in error state''))"

definition http_body_is_final :: "http_parser \<Rightarrow> bool" where
  "http_body_is_final parser \<longleftrightarrow> pstate parser = s_message_done"

text \<open>The global \<^verbatim>\<open>max_header_size\<close> is a value the caller threads; this is its only writer.\<close>

definition http_parser_set_max_header_size :: "uint32 \<Rightarrow> uint32 \<Rightarrow> uint32" where
  "http_parser_set_max_header_size new_size old = new_size"

end
