(* ===== verification/Http_Properties.thy ===== *)
theory Http_Properties
  imports Http_Url_Render Http_Parser
begin

text \<open>
  The properties of the vendored HTTP parser: its URL parser against the reference
  definition, the byte tables against their description, and the helpers on the parser
  structure.
\<close>

section \<open>The URL parser\<close>

text \<open>
  C33. \<^verbatim>\<open>http_parser_parse_url\<close> is memory safe and total: for every buffer, of any length, every
  build mode and every previous content of the result structure, it reads only inside the
  buffer, fails no assertion and returns 0 or 1.
\<close>

theorem parse_url_safe:
  "\<exists>r u. http_parser_parse_url strict buf is_connect u0 = Inr (r, u) \<and> r \<le> 1"
  by (rule parse_url_total)

text \<open>
  C34. For buffers whose length fits in sixteen bits, \<^verbatim>\<open>http_parser_parse_url\<close> refines the
  reference definition: it returns 0 exactly on the URLs the two character automata accept,
  and then a field is reported exactly when the component is present, its offset and length
  lie inside the buffer and select the component, and the port is its decimal value.
\<close>

theorem parse_url_refinement:
  assumes "length buf < 65536"
  shows "\<exists>u. http_parser_parse_url strict buf is_connect u0 = Inr (if url_accepts strict is_connect buf then 0 else 1, u) \<and>
    (url_accepts strict is_connect buf \<longrightarrow>
       reports buf (component strict is_connect buf) u \<and> unat (port u) = decimal 0 (component strict is_connect buf UF_PORT))"
  by (rule parse_url_refines [OF assms])

theorem parse_url_refinement_witness:
  "length ''/a?b'' < 65536 \<and>
   (\<exists>u. http_parser_parse_url True ''/a?b'' False http_parser_url_init = Inr (if url_accepts True False ''/a?b'' then 0 else 1, u) \<and>
      (url_accepts True False ''/a?b'' \<longrightarrow>
         reports ''/a?b'' (component True False ''/a?b'') u \<and>
         unat (port u) = decimal 0 (component True False ''/a?b'' UF_PORT)))"
  using parse_url_refinement [of "''/a?b''" True False http_parser_url_init] by simp

text \<open>
  C35. Round trip: a URL written from well-formed components (schema, optional user
  information, host, optional port, path, optional query and fragment) and parsed again gives
  exactly these components back, with the port as a number.
\<close>

theorem parse_render_roundtrip:
  assumes "wf_url strict p" "length (render_url p) < 65536"
  shows "\<exists>u. http_parser_parse_url strict (render_url p) False u0 = Inr (0, u) \<and>
    reports (render_url p) (rendered_part p) u \<and> unat (port u) = decimal 0 (opt_text (up_port p))"
  by (rule parse_render [OF assms])

definition sample_parts :: url_parts where
  "sample_parts = \<lparr>up_schema = ''http'', up_userinfo = Some ''me'', up_host = ''a.b'', up_port = Some ''80'',
     up_path = ''/x'', up_query = Some ''q=1'', up_fragment = Some ''f''\<rparr>"

lemma sample_wf: "wf_url True sample_parts"
  by (simp add: sample_parts_def wf_url_def nonempty_all_def opt_text_def char_class_iffs)
    (simp add: byte_index_def)

lemma sample_url: "render_url sample_parts = ''http://me@a.b:80/x?q=1#f''"
  by (simp add: sample_parts_def render_url_def render_authority_def render_tail_def before_def after_def)

theorem parse_render_roundtrip_witness:
  "wf_url True sample_parts \<and> length (render_url sample_parts) < 65536 \<and>
   (\<exists>u. http_parser_parse_url True ''http://me@a.b:80/x?q=1#f'' False http_parser_url_init = Inr (0, u) \<and>
      reports ''http://me@a.b:80/x?q=1#f'' (rendered_part sample_parts) u \<and>
      unat (port u) = decimal 0 (opt_text (up_port sample_parts)))"
  using parse_render_roundtrip [OF sample_wf, of http_parser_url_init] sample_wf by (simp add: sample_url)

text \<open>
  C36. A CONNECT target that is accepted reports a host and a port and nothing else.
\<close>

theorem parse_url_connect:
  assumes "http_parser_parse_url strict buf True u0 = Inr (0, u)"
  shows "has_field u uf \<longleftrightarrow> uf = UF_HOST \<or> uf = UF_PORT"
  by (rule connect_fields [OF assms])

lemma sample_connect:
  "\<exists>u. http_parser_parse_url True ''a:1'' True http_parser_url_init = Inr (0, u)"
proof -
  have chars: "IS_USERINFO_CHAR CHR ''a''" "IS_USERINFO_CHAR CHR '':''" "IS_USERINFO_CHAR CHR ''1''"
    "IS_HOST_CHAR True CHR ''a''" "IS_NUM CHR ''1''"
    by (simp_all add: char_class_iffs) (simp_all add: byte_index_def)
  then have "nonempty_all IS_USERINFO_CHAR ''a:1''" by (simp add: nonempty_all_def)
  note walk = server_run [OF this, of s_req_server_start True]
  have host: "http_parse_host_char True s_http_host_start CHR ''a'' = s_http_host"
    "http_parse_host_char True s_http_host_port_start CHR ''1'' = s_http_host_port"
    using chars by (simp_all add: http_parse_host_char_def)
  have hp: "host_part True s_http_host_start ''a:1'' uf = (if uf = UF_HOST then ''a'' else if uf = UF_PORT then ''1'' else [])" if "uf \<noteq> UF_MAX" for uf
    using that by (simp add: host_part_Cons host host_delimiters)
  have parts: "component True True ''a:1'' uf = (if uf = UF_HOST then ''a'' else if uf = UF_PORT then ''1'' else [])" if "uf \<noteq> UF_MAX" for uf
    using that walk hp by (simp add: component_def Let_def url_start_def host_start_state_def)
  have "url_accepts True True ''a:1''"
    unfolding url_accepts_def using parts walk
    by (simp add: url_start_def host_accepts_def Let_def host_start_state_def host host_delimiters host_end_ok_def) (simp add: byte_index_def)
  then show ?thesis using parse_url_refines [of "''a:1''" True True http_parser_url_init] by auto
qed

theorem parse_url_connect_witness:
  "\<exists>u. http_parser_parse_url True ''a:1'' True http_parser_url_init = Inr (0, u) \<and>
     has_field u UF_HOST \<and> has_field u UF_PORT \<and> \<not> has_field u UF_PATH"
  using sample_connect parse_url_connect [of True "''a:1''" http_parser_url_init] by auto

text \<open>
  C37. Strict mode only rejects: a URL accepted by a strict build is accepted by a lenient
  build with the same result structure.
\<close>

theorem parse_url_strict_lenient:
  assumes "http_parser_parse_url True buf is_connect u0 = Inr (0, u)"
  shows "http_parser_parse_url False buf is_connect u0 = Inr (0, u)"
  by (rule parse_url_lenient [OF assms])

theorem parse_url_strict_lenient_witness:
  "\<exists>u. http_parser_parse_url True ''a:1'' True http_parser_url_init = Inr (0, u) \<and>
     http_parser_parse_url False ''a:1'' True http_parser_url_init = Inr (0, u)"
  using sample_connect parse_url_strict_lenient by blast

text \<open>
  C38. Offsets are sixteen bits wide and nothing checks the buffer length: for a path of
  65535 bytes followed by a query, the function succeeds and reports the query at offset 0,
  where the buffer holds the slash.
\<close>

theorem parse_url_offset_wraps:
  "\<exists>u. http_parser_parse_url strict (''/'' @ replicate 65534 CHR ''a'' @ ''?q'') False u0 = Inr (0, u) \<and>
     has_field u UF_QUERY \<and> field_text (''/'' @ replicate 65534 CHR ''a'' @ ''?q'') u UF_QUERY = ''/''"
  by (rule long_path_wrap)

section \<open>The byte tables\<close>

text \<open>
  C39. The \<^verbatim>\<open>tokens\<close> table holds the printable ASCII bytes without the separators of RFC 2616,
  lowercased, and 0 for everything else, but for one separator: it keeps the space, which the
  comment in front of it excludes.  \<^verbatim>\<open>STRICT_TOKEN\<close> takes the space out, so it accepts exactly the
  tokens; \<^verbatim>\<open>TOKEN\<close> does so in a strict build only, and in the other build a header name may
  contain spaces.
\<close>

theorem token_tables:
  "byte_index (tokens ! byte_index c) =
     (if c = CHR '' '' then 32
      else if 31 < byte_index c \<and> byte_index c < 127 \<and> byte_index c \<notin> set separators
      then if IS_ALPHA c then byte_index (LOWER c) else byte_index c else 0) \<and>
   byte_index (STRICT_TOKEN c) =
     (if 31 < byte_index c \<and> byte_index c < 127 \<and> byte_index c \<notin> set separators
      then if IS_ALPHA c then byte_index (LOWER c) else byte_index c else 0) \<and>
   (TOKEN strict c = NUL \<longleftrightarrow>
      \<not> (31 < byte_index c \<and> byte_index c < 127 \<and> byte_index c \<notin> set separators) \<and> (strict \<or> c \<noteq> CHR '' ''))"
  by (intro conjI tokens_code STRICT_TOKEN_code TOKEN_NUL)

theorem token_tables_witness:
  "byte_index (tokens ! byte_index CHR '' '') = 32 \<and> TOKEN True CHR '' '' = NUL \<and> TOKEN False CHR '' '' \<noteq> NUL \<and>
   byte_index (STRICT_TOKEN CHR ''A'') = 97"
proof -
  have "IS_ALPHA CHR ''A''" "byte_index (LOWER CHR ''A'') = 97" "byte_index CHR ''A'' = 65" "65 \<notin> set separators" "32 \<in> set separators" by code_simp+
  then show ?thesis using token_tables [of "CHR '' ''" True] token_tables [of "CHR '' ''" False] token_tables [of "CHR ''A''"] space_code by simp
qed

text \<open>
  C40. The \<^verbatim>\<open>unhex\<close> table gives a hexadecimal digit its value and every other byte below 128
  the value -1; the bytes from 128 on, which the initializer leaves out, read as the digit 0.
\<close>

theorem unhex_table:
  "unhex ! byte_index c =
     (if IS_HEX c then int (hex_value c) else if byte_index c < 128 then - 1 else 0)"
  by (rule unhex_value)

end
