(* ===== verification/Http_Run.thy ===== *)
theory Http_Run
  imports Http_Url Http_Parser
begin

text \<open>
  The local variables of \<^verbatim>\<open>http_parser_execute\<close> and the macros its body is written with.
  A statement of the body takes the variables and ends in an \<open>outcome\<close>: it falls through
  or breaks out of the switch (\<open>Next\<close>), jumps to \<^verbatim>\<open>reexecute\<close> or \<^verbatim>\<open>error\<close>, returns from
  the function, or has undefined behaviour.  Pointers into the buffer are offsets from
  \<^verbatim>\<open>data\<close>.
\<close>

section \<open>Variables\<close>

datatype mark = header_field_mark | header_value_mark | url_mark | body_mark | status_mark

record 'w run =
  rparser :: http_parser
  rworld :: 'w
  p_state :: state
  rnread :: uint32
  rp :: nat
  rch :: char
  marks :: "mark \<Rightarrow> nat option"

text \<open>What does not change during a call: the arguments, the globals and the two constants
  read from the parser at the start.\<close>

record 'w env =
  estrict :: bool
  max_header_size :: uint32
  settings :: "'w http_parser_settings"
  edata :: string
  lenient :: bool
  allow_length :: bool

datatype 'w outcome =
    Next "'w run"
  | Reexecute "'w run"
  | GotoError "'w run"
  | Returned nat http_parser 'w
  | Faulted fault

definition andthen :: "'w outcome \<Rightarrow> ('w run \<Rightarrow> 'w outcome) \<Rightarrow> 'w outcome" where
  "andthen x k = (case x of Next r \<Rightarrow> k r | _ \<Rightarrow> x)"

lemma andthen_simps [simp]:
  "andthen (Next r) k = k r"
  "andthen (Reexecute r) k = Reexecute r"
  "andthen (GotoError r) k = GotoError r"
  "andthen (Returned n q w) k = Returned n q w"
  "andthen (Faulted f) k = Faulted f"
  by (simp_all add: andthen_def)

section \<open>Macros\<close>

definition on_parser :: "(http_parser \<Rightarrow> http_parser) \<Rightarrow> 'w run \<Rightarrow> 'w run" where
  "on_parser f r = r\<lparr>rparser := f (rparser r)\<rparr>"

definition UPDATE_STATE :: "state \<Rightarrow> 'w run \<Rightarrow> 'w run" where
  "UPDATE_STATE s r = r\<lparr>p_state := s\<rparr>"

definition SET_ERRNO :: "http_errno \<Rightarrow> 'w run \<Rightarrow> 'w run" where
  "SET_ERRNO err r = on_parser (\<lambda>q. q\<lparr>nread := rnread r, http_errno := err\<rparr>) r"

definition set_errno_and_goto_error :: "http_errno \<Rightarrow> 'w run \<Rightarrow> 'w outcome" where
  "set_errno_and_goto_error err r = GotoError (SET_ERRNO err r)"

definition RETURN :: "nat \<Rightarrow> 'w run \<Rightarrow> 'w outcome" where
  "RETURN v r = Returned v ((rparser r)\<lparr>nread := rnread r, pstate := p_state r\<rparr>) (rworld r)"

definition assert_that :: "string \<Rightarrow> bool \<Rightarrow> 'w run \<Rightarrow> 'w outcome" where
  "assert_that msg b r = (if b then Next r else Faulted (AssertFailed msg))"

definition STRICT_CHECK :: "'w env \<Rightarrow> bool \<Rightarrow> 'w run \<Rightarrow> 'w outcome" where
  "STRICT_CHECK e cond r =
     (if estrict e \<and> cond then set_errno_and_goto_error HPE_STRICT r else Next r)"

definition COUNT_HEADER_SIZE :: "'w env \<Rightarrow> nat \<Rightarrow> 'w run \<Rightarrow> 'w outcome" where
  "COUNT_HEADER_SIZE e v r =
     (let r1 = r\<lparr>rnread := rnread r + of_nat v\<rparr> in
      if max_header_size e < rnread r1 then set_errno_and_goto_error HPE_HEADER_OVERFLOW r1
      else Next r1)"

definition MARK :: "mark \<Rightarrow> 'w run \<Rightarrow> 'w run" where
  "MARK k r = (if marks r k = None then r\<lparr>marks := (marks r)(k := Some (rp r))\<rparr> else r)"

text \<open>
  After a callback: its nonzero result sets the error, \<^verbatim>\<open>p_state\<close> is read back from the
  parser, and an error or a pause leaves the function at once, without the stores of
  \<^verbatim>\<open>RETURN\<close>.
\<close>

definition after_callback ::
    "http_errno \<Rightarrow> nat \<Rightarrow> 'w run \<Rightarrow> int \<times> http_parser \<times> 'w \<Rightarrow> 'w outcome" where
  "after_callback err er r res =
     (case res of (rc, q, w) \<Rightarrow>
        let r1 = r\<lparr>rparser := q, rworld := w\<rparr>;
            r2 = (if rc \<noteq> 0 then SET_ERRNO err r1 else r1);
            r3 = UPDATE_STATE (pstate (rparser r2)) r2
        in if http_errno (rparser r3) \<noteq> HPE_OK then Returned er (rparser r3) (rworld r3)
           else Next r3)"

definition CALLBACK_NOTIFY_ER ::
    "'w http_cb option \<Rightarrow> http_errno \<Rightarrow> nat \<Rightarrow> 'w run \<Rightarrow> 'w outcome" where
  "CALLBACK_NOTIFY_ER cb err er r =
     andthen (assert_that ''HTTP_PARSER_ERRNO(parser) == HPE_OK'' (http_errno (rparser r) = HPE_OK) r) (\<lambda>r.
       case cb of
         None \<Rightarrow> Next r
       | Some f \<Rightarrow> after_callback err er r (f ((rparser r)\<lparr>pstate := p_state r\<rparr>) (rworld r)))"

definition CALLBACK_NOTIFY :: "'w http_cb option \<Rightarrow> http_errno \<Rightarrow> 'w run \<Rightarrow> 'w outcome" where
  "CALLBACK_NOTIFY cb err r = CALLBACK_NOTIFY_ER cb err (rp r + 1) r"

definition CALLBACK_NOTIFY_NOADVANCE :: "'w http_cb option \<Rightarrow> http_errno \<Rightarrow> 'w run \<Rightarrow> 'w outcome" where
  "CALLBACK_NOTIFY_NOADVANCE cb err r = CALLBACK_NOTIFY_ER cb err (rp r) r"

definition data_cb :: "'w http_parser_settings \<Rightarrow> mark \<Rightarrow> 'w http_data_cb option" where
  "data_cb s k =
     (case k of header_field_mark \<Rightarrow> on_header_field s | header_value_mark \<Rightarrow> on_header_value s
      | url_mark \<Rightarrow> on_url s | body_mark \<Rightarrow> on_body s | status_mark \<Rightarrow> on_status s)"

definition data_errno :: "mark \<Rightarrow> http_errno" where
  "data_errno k =
     (case k of header_field_mark \<Rightarrow> HPE_CB_header_field | header_value_mark \<Rightarrow> HPE_CB_header_value
      | url_mark \<Rightarrow> HPE_CB_url | body_mark \<Rightarrow> HPE_CB_body | status_mark \<Rightarrow> HPE_CB_status)"

text \<open>
  A data callback gets the bytes from its mark up to \<open>endp\<close>; a range that does not lie in
  the buffer is a fault.
\<close>

definition CALLBACK_DATA_ER :: "'w env \<Rightarrow> mark \<Rightarrow> nat \<Rightarrow> nat \<Rightarrow> 'w run \<Rightarrow> 'w outcome" where
  "CALLBACK_DATA_ER e k endp er r =
     andthen (assert_that ''HTTP_PARSER_ERRNO(parser) == HPE_OK'' (http_errno (rparser r) = HPE_OK) r) (\<lambda>r.
       case marks r k of
         None \<Rightarrow> Next r
       | Some m \<Rightarrow>
           andthen
             (case data_cb (settings e) k of
                None \<Rightarrow> Next r
              | Some f \<Rightarrow>
                  if m \<le> endp \<and> endp \<le> length (edata e) then
                    after_callback (data_errno k) er r
                      (f ((rparser r)\<lparr>pstate := p_state r\<rparr>) (take (endp - m) (drop m (edata e))) (rworld r))
                  else Faulted OutOfBounds)
             (\<lambda>r. Next (r\<lparr>marks := (marks r)(k := None)\<rparr>)))"

definition CALLBACK_DATA :: "'w env \<Rightarrow> mark \<Rightarrow> 'w run \<Rightarrow> 'w outcome" where
  "CALLBACK_DATA e k r = CALLBACK_DATA_ER e k (rp r) (rp r + 1) r"

definition CALLBACK_DATA_NOADVANCE :: "'w env \<Rightarrow> mark \<Rightarrow> 'w run \<Rightarrow> 'w outcome" where
  "CALLBACK_DATA_NOADVANCE e k r = CALLBACK_DATA_ER e k (rp r) (rp r) r"

section \<open>Strings and digits\<close>

text \<open>Element \<open>i\<close> of a C string, whose last element is the terminating zero.\<close>

definition cstr_at :: "string \<Rightarrow> nat \<Rightarrow> fault + char" where
  "cstr_at s i = (if i < length s then Inr (s ! i) else if i = length s then Inr NUL else Inl OutOfBounds)"

definition PROXY_CONNECTION :: string where "PROXY_CONNECTION = ''proxy-connection''"
definition CONNECTION :: string where "CONNECTION = ''connection''"
definition CONTENT_LENGTH :: string where "CONTENT_LENGTH = ''content-length''"
definition TRANSFER_ENCODING :: string where "TRANSFER_ENCODING = ''transfer-encoding''"
definition UPGRADE :: string where "UPGRADE = ''upgrade''"
definition CHUNKED :: string where "CHUNKED = ''chunked''"
definition KEEP_ALIVE :: string where "KEEP_ALIVE = ''keep-alive''"
definition CLOSE :: string where "CLOSE = ''close''"

text \<open>
  Comparing byte \<open>c\<close> with position \<open>i\<close> of a name: \<^verbatim>\<open>sizeof(NAME)-1\<close> is the length of the
  name, where its terminating zero stands, and \<^verbatim>\<open>sizeof(NAME)-2\<close> its last byte.
\<close>

datatype name_match = Mismatch | Partial | Complete

definition match_name :: "string \<Rightarrow> nat \<Rightarrow> char \<Rightarrow> name_match" where
  "match_name name i c =
     (if length name < i \<or> cstr_at name i \<noteq> Inr c then Mismatch
      else if i = length name - 1 then Complete
      else Partial)"

text \<open>The value \<^verbatim>\<open>ch - '0'\<close> of a byte that passed \<^verbatim>\<open>IS_NUM\<close>, at the width of its target.\<close>

definition digit :: "char \<Rightarrow> 'a::len word" where
  "digit ch = of_nat (byte_index ch - 48)"

end
