(* ===== verification/Http_Start_Line.thy ===== *)
theory Http_Start_Line
  imports Http_Run
begin

text \<open>
  The states of \<^verbatim>\<open>http_parser_execute\<close> that read the start of a message, the status line and
  the request line: one definition per state or group of states of its switch, in source order.
\<close>

section \<open>Start of a message\<close>

definition do_dead :: "'w run \<Rightarrow> 'w outcome" where
  "do_dead r =
     (if rch r = CR \<or> rch r = LF then Next r else set_errno_and_goto_error HPE_CLOSED_CONNECTION r)"

definition clear_message :: "http_parser \<Rightarrow> http_parser" where
  "clear_message q = q\<lparr>flags := 0, uses_transfer_encoding := False, content_length := ULLONG_MAX\<rparr>"

definition do_start_req_or_res :: "'w env \<Rightarrow> 'w run \<Rightarrow> 'w outcome" where
  "do_start_req_or_res e r =
     (if rch r = CR \<or> rch r = LF then Next r
      else
        let r1 = on_parser clear_message r in
        if rch r = CHR ''H'' then
          CALLBACK_NOTIFY (on_message_begin (settings e)) HPE_CB_message_begin (UPDATE_STATE s_res_or_resp_H r1)
        else Reexecute (UPDATE_STATE s_start_req (on_parser (\<lambda>q. q\<lparr>ptype := HTTP_REQUEST\<rparr>) r1)))"

definition do_res_or_resp_H :: "'w run \<Rightarrow> 'w outcome" where
  "do_res_or_resp_H r =
     (if rch r = CHR ''T'' then
        Next (UPDATE_STATE s_res_HT (on_parser (\<lambda>q. q\<lparr>ptype := HTTP_RESPONSE\<rparr>) r))
      else if rch r \<noteq> CHR ''E'' then set_errno_and_goto_error HPE_INVALID_CONSTANT r
      else
        Next (UPDATE_STATE s_req_method
                (on_parser (\<lambda>q. q\<lparr>ptype := HTTP_REQUEST, pmethod := HTTP_HEAD, index := 2\<rparr>) r)))"

section \<open>Status line\<close>

definition do_start_res :: "'w env \<Rightarrow> 'w run \<Rightarrow> 'w outcome" where
  "do_start_res e r =
     (if rch r = CR \<or> rch r = LF then Next r
      else
        let r1 = on_parser clear_message r in
        if rch r = CHR ''H'' then
          CALLBACK_NOTIFY (on_message_begin (settings e)) HPE_CB_message_begin (UPDATE_STATE s_res_H r1)
        else set_errno_and_goto_error HPE_INVALID_CONSTANT r1)"

text \<open>The states that expect one fixed byte under \<^verbatim>\<open>STRICT_CHECK\<close> and go on.\<close>

definition expect :: "'w env \<Rightarrow> char \<Rightarrow> state \<Rightarrow> 'w run \<Rightarrow> 'w outcome" where
  "expect e c s r = andthen (STRICT_CHECK e (rch r \<noteq> c) r) (\<lambda>r. Next (UPDATE_STATE s r))"

definition do_res_H :: "'w env \<Rightarrow> 'w run \<Rightarrow> 'w outcome" where
  "do_res_H e r = expect e CHR ''T'' s_res_HT r"

definition do_res_HT :: "'w env \<Rightarrow> 'w run \<Rightarrow> 'w outcome" where
  "do_res_HT e r = expect e CHR ''T'' s_res_HTT r"

definition do_res_HTT :: "'w env \<Rightarrow> 'w run \<Rightarrow> 'w outcome" where
  "do_res_HTT e r = expect e CHR ''P'' s_res_HTTP r"

definition do_res_HTTP :: "'w env \<Rightarrow> 'w run \<Rightarrow> 'w outcome" where
  "do_res_HTTP e r = expect e CHR ''/'' s_res_http_major r"

definition do_res_http_major :: "'w run \<Rightarrow> 'w outcome" where
  "do_res_http_major r =
     (if \<not> IS_NUM (rch r) then set_errno_and_goto_error HPE_INVALID_VERSION r
      else Next (UPDATE_STATE s_res_http_dot (on_parser (\<lambda>q. q\<lparr>http_major := digit (rch r)\<rparr>) r)))"

definition do_res_http_dot :: "'w run \<Rightarrow> 'w outcome" where
  "do_res_http_dot r =
     (if rch r \<noteq> CHR ''.'' then set_errno_and_goto_error HPE_INVALID_VERSION r
      else Next (UPDATE_STATE s_res_http_minor r))"

definition do_res_http_minor :: "'w run \<Rightarrow> 'w outcome" where
  "do_res_http_minor r =
     (if \<not> IS_NUM (rch r) then set_errno_and_goto_error HPE_INVALID_VERSION r
      else Next (UPDATE_STATE s_res_http_end (on_parser (\<lambda>q. q\<lparr>http_minor := digit (rch r)\<rparr>) r)))"

definition do_res_http_end :: "'w run \<Rightarrow> 'w outcome" where
  "do_res_http_end r =
     (if rch r \<noteq> CHR '' '' then set_errno_and_goto_error HPE_INVALID_VERSION r
      else Next (UPDATE_STATE s_res_first_status_code r))"

definition do_res_first_status_code :: "'w run \<Rightarrow> 'w outcome" where
  "do_res_first_status_code r =
     (if \<not> IS_NUM (rch r) then
        if rch r = CHR '' '' then Next r else set_errno_and_goto_error HPE_INVALID_STATUS r
      else Next (UPDATE_STATE s_res_status_code (on_parser (\<lambda>q. q\<lparr>status_code := digit (rch r)\<rparr>) r)))"

definition do_res_status_code :: "'w run \<Rightarrow> 'w outcome" where
  "do_res_status_code r =
     (if \<not> IS_NUM (rch r) then
        if rch r = CHR '' '' then Next (UPDATE_STATE s_res_status_start r)
        else if rch r = CR \<or> rch r = LF then Reexecute (UPDATE_STATE s_res_status_start r)
        else set_errno_and_goto_error HPE_INVALID_STATUS r
      else
        let r1 = on_parser (\<lambda>q. q\<lparr>status_code := status_code q * 10\<rparr>) r;
            r2 = on_parser (\<lambda>q. q\<lparr>status_code := status_code q + digit (rch r)\<rparr>) r1
        in if 999 < status_code (rparser r2) then set_errno_and_goto_error HPE_INVALID_STATUS r2
           else Next r2)"

definition do_res_status_start :: "'w run \<Rightarrow> 'w outcome" where
  "do_res_status_start r =
     (let r1 = on_parser (\<lambda>q. q\<lparr>index := 0\<rparr>) (UPDATE_STATE s_res_status (MARK status_mark r)) in
      if rch r = CR \<or> rch r = LF then Reexecute r1 else Next r1)"

definition do_res_status :: "'w env \<Rightarrow> 'w run \<Rightarrow> 'w outcome" where
  "do_res_status e r =
     (if rch r = CR then CALLBACK_DATA e status_mark (UPDATE_STATE s_res_line_almost_done r)
      else if rch r = LF then CALLBACK_DATA e status_mark (UPDATE_STATE s_header_field_start r)
      else Next r)"

definition do_res_line_almost_done :: "'w env \<Rightarrow> 'w run \<Rightarrow> 'w outcome" where
  "do_res_line_almost_done e r = expect e LF s_header_field_start r"

section \<open>Request line\<close>

definition first_method :: "char \<Rightarrow> http_method option" where
  "first_method ch =
     map_of
       [(CHR ''A'', HTTP_ACL), (CHR ''B'', HTTP_BIND), (CHR ''C'', HTTP_CONNECT), (CHR ''D'', HTTP_DELETE),
        (CHR ''G'', HTTP_GET), (CHR ''H'', HTTP_HEAD), (CHR ''L'', HTTP_LOCK), (CHR ''M'', HTTP_MKCOL),
        (CHR ''N'', HTTP_NOTIFY), (CHR ''O'', HTTP_OPTIONS), (CHR ''P'', HTTP_POST), (CHR ''R'', HTTP_REPORT),
        (CHR ''S'', HTTP_SUBSCRIBE), (CHR ''T'', HTTP_TRACE), (CHR ''U'', HTTP_UNLOCK)] ch"

definition do_start_req :: "'w env \<Rightarrow> 'w run \<Rightarrow> 'w outcome" where
  "do_start_req e r =
     (if rch r = CR \<or> rch r = LF then Next r
      else
        let r1 = on_parser clear_message r in
        if \<not> IS_ALPHA (rch r) then set_errno_and_goto_error HPE_INVALID_METHOD r1
        else
          let r2 = on_parser (\<lambda>q. q\<lparr>pmethod := HTTP_DELETE, index := 1\<rparr>) r1 in
          case first_method (rch r) of
            None \<Rightarrow> set_errno_and_goto_error HPE_INVALID_METHOD r2
          | Some m \<Rightarrow>
              CALLBACK_NOTIFY (on_message_begin (settings e)) HPE_CB_message_begin
                (UPDATE_STATE s_req_method (on_parser (\<lambda>q. q\<lparr>pmethod := m\<rparr>) r2)))"

text \<open>
  The cases \<^verbatim>\<open>XX(meth, pos, ch, new_meth)\<close>; the three parts of the packed switch value
  occupy disjoint bits, so it identifies the method, the position and the byte.
\<close>

definition method_switch :: "((http_method \<times> nat \<times> char) \<times> http_method) list" where
  "method_switch =
     [((HTTP_POST, 1, CHR ''U''), HTTP_PUT), ((HTTP_POST, 1, CHR ''A''), HTTP_PATCH),
      ((HTTP_POST, 1, CHR ''R''), HTTP_PROPFIND), ((HTTP_PUT, 2, CHR ''R''), HTTP_PURGE),
      ((HTTP_CONNECT, 1, CHR ''H''), HTTP_CHECKOUT), ((HTTP_CONNECT, 2, CHR ''P''), HTTP_COPY),
      ((HTTP_MKCOL, 1, CHR ''O''), HTTP_MOVE), ((HTTP_MKCOL, 1, CHR ''E''), HTTP_MERGE),
      ((HTTP_MKCOL, 1, CHR ''-''), HTTP_MSEARCH), ((HTTP_MKCOL, 2, CHR ''A''), HTTP_MKACTIVITY),
      ((HTTP_MKCOL, 3, CHR ''A''), HTTP_MKCALENDAR), ((HTTP_SUBSCRIBE, 1, CHR ''E''), HTTP_SEARCH),
      ((HTTP_SUBSCRIBE, 1, CHR ''O''), HTTP_SOURCE), ((HTTP_REPORT, 2, CHR ''B''), HTTP_REBIND),
      ((HTTP_PROPFIND, 4, CHR ''P''), HTTP_PROPPATCH), ((HTTP_LOCK, 1, CHR ''I''), HTTP_LINK),
      ((HTTP_UNLOCK, 2, CHR ''S''), HTTP_UNSUBSCRIBE), ((HTTP_UNLOCK, 2, CHR ''B''), HTTP_UNBIND),
      ((HTTP_UNLOCK, 3, CHR ''I''), HTTP_UNLINK)]"

definition method_string :: "http_method \<Rightarrow> string" where
  "method_string m = method_strings ! method_number m"

definition is_method_char :: "char \<Rightarrow> bool" where
  "is_method_char ch \<longleftrightarrow> (byte CHR ''A'' \<le> byte ch \<and> byte ch \<le> byte CHR ''Z'') \<or> ch = CHR ''-''"

definition next_index :: "http_parser \<Rightarrow> http_parser" where
  "next_index q = q\<lparr>index := index q + 1\<rparr>"

definition do_req_method :: "'w run \<Rightarrow> 'w outcome" where
  "do_req_method r =
     (let q = rparser r in
      if rch r = NUL then set_errno_and_goto_error HPE_INVALID_METHOD r
      else
        case cstr_at (method_string (pmethod q)) (unat (index q)) of
          Inl f \<Rightarrow> Faulted f
        | Inr m \<Rightarrow>
            if rch r = CHR '' '' \<and> m = NUL then
              Next (on_parser next_index (UPDATE_STATE s_req_spaces_before_url r))
            else if rch r = m then Next (on_parser next_index r)
            else if is_method_char (rch r) then
              case map_of method_switch (pmethod q, unat (index q), rch r) of
                None \<Rightarrow> set_errno_and_goto_error HPE_INVALID_METHOD r
              | Some new \<Rightarrow> Next (on_parser next_index (on_parser (\<lambda>q. q\<lparr>pmethod := new\<rparr>) r))
            else set_errno_and_goto_error HPE_INVALID_METHOD r)"

definition url_step :: "'w env \<Rightarrow> 'w run \<Rightarrow> 'w outcome" where
  "url_step e r =
     (let r1 = UPDATE_STATE (parse_url_char (estrict e) (p_state r) (rch r)) r in
      if p_state r1 = s_dead then set_errno_and_goto_error HPE_INVALID_URL r1 else Next r1)"

definition do_req_spaces_before_url :: "'w env \<Rightarrow> 'w run \<Rightarrow> 'w outcome" where
  "do_req_spaces_before_url e r =
     (if rch r = CHR '' '' then Next r
      else
        let r1 = MARK url_mark r;
            r2 = (if pmethod (rparser r1) = HTTP_CONNECT then UPDATE_STATE s_req_server_start r1 else r1)
        in url_step e r2)"

definition do_req_schema :: "'w env \<Rightarrow> 'w run \<Rightarrow> 'w outcome" where
  "do_req_schema e r =
     (if rch r = CHR '' '' \<or> rch r = CR \<or> rch r = LF then set_errno_and_goto_error HPE_INVALID_URL r
      else url_step e r)"

definition do_req_url :: "'w env \<Rightarrow> 'w run \<Rightarrow> 'w outcome" where
  "do_req_url e r =
     (if rch r = CHR '' '' then CALLBACK_DATA e url_mark (UPDATE_STATE s_req_http_start r)
      else if rch r = CR \<or> rch r = LF then
        CALLBACK_DATA e url_mark
          (UPDATE_STATE (if rch r = CR then s_req_line_almost_done else s_header_field_start)
             (on_parser (\<lambda>q. q\<lparr>http_major := 0, http_minor := 9\<rparr>) r))
      else url_step e r)"

definition do_req_http_start :: "'w run \<Rightarrow> 'w outcome" where
  "do_req_http_start r =
     (if rch r = CHR '' '' then Next r
      else if rch r = CHR ''H'' then Next (UPDATE_STATE s_req_http_H r)
      else if rch r = CHR ''I'' \<and> pmethod (rparser r) = HTTP_SOURCE then Next (UPDATE_STATE s_req_http_I r)
      else set_errno_and_goto_error HPE_INVALID_CONSTANT r)"

definition do_req_http_H :: "'w env \<Rightarrow> 'w run \<Rightarrow> 'w outcome" where
  "do_req_http_H e r = expect e CHR ''T'' s_req_http_HT r"

definition do_req_http_HT :: "'w env \<Rightarrow> 'w run \<Rightarrow> 'w outcome" where
  "do_req_http_HT e r = expect e CHR ''T'' s_req_http_HTT r"

definition do_req_http_HTT :: "'w env \<Rightarrow> 'w run \<Rightarrow> 'w outcome" where
  "do_req_http_HTT e r = expect e CHR ''P'' s_req_http_HTTP r"

definition do_req_http_I :: "'w env \<Rightarrow> 'w run \<Rightarrow> 'w outcome" where
  "do_req_http_I e r = expect e CHR ''C'' s_req_http_IC r"

definition do_req_http_IC :: "'w env \<Rightarrow> 'w run \<Rightarrow> 'w outcome" where
  "do_req_http_IC e r = expect e CHR ''E'' s_req_http_HTTP r"

definition do_req_http_HTTP :: "'w env \<Rightarrow> 'w run \<Rightarrow> 'w outcome" where
  "do_req_http_HTTP e r = expect e CHR ''/'' s_req_http_major r"

definition do_req_http_major :: "'w run \<Rightarrow> 'w outcome" where
  "do_req_http_major r =
     (if \<not> IS_NUM (rch r) then set_errno_and_goto_error HPE_INVALID_VERSION r
      else Next (UPDATE_STATE s_req_http_dot (on_parser (\<lambda>q. q\<lparr>http_major := digit (rch r)\<rparr>) r)))"

definition do_req_http_dot :: "'w run \<Rightarrow> 'w outcome" where
  "do_req_http_dot r =
     (if rch r \<noteq> CHR ''.'' then set_errno_and_goto_error HPE_INVALID_VERSION r
      else Next (UPDATE_STATE s_req_http_minor r))"

definition do_req_http_minor :: "'w run \<Rightarrow> 'w outcome" where
  "do_req_http_minor r =
     (if \<not> IS_NUM (rch r) then set_errno_and_goto_error HPE_INVALID_VERSION r
      else Next (UPDATE_STATE s_req_http_end (on_parser (\<lambda>q. q\<lparr>http_minor := digit (rch r)\<rparr>) r)))"

definition do_req_http_end :: "'w run \<Rightarrow> 'w outcome" where
  "do_req_http_end r =
     (if rch r = CR then Next (UPDATE_STATE s_req_line_almost_done r)
      else if rch r = LF then Next (UPDATE_STATE s_header_field_start r)
      else set_errno_and_goto_error HPE_INVALID_VERSION r)"

definition do_req_line_almost_done :: "'w run \<Rightarrow> 'w outcome" where
  "do_req_line_almost_done r =
     (if rch r \<noteq> LF then set_errno_and_goto_error HPE_LF_EXPECTED r
      else Next (UPDATE_STATE s_header_field_start r))"

end
