(* ===== verification/Http_Headers.thy ===== *)
theory Http_Headers
  imports Http_Start_Line
begin

text \<open>
  The states of \<^verbatim>\<open>http_parser_execute\<close> that read header fields: the field name and its
  loop, the value and its loop, line folding, and the end of a header line.
\<close>

section \<open>Field names\<close>

definition field_start_state :: "char \<Rightarrow> header_states" where
  "field_start_state c =
     (if c = CHR ''c'' then h_C
      else if c = CHR ''p'' then h_matching_proxy_connection
      else if c = CHR ''t'' then h_matching_transfer_encoding
      else if c = CHR ''u'' then h_matching_upgrade
      else h_general)"

definition do_header_field_start :: "'w env \<Rightarrow> 'w run \<Rightarrow> 'w outcome" where
  "do_header_field_start e r =
     (if rch r = CR then Next (UPDATE_STATE s_headers_almost_done r)
      else if rch r = LF then Reexecute (UPDATE_STATE s_headers_almost_done r)
      else
        let c = TOKEN (estrict e) (rch r) in
        if c = NUL then set_errno_and_goto_error HPE_INVALID_HEADER_TOKEN r
        else
          let r1 = MARK header_field_mark r;
              r2 = on_parser (\<lambda>q. q\<lparr>index := 0\<rparr>) r1;
              r3 = UPDATE_STATE s_header_field r2
          in Next (on_parser (\<lambda>q. q\<lparr>header_state := field_start_state c\<rparr>) r3))"

text \<open>The steps of the matchers: advance the index, compare, and move on or give up.\<close>

definition match_field :: "string \<Rightarrow> header_states \<Rightarrow> char \<Rightarrow> http_parser \<Rightarrow> http_parser" where
  "match_field name done c q =
     (let q1 = next_index q in
      case match_name name (unat (index q1)) c of
        Mismatch \<Rightarrow> q1\<lparr>header_state := h_general\<rparr>
      | Complete \<Rightarrow> q1\<lparr>header_state := done\<rparr>
      | Partial \<Rightarrow> q1)"

text \<open>One byte of a field name, in every header state but \<^verbatim>\<open>h_general\<close>.\<close>

definition header_field_char :: "char \<Rightarrow> char \<Rightarrow> http_parser \<Rightarrow> fault + http_parser" where
  "header_field_char c ch q =
     (case header_state q of
        h_C \<Rightarrow> Inr ((next_index q)\<lparr>header_state := (if c = CHR ''o'' then h_CO else h_general)\<rparr>)
      | h_CO \<Rightarrow> Inr ((next_index q)\<lparr>header_state := (if c = CHR ''n'' then h_CON else h_general)\<rparr>)
      | h_CON \<Rightarrow>
          Inr ((next_index q)\<lparr>header_state :=
                 (if c = CHR ''n'' then h_matching_connection
                  else if c = CHR ''t'' then h_matching_content_length
                  else h_general)\<rparr>)
      | h_matching_connection \<Rightarrow> Inr (match_field CONNECTION h_connection c q)
      | h_matching_proxy_connection \<Rightarrow> Inr (match_field PROXY_CONNECTION h_connection c q)
      | h_matching_content_length \<Rightarrow> Inr (match_field CONTENT_LENGTH h_content_length c q)
      | h_matching_transfer_encoding \<Rightarrow>
          (let q1 = match_field TRANSFER_ENCODING h_transfer_encoding c q in
           Inr (if header_state q1 = h_transfer_encoding then q1\<lparr>uses_transfer_encoding := True\<rparr> else q1))
      | h_matching_upgrade \<Rightarrow> Inr (match_field UPGRADE h_upgrade c q)
      | h_connection \<Rightarrow> Inr (if ch \<noteq> CHR '' '' then q\<lparr>header_state := h_general\<rparr> else q)
      | h_content_length \<Rightarrow> Inr (if ch \<noteq> CHR '' '' then q\<lparr>header_state := h_general\<rparr> else q)
      | h_transfer_encoding \<Rightarrow> Inr (if ch \<noteq> CHR '' '' then q\<lparr>header_state := h_general\<rparr> else q)
      | h_upgrade \<Rightarrow> Inr (if ch \<noteq> CHR '' '' then q\<lparr>header_state := h_general\<rparr> else q)
      | _ \<Rightarrow> Inl (AssertFailed ''Unknown header_state''))"

text \<open>
  In \<^verbatim>\<open>h_general\<close> the code skips token bytes up to \<^verbatim>\<open>pe\<close>, which never lies past the end of
  the buffer.
\<close>

definition chunk_end :: "'w env \<Rightarrow> nat \<Rightarrow> nat" where
  "chunk_end e p = p + min (length (edata e) - p) (unat (max_header_size e))"

function skip_tokens :: "'w env \<Rightarrow> nat \<Rightarrow> nat \<Rightarrow> nat" where
  "skip_tokens e pe p =
     (if p + 1 < pe \<and> TOKEN (estrict e) (edata e ! (p + 1)) \<noteq> NUL then skip_tokens e pe (p + 1) else p)"
  by pat_completeness auto
termination
  by (relation "measure (\<lambda>(e, pe, p). pe - p)") auto

declare skip_tokens.simps [simp del]

lemma skip_tokens_ge: "p \<le> skip_tokens e pe p"
proof (induction e pe p rule: skip_tokens.induct)
  case (1 e pe p)
  then show ?case by (subst skip_tokens.simps) (auto split: if_splits)
qed

text \<open>The loop over the bytes of the name; it stops before a byte that is no token.\<close>

function header_field_loop ::
    "'w env \<Rightarrow> http_parser \<Rightarrow> nat \<Rightarrow> char \<Rightarrow> fault + (http_parser \<times> nat \<times> char)" where
  "header_field_loop e q p ch0 =
     (if p = length (edata e) then Inr (q, p, ch0)
      else if length (edata e) < p then Inl OutOfBounds
      else
        let ch = edata e ! p; c = TOKEN (estrict e) ch in
        if c = NUL then Inr (q, p, ch)
        else if header_state q = h_general then
          header_field_loop e q (Suc (skip_tokens e (chunk_end e p) p)) ch
        else
          case header_field_char c ch q of
            Inl f \<Rightarrow> Inl f
          | Inr q1 \<Rightarrow> header_field_loop e q1 (Suc p) ch)"
  by pat_completeness auto
termination
proof (relation "measure (\<lambda>(e, q, p, ch). length (edata e) - p)", goal_cases)
  case (2 e q p ch0 x xa)
  then show ?case using skip_tokens_ge [of p e "chunk_end e p"] by auto
qed auto

declare header_field_loop.simps [simp del]

definition do_header_field :: "'w env \<Rightarrow> 'w run \<Rightarrow> 'w outcome" where
  "do_header_field e r =
     (case header_field_loop e (rparser r) (rp r) (rch r) of
        Inl f \<Rightarrow> Faulted f
      | Inr (q, p, ch) \<Rightarrow>
          let start = rp r; r1 = r\<lparr>rparser := q, rp := p, rch := ch\<rparr> in
          if p = length (edata e) then COUNT_HEADER_SIZE e (p - 1 - start) (r1\<lparr>rp := p - 1\<rparr>)
          else
            andthen (COUNT_HEADER_SIZE e (p - start) r1) (\<lambda>r2.
              if ch = CHR '':'' then
                CALLBACK_DATA e header_field_mark (UPDATE_STATE s_header_value_discard_ws r2)
              else set_errno_and_goto_error HPE_INVALID_HEADER_TOKEN r2))"

section \<open>Start of a value\<close>

definition do_header_value_start :: "'w run \<Rightarrow> 'w outcome" where
  "do_header_value_start r =
     (let r1 = MARK header_value_mark r;
          r2 = UPDATE_STATE s_header_value r1;
          r3 = on_parser (\<lambda>q. q\<lparr>index := 0\<rparr>) r2;
          c = LOWER (rch r)
      in case header_state (rparser r3) of
           h_upgrade \<Rightarrow> Next (on_parser (\<lambda>q. (add_flag F_UPGRADE q)\<lparr>header_state := h_general\<rparr>) r3)
         | h_transfer_encoding \<Rightarrow>
             Next (on_parser (\<lambda>q. q\<lparr>header_state :=
                     (if c = CHR ''c'' then h_matching_transfer_encoding_chunked
                      else h_matching_transfer_encoding_token)\<rparr>) r3)
         | h_matching_transfer_encoding_token_start \<Rightarrow> Next r3
         | h_content_length \<Rightarrow>
             if \<not> IS_NUM (rch r) then set_errno_and_goto_error HPE_INVALID_CONTENT_LENGTH r3
             else if has_flag (rparser r3) F_CONTENTLENGTH then
               set_errno_and_goto_error HPE_UNEXPECTED_CONTENT_LENGTH r3
             else
               Next (on_parser (\<lambda>q. (add_flag F_CONTENTLENGTH q)\<lparr>content_length := digit (rch r),
                                       header_state := h_content_length_num\<rparr>) r3)
         | h_content_length_ws \<Rightarrow> Next r3
         | h_connection \<Rightarrow>
             Next (on_parser (\<lambda>q. q\<lparr>header_state :=
                     (if c = CHR ''k'' then h_matching_connection_keep_alive
                      else if c = CHR ''c'' then h_matching_connection_close
                      else if c = CHR ''u'' then h_matching_connection_upgrade
                      else h_matching_connection_token)\<rparr>) r3)
         | h_matching_connection_token_start \<Rightarrow> Next r3
         | _ \<Rightarrow> Next (on_parser (\<lambda>q. q\<lparr>header_state := h_general\<rparr>) r3))"

definition do_header_value_discard_ws :: "'w run \<Rightarrow> 'w outcome" where
  "do_header_value_discard_ws r =
     (if rch r = CHR '' '' \<or> rch r = HT then Next r
      else if rch r = CR then Next (UPDATE_STATE s_header_value_discard_ws_almost_done r)
      else if rch r = LF then Next (UPDATE_STATE s_header_value_discard_lws r)
      else do_header_value_start r)"

section \<open>The bytes of a value\<close>

definition content_length_digit :: "header_states \<Rightarrow> 'w run \<Rightarrow> 'w outcome + (header_states \<times> 'w run)" where
  "content_length_digit h r =
     (let q = rparser r; bad = on_parser (\<lambda>q. q\<lparr>header_state := h\<rparr>) (SET_ERRNO HPE_INVALID_CONTENT_LENGTH r) in
      if rch r = CHR '' '' then Inr (h_content_length_ws, r)
      else if \<not> IS_NUM (rch r) then Inl (GotoError bad)
      else
        let t = content_length q * 10 + digit (rch r) in
        if (ULLONG_MAX - 10) div 10 < content_length q then Inl (GotoError bad)
        else Inr (h, on_parser (\<lambda>q. q\<lparr>content_length := t\<rparr>) r))"

definition match_value ::
    "string \<Rightarrow> header_states \<Rightarrow> header_states \<Rightarrow> header_states \<Rightarrow> char \<Rightarrow> 'w run \<Rightarrow> header_states \<times> 'w run" where
  "match_value name here miss done c r =
     (let r1 = on_parser next_index r in
      (case match_name name (unat (index (rparser r1))) c of
         Mismatch \<Rightarrow> miss
       | Complete \<Rightarrow> done
       | Partial \<Rightarrow> here, r1))"

definition connection_flag :: "header_states \<Rightarrow> http_parser \<Rightarrow> http_parser" where
  "connection_flag h q =
     (if h = h_connection_keep_alive then add_flag F_CONNECTION_KEEP_ALIVE q
      else if h = h_connection_close then add_flag F_CONNECTION_CLOSE q
      else if h = h_connection_upgrade then add_flag F_CONNECTION_UPGRADE q
      else q)"

definition connection_end :: "header_states \<Rightarrow> 'w run \<Rightarrow> header_states \<times> 'w run" where
  "connection_end h r =
     (if rch r = CHR '','' then
        (h_matching_connection_token_start, on_parser (\<lambda>q. (connection_flag h q)\<lparr>index := 0\<rparr>) r)
      else if rch r \<noteq> CHR '' '' then (h_matching_connection_token, r)
      else (h, r))"

text \<open>
  One byte of a value, in every header state but \<^verbatim>\<open>h_general\<close>: the next value of the local
  \<^verbatim>\<open>h_state\<close>, or the end of the loop.
\<close>

definition header_value_char :: "header_states \<Rightarrow> 'w run \<Rightarrow> 'w outcome + (header_states \<times> 'w run)" where
  "header_value_char h r =
     (let ch = rch r; c = LOWER ch in
      case h of
        h_connection \<Rightarrow> Inl (Faulted (AssertFailed ''Shouldn't get here.''))
      | h_transfer_encoding \<Rightarrow> Inl (Faulted (AssertFailed ''Shouldn't get here.''))
      | h_content_length \<Rightarrow>
          (if ch = CHR '' '' then Inr (h, r) else content_length_digit h_content_length_num r)
      | h_content_length_num \<Rightarrow> content_length_digit h r
      | h_content_length_ws \<Rightarrow>
          (if ch = CHR '' '' then Inr (h, r)
           else Inl (GotoError (on_parser (\<lambda>q. q\<lparr>header_state := h\<rparr>) (SET_ERRNO HPE_INVALID_CONTENT_LENGTH r))))
      | h_matching_transfer_encoding_token_start \<Rightarrow>
          (if c = CHR ''c'' then Inr (h_matching_transfer_encoding_chunked, r)
           else if STRICT_TOKEN c \<noteq> NUL then Inr (h_matching_transfer_encoding_token, r)
           else if c = CHR '' '' \<or> c = HT then Inr (h, r)
           else Inr (h_general, r))
      | h_matching_transfer_encoding_chunked \<Rightarrow>
          Inr (match_value CHUNKED h h_matching_transfer_encoding_token h_transfer_encoding_chunked c r)
      | h_matching_transfer_encoding_token \<Rightarrow>
          (if ch = CHR '','' then
             Inr (h_matching_transfer_encoding_token_start, on_parser (\<lambda>q. q\<lparr>index := 0\<rparr>) r)
           else Inr (h, r))
      | h_matching_connection_token_start \<Rightarrow>
          (if c = CHR ''k'' then Inr (h_matching_connection_keep_alive, r)
           else if c = CHR ''c'' then Inr (h_matching_connection_close, r)
           else if c = CHR ''u'' then Inr (h_matching_connection_upgrade, r)
           else if STRICT_TOKEN c \<noteq> NUL then Inr (h_matching_connection_token, r)
           else if c = CHR '' '' \<or> c = HT then Inr (h, r)
           else Inr (h_general, r))
      | h_matching_connection_keep_alive \<Rightarrow>
          Inr (match_value KEEP_ALIVE h h_matching_connection_token h_connection_keep_alive c r)
      | h_matching_connection_close \<Rightarrow>
          Inr (match_value CLOSE h h_matching_connection_token h_connection_close c r)
      | h_matching_connection_upgrade \<Rightarrow>
          Inr (match_value UPGRADE h h_matching_connection_token h_connection_upgrade c r)
      | h_matching_connection_token \<Rightarrow>
          (if ch = CHR '','' then
             Inr (h_matching_connection_token_start, on_parser (\<lambda>q. q\<lparr>index := 0\<rparr>) r)
           else Inr (h, r))
      | h_transfer_encoding_chunked \<Rightarrow>
          Inr (if ch \<noteq> CHR '' '' then h_matching_transfer_encoding_token else h, r)
      | h_connection_keep_alive \<Rightarrow> Inr (connection_end h r)
      | h_connection_close \<Rightarrow> Inr (connection_end h r)
      | h_connection_upgrade \<Rightarrow> Inr (connection_end h r)
      | _ \<Rightarrow> Inr (h_general, UPDATE_STATE s_header_value r))"

text \<open>
  The inner loop of \<^verbatim>\<open>h_general\<close>: the bytes up to \<^verbatim>\<open>pe\<close> or to the byte before a line end;
  the flag tells whether all bytes passed were valid.
\<close>

function skip_value :: "'w env \<Rightarrow> nat \<Rightarrow> nat \<Rightarrow> char \<Rightarrow> bool \<times> nat \<times> char" where
  "skip_value e pe p ch0 =
     (if pe \<le> p then (True, p, ch0)
      else
        let ch = edata e ! p in
        if ch = CR \<or> ch = LF then (True, p - 1, ch)
        else if \<not> lenient e \<and> \<not> IS_HEADER_CHAR ch then (False, p, ch)
        else skip_value e pe (Suc p) ch)"
  by pat_completeness auto
termination
  by (relation "measure (\<lambda>(e, pe, p, ch). pe - p)") auto

declare skip_value.simps [simp del]

lemma skip_value_ge:
  "p - 1 \<le> fst (snd (skip_value e pe p ch))"
proof (induction e pe p ch rule: skip_value.induct)
  case (1 e pe p ch0)
  then show ?case by (subst skip_value.simps) (auto simp: Let_def)
qed

lemma skip_value_first_ge:
  "edata e ! p \<noteq> CR \<Longrightarrow> edata e ! p \<noteq> LF \<Longrightarrow> p \<le> fst (snd (skip_value e pe p ch))"
  using skip_value_ge [of "Suc p" e pe "edata e ! p"]
  by (subst skip_value.simps) (auto simp: Let_def)

lemma skip_value_progress:
  "(ok, p1, ch1) = skip_value e pe p ch \<Longrightarrow> edata e ! p \<noteq> CR \<Longrightarrow> edata e ! p \<noteq> LF \<Longrightarrow> p \<le> p1"
  using skip_value_first_ge [of e p pe ch] by (metis fst_conv snd_conv)

text \<open>\<open>last_byte e p\<close>: \<^verbatim>\<open>if (p == data + len) --p;\<close>\<close>

definition last_byte :: "'w env \<Rightarrow> nat \<Rightarrow> nat" where
  "last_byte e p = (if p = length (edata e) then p - 1 else p)"

text \<open>
  The loop over the value.  \<open>start\<close> is where it began; the pointer and the byte are written
  back to the variables wherever control leaves the iteration.
\<close>

definition end_of_value :: "'w env \<Rightarrow> nat \<Rightarrow> header_states \<Rightarrow> 'w run \<Rightarrow> 'w outcome" where
  "end_of_value e start h r =
     (let r1 = on_parser (\<lambda>q. q\<lparr>header_state := h\<rparr>) r;
          r2 = r1\<lparr>rp := last_byte e (rp r1)\<rparr>
      in COUNT_HEADER_SIZE e (rp r2 - start) r2)"

function header_value_loop :: "'w env \<Rightarrow> nat \<Rightarrow> nat \<Rightarrow> header_states \<Rightarrow> 'w run \<Rightarrow> 'w outcome" where
  "header_value_loop e start p h r0 =
     (if p = length (edata e) then end_of_value e start h (r0\<lparr>rp := p\<rparr>)
      else if length (edata e) < p then Faulted OutOfBounds
      else
        let ch = edata e ! p; r = r0\<lparr>rp := p, rch := ch\<rparr> in
        if ch = CR then
          andthen (CALLBACK_DATA e header_value_mark
                     (on_parser (\<lambda>q. q\<lparr>header_state := h\<rparr>) (UPDATE_STATE s_header_almost_done r)))
            (end_of_value e start h)
        else if ch = LF then
          andthen (COUNT_HEADER_SIZE e (p - start) (UPDATE_STATE s_header_almost_done r)) (\<lambda>r1.
          andthen (CALLBACK_DATA_NOADVANCE e header_value_mark (on_parser (\<lambda>q. q\<lparr>header_state := h\<rparr>) r1))
            Reexecute)
        else if \<not> lenient e \<and> \<not> IS_HEADER_CHAR ch then
          set_errno_and_goto_error HPE_INVALID_HEADER_TOKEN r
        else if h = h_general then
          case skip_value e (chunk_end e p) p ch of (ok, p1, ch1) \<Rightarrow>
            if ok then header_value_loop e start (Suc (last_byte e p1)) h (r\<lparr>rch := ch1\<rparr>)
            else set_errno_and_goto_error HPE_INVALID_HEADER_TOKEN (r\<lparr>rp := p1, rch := ch1\<rparr>)
        else
          case header_value_char h r of
            Inl x \<Rightarrow> x
          | Inr (h1, r1) \<Rightarrow> header_value_loop e start (Suc p) h1 r1)"
  by pat_completeness auto
termination
proof (relation "measure (\<lambda>(e, start, p, h, r). length (edata e) - p)", goal_cases)
  case (2 e start p h r0 ch r t ok t2)
  then show ?case by (auto simp: last_byte_def dest: skip_value_progress)
qed auto

declare header_value_loop.simps [simp del]

definition do_header_value :: "'w env \<Rightarrow> 'w run \<Rightarrow> 'w outcome" where
  "do_header_value e r = header_value_loop e (rp r) (rp r) (header_state (rparser r)) r"

section \<open>End of a header line\<close>

definition do_header_almost_done :: "'w run \<Rightarrow> 'w outcome" where
  "do_header_almost_done r =
     (if rch r \<noteq> LF then set_errno_and_goto_error HPE_LF_EXPECTED r
      else Next (UPDATE_STATE s_header_value_lws r))"

definition value_flag :: "http_parser \<Rightarrow> http_parser" where
  "value_flag q =
     (if header_state q = h_transfer_encoding_chunked then add_flag F_CHUNKED q
      else connection_flag (header_state q) q)"

definition do_header_value_lws :: "'w run \<Rightarrow> 'w outcome" where
  "do_header_value_lws r =
     (if rch r = CHR '' '' \<or> rch r = HT then
        Reexecute (UPDATE_STATE s_header_value_start
          (on_parser (\<lambda>q. if header_state q = h_content_length_num
                             then q\<lparr>header_state := h_content_length_ws\<rparr> else q) r))
      else Reexecute (UPDATE_STATE s_header_field_start (on_parser value_flag r)))"

definition do_header_value_discard_ws_almost_done :: "'w env \<Rightarrow> 'w run \<Rightarrow> 'w outcome" where
  "do_header_value_discard_ws_almost_done e r = expect e LF s_header_value_discard_lws r"

definition do_header_value_discard_lws :: "'w env \<Rightarrow> 'w run \<Rightarrow> 'w outcome" where
  "do_header_value_discard_lws e r =
     (if rch r = CHR '' '' \<or> rch r = HT then Next (UPDATE_STATE s_header_value_discard_ws r)
      else if header_state (rparser r) = h_content_length then
        set_errno_and_goto_error HPE_INVALID_CONTENT_LENGTH r
      else
        andthen (CALLBACK_DATA_NOADVANCE e header_value_mark
                   (UPDATE_STATE s_header_field_start (MARK header_value_mark (on_parser value_flag r))))
          Reexecute)"

end
