(* ===== verification/Http_Execute.thy ===== *)
theory Http_Execute
  imports Http_Headers
begin

text \<open>
  The end of the headers, message bodies and chunks, then \<^verbatim>\<open>http_parser_execute\<close> itself: the
  switch over the states, the loop over the buffer, its prologue and its epilogue.
\<close>

section \<open>End of the headers\<close>

text \<open>The value of \<^verbatim>\<open>parser->upgrade\<close> the callback \<^verbatim>\<open>on_headers_complete\<close> can see.\<close>

definition announced_upgrade :: "http_parser \<Rightarrow> bool" where
  "announced_upgrade q =
     (if has_flag q F_UPGRADE \<and> has_flag q F_CONNECTION_UPGRADE
      then ptype q = HTTP_REQUEST \<or> status_code q = 101
      else pmethod q = HTTP_CONNECT)"

text \<open>
  \<^verbatim>\<open>on_headers_complete\<close>: 1 and 2 suppress the body and 2 switches protocols as well; any
  other nonzero result is an error.  The parser's state is not stored before the call.
\<close>

definition headers_complete_callback :: "'w env \<Rightarrow> 'w run \<Rightarrow> 'w outcome" where
  "headers_complete_callback e r =
     (case on_headers_complete (settings e) of
        None \<Rightarrow> Next r
      | Some f \<Rightarrow>
          (case f (rparser r) (rworld r) of (rc, q, w) \<Rightarrow>
             let r1 = r\<lparr>rparser := q, rworld := w\<rparr> in
             if rc = 0 then Next r1
             else if rc = 2 then
               Next (on_parser (add_flag F_SKIPBODY) (on_parser (\<lambda>q. q\<lparr>upgrade := True\<rparr>) r1))
             else if rc = 1 then Next (on_parser (add_flag F_SKIPBODY) r1)
             else RETURN (rp r) (SET_ERRNO HPE_CB_headers_complete r1)))"

definition length_and_encoding :: "'w env \<Rightarrow> http_parser \<Rightarrow> bool" where
  "length_and_encoding e q \<longleftrightarrow>
     uses_transfer_encoding q \<and> has_flag q F_CONTENTLENGTH \<and>
     (if has_flag q F_CHUNKED then \<not> allow_length e else \<not> lenient e)"

definition do_headers_almost_done :: "'w env \<Rightarrow> 'w run \<Rightarrow> 'w outcome" where
  "do_headers_almost_done e r =
     andthen (STRICT_CHECK e (rch r \<noteq> LF) r) (\<lambda>r.
       if has_flag (rparser r) F_TRAILING then
         andthen (CALLBACK_NOTIFY_NOADVANCE (on_chunk_complete (settings e)) HPE_CB_chunk_complete
                    (UPDATE_STATE s_message_done r))
           Reexecute
       else if length_and_encoding e (rparser r) then
         set_errno_and_goto_error HPE_UNEXPECTED_CONTENT_LENGTH r
       else
         let r1 = UPDATE_STATE s_headers_done r;
             r2 = on_parser (\<lambda>q. q\<lparr>upgrade := announced_upgrade q\<rparr>) r1
         in andthen (headers_complete_callback e r2) (\<lambda>r3.
              if http_errno (rparser r3) \<noteq> HPE_OK then RETURN (rp r3) r3 else Reexecute r3))"

definition new_message :: "'w env \<Rightarrow> 'w run \<Rightarrow> 'w run" where
  "new_message e r = UPDATE_STATE (NEW_MESSAGE (estrict e) (rparser r)) r"

definition message_complete :: "'w env \<Rightarrow> 'w run \<Rightarrow> 'w outcome" where
  "message_complete e r = CALLBACK_NOTIFY (on_message_complete (settings e)) HPE_CB_message_complete (new_message e r)"

definition zero_nread :: "'w run \<Rightarrow> 'w run" where
  "zero_nread r = (on_parser (\<lambda>q. q\<lparr>nread := 0\<rparr>) r)\<lparr>rnread := 0\<rparr>"

definition has_body :: "http_parser \<Rightarrow> bool" where
  "has_body q \<longleftrightarrow> has_flag q F_CHUNKED \<or> (0 < content_length q \<and> content_length q \<noteq> ULLONG_MAX)"

definition do_headers_done :: "'w env \<Rightarrow> 'w run \<Rightarrow> 'w outcome" where
  "do_headers_done e r0 =
     andthen (STRICT_CHECK e (rch r0 \<noteq> LF) r0) (\<lambda>r1.
       let r = zero_nread r1; q = rparser r in
       if upgrade q \<and> (pmethod q = HTTP_CONNECT \<or> has_flag q F_SKIPBODY \<or> \<not> has_body q) then
         andthen (message_complete e r) (\<lambda>r. RETURN (rp r + 1) r)
       else if has_flag q F_SKIPBODY then message_complete e r
       else if has_flag q F_CHUNKED then Next (UPDATE_STATE s_chunk_size_start r)
       else if uses_transfer_encoding q then
         if ptype q = HTTP_REQUEST \<and> \<not> lenient e then
           RETURN (rp r) (SET_ERRNO HPE_INVALID_TRANSFER_ENCODING r)
         else Next (UPDATE_STATE s_body_identity_eof r)
       else if content_length q = 0 then message_complete e r
       else if content_length q \<noteq> ULLONG_MAX then Next (UPDATE_STATE s_body_identity r)
       else if \<not> http_message_needs_eof q then message_complete e r
       else Next (UPDATE_STATE s_body_identity_eof r))"

section \<open>Bodies\<close>

definition bytes_to_read :: "'w env \<Rightarrow> 'w run \<Rightarrow> uint64" where
  "bytes_to_read e r = min (content_length (rparser r)) (of_nat (length (edata e) - rp r))"

text \<open>The common part of \<^verbatim>\<open>s_body_identity\<close> and \<^verbatim>\<open>s_chunk_data\<close>: take what the buffer has.\<close>

definition read_body :: "'w env \<Rightarrow> 'w run \<Rightarrow> 'w run" where
  "read_body e r =
     (let to_read = bytes_to_read e r;
          r1 = on_parser (\<lambda>q. q\<lparr>content_length := content_length q - to_read\<rparr>) (MARK body_mark r)
      in r1\<lparr>rp := rp r1 + unat to_read - 1\<rparr>)"

definition length_known :: "'w run \<Rightarrow> 'w outcome" where
  "length_known r =
     assert_that ''parser->content_length != 0 && parser->content_length != ULLONG_MAX''
       (content_length (rparser r) \<noteq> 0 \<and> content_length (rparser r) \<noteq> ULLONG_MAX) r"

definition do_body_identity :: "'w env \<Rightarrow> 'w run \<Rightarrow> 'w outcome" where
  "do_body_identity e r =
     andthen (length_known r) (\<lambda>r.
       let r1 = read_body e r in
       if content_length (rparser r1) = 0 then
         andthen (CALLBACK_DATA_ER e body_mark (rp r1 + 1) (rp r1) (UPDATE_STATE s_message_done r1)) Reexecute
       else Next r1)"

definition do_body_identity_eof :: "'w env \<Rightarrow> 'w run \<Rightarrow> 'w outcome" where
  "do_body_identity_eof e r = Next ((MARK body_mark r)\<lparr>rp := length (edata e) - 1\<rparr>)"

definition do_message_done :: "'w env \<Rightarrow> 'w run \<Rightarrow> 'w outcome" where
  "do_message_done e r =
     andthen (message_complete e r) (\<lambda>r.
       if upgrade (rparser r) then RETURN (rp r + 1) r else Next r)"

section \<open>Chunks\<close>

definition assert_chunked :: "'w run \<Rightarrow> 'w outcome" where
  "assert_chunked r = assert_that ''parser->flags & F_CHUNKED'' (has_flag (rparser r) F_CHUNKED) r"

definition unhex_val :: "char \<Rightarrow> int" where
  "unhex_val ch = unhex ! byte_index ch"

definition do_chunk_size_start :: "'w run \<Rightarrow> 'w outcome" where
  "do_chunk_size_start r =
     andthen (assert_that ''nread == 1'' (rnread r = 1) r) (\<lambda>r.
     andthen (assert_chunked r) (\<lambda>r.
       if unhex_val (rch r) = - 1 then set_errno_and_goto_error HPE_INVALID_CHUNK_SIZE r
       else Next (UPDATE_STATE s_chunk_size
              (on_parser (\<lambda>q. q\<lparr>content_length := of_int (unhex_val (rch r))\<rparr>) r))))"

definition do_chunk_size :: "'w run \<Rightarrow> 'w outcome" where
  "do_chunk_size r =
     andthen (assert_chunked r) (\<lambda>r.
       if rch r = CR then Next (UPDATE_STATE s_chunk_size_almost_done r)
       else if unhex_val (rch r) = - 1 then
         if rch r = CHR '';'' \<or> rch r = CHR '' '' then Next (UPDATE_STATE s_chunk_parameters r)
         else set_errno_and_goto_error HPE_INVALID_CHUNK_SIZE r
       else
         let t = content_length (rparser r) * 16 + of_int (unhex_val (rch r)) in
         if (ULLONG_MAX - 16) div 16 < content_length (rparser r) then
           set_errno_and_goto_error HPE_INVALID_CONTENT_LENGTH r
         else Next (on_parser (\<lambda>q. q\<lparr>content_length := t\<rparr>) r))"

definition do_chunk_parameters :: "'w run \<Rightarrow> 'w outcome" where
  "do_chunk_parameters r =
     andthen (assert_chunked r) (\<lambda>r.
       if rch r = CR then Next (UPDATE_STATE s_chunk_size_almost_done r) else Next r)"

definition do_chunk_size_almost_done :: "'w env \<Rightarrow> 'w run \<Rightarrow> 'w outcome" where
  "do_chunk_size_almost_done e r0 =
     andthen (assert_chunked r0) (\<lambda>r1.
     andthen (STRICT_CHECK e (rch r1 \<noteq> LF) r1) (\<lambda>r2.
       let r = zero_nread r2 in
       CALLBACK_NOTIFY (on_chunk_header (settings e)) HPE_CB_chunk_header
         (if content_length (rparser r) = 0 then
            UPDATE_STATE s_header_field_start (on_parser (add_flag F_TRAILING) r)
          else UPDATE_STATE s_chunk_data r)))"

definition do_chunk_data :: "'w env \<Rightarrow> 'w run \<Rightarrow> 'w outcome" where
  "do_chunk_data e r =
     andthen (assert_chunked r) (\<lambda>r.
     andthen (length_known r) (\<lambda>r.
       let r1 = read_body e r in
       if content_length (rparser r1) = 0 then Next (UPDATE_STATE s_chunk_data_almost_done r1) else Next r1))"

definition do_chunk_data_almost_done :: "'w env \<Rightarrow> 'w run \<Rightarrow> 'w outcome" where
  "do_chunk_data_almost_done e r =
     andthen (assert_chunked r) (\<lambda>r.
     andthen (assert_that ''parser->content_length == 0'' (content_length (rparser r) = 0) r) (\<lambda>r.
     andthen (STRICT_CHECK e (rch r \<noteq> CR) r) (\<lambda>r.
       CALLBACK_DATA e body_mark (UPDATE_STATE s_chunk_data_done r))))"

definition do_chunk_data_done :: "'w env \<Rightarrow> 'w run \<Rightarrow> 'w outcome" where
  "do_chunk_data_done e r =
     andthen (assert_chunked r) (\<lambda>r.
     andthen (STRICT_CHECK e (rch r \<noteq> LF) r) (\<lambda>r.
       CALLBACK_NOTIFY (on_chunk_complete (settings e)) HPE_CB_chunk_complete
         (UPDATE_STATE s_chunk_size_start (zero_nread r))))"

section \<open>The switch\<close>

definition dispatch :: "'w env \<Rightarrow> 'w run \<Rightarrow> 'w outcome" where
  "dispatch e r =
     (case p_state r of
        s_dead \<Rightarrow> do_dead r
      | s_start_req_or_res \<Rightarrow> do_start_req_or_res e r
      | s_res_or_resp_H \<Rightarrow> do_res_or_resp_H r
      | s_start_res \<Rightarrow> do_start_res e r
      | s_res_H \<Rightarrow> do_res_H e r
      | s_res_HT \<Rightarrow> do_res_HT e r
      | s_res_HTT \<Rightarrow> do_res_HTT e r
      | s_res_HTTP \<Rightarrow> do_res_HTTP e r
      | s_res_http_major \<Rightarrow> do_res_http_major r
      | s_res_http_dot \<Rightarrow> do_res_http_dot r
      | s_res_http_minor \<Rightarrow> do_res_http_minor r
      | s_res_http_end \<Rightarrow> do_res_http_end r
      | s_res_first_status_code \<Rightarrow> do_res_first_status_code r
      | s_res_status_code \<Rightarrow> do_res_status_code r
      | s_res_status_start \<Rightarrow> do_res_status_start r
      | s_res_status \<Rightarrow> do_res_status e r
      | s_res_line_almost_done \<Rightarrow> do_res_line_almost_done e r
      | s_start_req \<Rightarrow> do_start_req e r
      | s_req_method \<Rightarrow> do_req_method r
      | s_req_spaces_before_url \<Rightarrow> do_req_spaces_before_url e r
      | s_req_schema \<Rightarrow> do_req_schema e r
      | s_req_schema_slash \<Rightarrow> do_req_schema e r
      | s_req_schema_slash_slash \<Rightarrow> do_req_schema e r
      | s_req_server_start \<Rightarrow> do_req_schema e r
      | s_req_server \<Rightarrow> do_req_url e r
      | s_req_server_with_at \<Rightarrow> do_req_url e r
      | s_req_path \<Rightarrow> do_req_url e r
      | s_req_query_string_start \<Rightarrow> do_req_url e r
      | s_req_query_string \<Rightarrow> do_req_url e r
      | s_req_fragment_start \<Rightarrow> do_req_url e r
      | s_req_fragment \<Rightarrow> do_req_url e r
      | s_req_http_start \<Rightarrow> do_req_http_start r
      | s_req_http_H \<Rightarrow> do_req_http_H e r
      | s_req_http_HT \<Rightarrow> do_req_http_HT e r
      | s_req_http_HTT \<Rightarrow> do_req_http_HTT e r
      | s_req_http_HTTP \<Rightarrow> do_req_http_HTTP e r
      | s_req_http_I \<Rightarrow> do_req_http_I e r
      | s_req_http_IC \<Rightarrow> do_req_http_IC e r
      | s_req_http_major \<Rightarrow> do_req_http_major r
      | s_req_http_dot \<Rightarrow> do_req_http_dot r
      | s_req_http_minor \<Rightarrow> do_req_http_minor r
      | s_req_http_end \<Rightarrow> do_req_http_end r
      | s_req_line_almost_done \<Rightarrow> do_req_line_almost_done r
      | s_header_field_start \<Rightarrow> do_header_field_start e r
      | s_header_field \<Rightarrow> do_header_field e r
      | s_header_value_discard_ws \<Rightarrow> do_header_value_discard_ws r
      | s_header_value_discard_ws_almost_done \<Rightarrow> do_header_value_discard_ws_almost_done e r
      | s_header_value_discard_lws \<Rightarrow> do_header_value_discard_lws e r
      | s_header_value_start \<Rightarrow> do_header_value_start r
      | s_header_value \<Rightarrow> do_header_value e r
      | s_header_value_lws \<Rightarrow> do_header_value_lws r
      | s_header_almost_done \<Rightarrow> do_header_almost_done r
      | s_chunk_size_start \<Rightarrow> do_chunk_size_start r
      | s_chunk_size \<Rightarrow> do_chunk_size r
      | s_chunk_parameters \<Rightarrow> do_chunk_parameters r
      | s_chunk_size_almost_done \<Rightarrow> do_chunk_size_almost_done e r
      | s_headers_almost_done \<Rightarrow> do_headers_almost_done e r
      | s_headers_done \<Rightarrow> do_headers_done e r
      | s_chunk_data \<Rightarrow> do_chunk_data e r
      | s_chunk_data_almost_done \<Rightarrow> do_chunk_data_almost_done e r
      | s_chunk_data_done \<Rightarrow> do_chunk_data_done e r
      | s_body_identity \<Rightarrow> do_body_identity e r
      | s_body_identity_eof \<Rightarrow> do_body_identity_eof e r
      | s_message_done \<Rightarrow> do_message_done e r)"

text \<open>
  The label \<^verbatim>\<open>reexecute\<close>.  A byte passes through at most four states in a row
  (\<open>REEXECUTE_BOUND\<close> allows eight); a longer run is the fault \<open>OutOfFuel\<close>.
\<close>

definition REEXECUTE_BOUND :: nat where
  "REEXECUTE_BOUND = 8"

fun reexecute :: "nat \<Rightarrow> 'w env \<Rightarrow> 'w run \<Rightarrow> 'w outcome" where
  "reexecute 0 e r = Faulted OutOfFuel"
| "reexecute (Suc n) e r =
     (case dispatch e r of
        Reexecute r1 \<Rightarrow> reexecute n e r1
      | x \<Rightarrow> x)"

definition execute_byte :: "'w env \<Rightarrow> 'w run \<Rightarrow> 'w outcome" where
  "execute_byte e r0 =
     (if rp r0 < length (edata e) then
        let r = r0\<lparr>rch := edata e ! rp r0\<rparr> in
        andthen (if PARSING_HEADER (p_state r) then COUNT_HEADER_SIZE e 1 r else Next r)
          (reexecute REEXECUTE_BOUND e)
      else Faulted OutOfBounds)"

text \<open>
  The loop \<^verbatim>\<open>for (p=data; p != data + len; p++)\<close>; \<open>n\<close> bounds the iterations, of which there
  are at most as many as bytes.
\<close>

fun execute_loop :: "nat \<Rightarrow> 'w env \<Rightarrow> 'w run \<Rightarrow> 'w outcome" where
  "execute_loop 0 e r = (if rp r = length (edata e) then Next r else Faulted OutOfFuel)"
| "execute_loop (Suc n) e r =
     (if rp r = length (edata e) then Next r
      else andthen (execute_byte e r) (\<lambda>r1. execute_loop n e (r1\<lparr>rp := Suc (rp r1)\<rparr>)))"

section \<open>The function\<close>

definition http_parser_eof :: "'w env \<Rightarrow> 'w run \<Rightarrow> 'w outcome" where
  "http_parser_eof e r =
     (if p_state r = s_body_identity_eof then
        andthen (CALLBACK_NOTIFY_NOADVANCE (on_message_complete (settings e)) HPE_CB_message_complete r)
          (\<lambda>r. Returned 0 (rparser r) (rworld r))
      else if p_state r \<in> {s_dead, s_start_req_or_res, s_start_res, s_start_req} then
        Returned 0 (rparser r) (rworld r)
      else let r1 = SET_ERRNO HPE_INVALID_EOF_STATE r in Returned 1 (rparser r1) (rworld r1))"

definition url_states :: "state set" where
  "url_states =
     {s_req_path, s_req_schema, s_req_schema_slash, s_req_schema_slash_slash, s_req_server_start,
      s_req_server, s_req_server_with_at, s_req_query_string_start, s_req_query_string,
      s_req_fragment_start, s_req_fragment}"

definition initial_marks :: "state \<Rightarrow> mark \<Rightarrow> nat option" where
  "initial_marks s =
     (\<lambda>_. None)
       (header_field_mark := (if s = s_header_field then Some 0 else None),
        header_value_mark := (if s = s_header_value then Some 0 else None),
        url_mark := (if s \<in> url_states then Some 0 else None),
        status_mark := (if s = s_res_status then Some 0 else None))"

definition mark_count :: "(mark \<Rightarrow> nat option) \<Rightarrow> nat" where
  "mark_count m =
     (\<Sum>k\<leftarrow>[header_field_mark, header_value_mark, url_mark, body_mark, status_mark].
        if m k = None then 0 else 1)"

definition flush_marks :: "'w env \<Rightarrow> 'w run \<Rightarrow> 'w outcome" where
  "flush_marks e r =
     andthen (assert_that ''at most one mark'' (mark_count (marks r) \<le> 1) r) (\<lambda>r.
     andthen (CALLBACK_DATA_NOADVANCE e header_field_mark r) (\<lambda>r.
     andthen (CALLBACK_DATA_NOADVANCE e header_value_mark r) (\<lambda>r.
     andthen (CALLBACK_DATA_NOADVANCE e url_mark r) (\<lambda>r.
     andthen (CALLBACK_DATA_NOADVANCE e body_mark r) (\<lambda>r.
     andthen (CALLBACK_DATA_NOADVANCE e status_mark r) (\<lambda>r.
       RETURN (length (edata e)) r))))))"

definition error_exit :: "'w run \<Rightarrow> 'w outcome" where
  "error_exit r =
     RETURN (rp r) (if http_errno (rparser r) = HPE_OK then SET_ERRNO HPE_UNKNOWN r else r)"

text \<open>What the caller gets: the number of bytes consumed, the parser and the embedder's state.\<close>

definition finish :: "'w outcome \<Rightarrow> fault + (nat \<times> http_parser \<times> 'w)" where
  "finish x =
     (case x of
        Returned n q w \<Rightarrow> Inr (n, q, w)
      | Faulted f \<Rightarrow> Inl f
      | _ \<Rightarrow> Inl OutOfFuel)"

definition execute_env ::
    "bool \<Rightarrow> uint32 \<Rightarrow> 'w http_parser_settings \<Rightarrow> http_parser \<Rightarrow> string \<Rightarrow> 'w env" where
  "execute_env strict mhs ss parser data =
     \<lparr>estrict = strict, max_header_size = mhs, settings = ss, edata = data,
      lenient = lenient_http_headers parser, allow_length = allow_chunked_length parser\<rparr>"

definition execute_start :: "http_parser \<Rightarrow> 'w \<Rightarrow> 'w run" where
  "execute_start parser w =
     \<lparr>rparser = parser, rworld = w, p_state = pstate parser, rnread = nread parser, rp = 0,
      rch = NUL, marks = initial_marks (pstate parser)\<rparr>"

definition execute_body :: "'w env \<Rightarrow> 'w run \<Rightarrow> 'w outcome" where
  "execute_body e r =
     (case execute_loop (length (edata e)) e r of
        GotoError r1 \<Rightarrow> error_exit r1
      | Next r1 \<Rightarrow> flush_marks e r1
      | x \<Rightarrow> x)"

definition http_parser_execute ::
    "bool \<Rightarrow> uint32 \<Rightarrow> 'w http_parser_settings \<Rightarrow> http_parser \<Rightarrow> string \<Rightarrow> 'w
      \<Rightarrow> fault + (nat \<times> http_parser \<times> 'w)" where
  "http_parser_execute strict mhs ss parser data w =
     (let e = execute_env strict mhs ss parser data; r = execute_start parser w in
      if http_errno parser \<noteq> HPE_OK then Inr (0, parser, w)
      else finish (if data = [] then http_parser_eof e r else execute_body e r))"

end
