(* ===== verification/Http_Invariant.thy ===== *)
theory Http_Invariant
  imports Http_Execute
begin

text \<open>
  The invariant of \<^verbatim>\<open>http_parser_execute\<close>: what each state of the parser says about its
  other fields and about the marks, and what an outcome of the switch must satisfy.
\<close>

unbundle bit_operations_syntax

section \<open>Flags\<close>

definition flagged :: "http_parser \<Rightarrow> nat \<Rightarrow> bool" where
  "flagged q n \<longleftrightarrow> bit (flags q) n"

lemma flag_test: "n < 8 \<Longrightarrow> (w :: uint8) AND push_bit n 1 \<noteq> 0 \<longleftrightarrow> bit w n"
  by (simp add: and_exp_eq_0_iff_not_bit)

lemma has_flag_iff [simp]:
  "has_flag q F_CHUNKED \<longleftrightarrow> flagged q 0"
  "has_flag q F_CONNECTION_KEEP_ALIVE \<longleftrightarrow> flagged q 1"
  "has_flag q F_CONNECTION_CLOSE \<longleftrightarrow> flagged q 2"
  "has_flag q F_CONNECTION_UPGRADE \<longleftrightarrow> flagged q 3"
  "has_flag q F_TRAILING \<longleftrightarrow> flagged q 4"
  "has_flag q F_UPGRADE \<longleftrightarrow> flagged q 5"
  "has_flag q F_SKIPBODY \<longleftrightarrow> flagged q 6"
  "has_flag q F_CONTENTLENGTH \<longleftrightarrow> flagged q 7"
  unfolding has_flag_def flagged_def F_CHUNKED_def F_CONNECTION_KEEP_ALIVE_def F_CONNECTION_CLOSE_def
    F_CONNECTION_UPGRADE_def F_TRAILING_def F_UPGRADE_def F_SKIPBODY_def F_CONTENTLENGTH_def
  by (rule flag_test, simp)+

lemma bit_or_flag: "m < 8 \<Longrightarrow> bit ((w :: uint8) OR push_bit m 1) n \<longleftrightarrow> n = m \<or> bit w n"
  unfolding bit_or_iff bit_push_bit_iff bit_1_iff by (auto simp: possible_bit_word)

lemma flagged_or:
  "m < 8 \<Longrightarrow> flagged (q\<lparr>flags := flags q OR push_bit m 1\<rparr>) n \<longleftrightarrow> n = m \<or> flagged q n"
  using bit_or_flag [of m "flags q" n] by (simp add: flagged_def)

lemma flagged_add_flag [simp]:
  "flagged (add_flag F_CHUNKED q) n \<longleftrightarrow> n = 0 \<or> flagged q n"
  "flagged (add_flag F_CONNECTION_KEEP_ALIVE q) n \<longleftrightarrow> n = 1 \<or> flagged q n"
  "flagged (add_flag F_CONNECTION_CLOSE q) n \<longleftrightarrow> n = 2 \<or> flagged q n"
  "flagged (add_flag F_CONNECTION_UPGRADE q) n \<longleftrightarrow> n = 3 \<or> flagged q n"
  "flagged (add_flag F_TRAILING q) n \<longleftrightarrow> n = 4 \<or> flagged q n"
  "flagged (add_flag F_UPGRADE q) n \<longleftrightarrow> n = 5 \<or> flagged q n"
  "flagged (add_flag F_SKIPBODY q) n \<longleftrightarrow> n = 6 \<or> flagged q n"
  "flagged (add_flag F_CONTENTLENGTH q) n \<longleftrightarrow> n = 7 \<or> flagged q n"
  unfolding add_flag_def F_CHUNKED_def F_CONNECTION_KEEP_ALIVE_def F_CONNECTION_CLOSE_def
    F_CONNECTION_UPGRADE_def F_TRAILING_def F_UPGRADE_def F_SKIPBODY_def F_CONTENTLENGTH_def
  by (rule flagged_or, simp)+

lemma flagged_update [simp]:
  "flagged (q\<lparr>flags := 0\<rparr>) n = False"
  "flagged (q\<lparr>ptype := a1\<rparr>) n = flagged q n"
  "flagged (q\<lparr>pstate := a2\<rparr>) n = flagged q n"
  "flagged (q\<lparr>header_state := a3\<rparr>) n = flagged q n"
  "flagged (q\<lparr>index := a4\<rparr>) n = flagged q n"
  "flagged (q\<lparr>uses_transfer_encoding := a5\<rparr>) n = flagged q n"
  "flagged (q\<lparr>nread := a6\<rparr>) n = flagged q n"
  "flagged (q\<lparr>content_length := a7\<rparr>) n = flagged q n"
  "flagged (q\<lparr>http_major := a8\<rparr>) n = flagged q n"
  "flagged (q\<lparr>http_minor := a8\<rparr>) n = flagged q n"
  "flagged (q\<lparr>status_code := a8\<rparr>) n = flagged q n"
  "flagged (q\<lparr>pmethod := a9\<rparr>) n = flagged q n"
  "flagged (q\<lparr>http_errno := a10\<rparr>) n = flagged q n"
  "flagged (q\<lparr>upgrade := a11\<rparr>) n = flagged q n"
  "flagged (q\<lparr>pdata := a12\<rparr>) n = flagged q n"
  by (simp_all add: flagged_def)

lemma add_flag_fields [simp]:
  "ptype (add_flag f q) = ptype q" "pstate (add_flag f q) = pstate q"
  "header_state (add_flag f q) = header_state q" "index (add_flag f q) = index q"
  "uses_transfer_encoding (add_flag f q) = uses_transfer_encoding q"
  "allow_chunked_length (add_flag f q) = allow_chunked_length q"
  "lenient_http_headers (add_flag f q) = lenient_http_headers q"
  "nread (add_flag f q) = nread q" "content_length (add_flag f q) = content_length q"
  "http_major (add_flag f q) = http_major q" "http_minor (add_flag f q) = http_minor q"
  "status_code (add_flag f q) = status_code q" "pmethod (add_flag f q) = pmethod q"
  "http_errno (add_flag f q) = http_errno q" "upgrade (add_flag f q) = upgrade q"
  "pdata (add_flag f q) = pdata q"
  by (simp_all add: add_flag_def)

lemma PARSING_HEADER_iff:
  "PARSING_HEADER s \<longleftrightarrow>
     s \<notin> {s_chunk_data, s_chunk_data_almost_done, s_chunk_data_done, s_body_identity, s_body_identity_eof,
            s_message_done}"
  by (cases s) (simp_all add: PARSING_HEADER_def less_eq_state_def state_number_def states_def)

section \<open>The invariant of the parser\<close>

definition field_states :: "header_states set" where
  "field_states =
     {h_general, h_C, h_CO, h_CON, h_matching_connection, h_matching_proxy_connection,
      h_matching_content_length, h_matching_transfer_encoding, h_matching_upgrade, h_connection,
      h_content_length, h_transfer_encoding, h_upgrade}"

definition chunk_states :: "state set" where
  "chunk_states =
     {s_chunk_size_start, s_chunk_size, s_chunk_parameters, s_chunk_size_almost_done, s_chunk_data,
      s_chunk_data_almost_done, s_chunk_data_done}"

definition between_messages :: "state set" where
  "between_messages = {s_dead, s_start_req_or_res, s_start_res, s_start_req}"

definition method_ok :: "state \<Rightarrow> http_parser \<Rightarrow> bool" where
  "method_ok s q \<longleftrightarrow> (s = s_req_method \<longrightarrow> unat (index q) \<le> length (method_string (pmethod q)))"

definition header_ok :: "state \<Rightarrow> http_parser \<Rightarrow> bool" where
  "header_ok s q \<longleftrightarrow>
     (s \<in> {s_header_field, s_header_value_discard_ws, s_header_value_discard_ws_almost_done,
             s_header_value_discard_lws} \<longrightarrow> header_state q \<in> field_states) \<and>
     (s \<in> {s_header_value, s_header_almost_done, s_header_value_lws, s_header_value_start} \<longrightarrow>
        header_state q \<notin> {h_connection, h_transfer_encoding, h_content_length} \<and>
        (header_state q \<in> {h_content_length_num, h_content_length_ws} \<longrightarrow> flagged q 7))"

definition chunk_ok :: "state \<Rightarrow> http_parser \<Rightarrow> bool" where
  "chunk_ok s q \<longleftrightarrow>
     (s \<in> chunk_states \<longrightarrow> flagged q 0) \<and>
     (s \<in> {s_chunk_size, s_chunk_parameters, s_chunk_size_almost_done} \<longrightarrow> content_length q \<noteq> ULLONG_MAX) \<and>
     (s \<in> {s_chunk_data, s_body_identity} \<longrightarrow> content_length q \<noteq> 0 \<and> content_length q \<noteq> ULLONG_MAX) \<and>
     (s = s_chunk_data_almost_done \<longrightarrow> content_length q = 0)"

definition framing_ok :: "state \<Rightarrow> http_parser \<Rightarrow> bool" where
  "framing_ok s q \<longleftrightarrow>
     (PARSING_HEADER s \<and> s \<notin> between_messages \<union> chunk_states \<and> \<not> flagged q 4 \<longrightarrow>
        (flagged q 7 \<longleftrightarrow> content_length q \<noteq> ULLONG_MAX)) \<and>
     (s = s_headers_done \<longrightarrow> \<not> flagged q 4) \<and>
     (s \<in> {s_headers_done, s_body_identity, s_body_identity_eof} \<union> chunk_states \<longrightarrow>
        uses_transfer_encoding q \<and> flagged q 7 \<longrightarrow>
        (if flagged q 0 then allow_chunked_length q else lenient_http_headers q)) \<and>
     (s = s_body_identity \<longrightarrow> flagged q 7 \<and> \<not> flagged q 0 \<and> \<not> uses_transfer_encoding q)"

definition bounds_ok :: "http_parser \<Rightarrow> bool" where
  "bounds_ok q \<longleftrightarrow> http_major q \<le> 9 \<and> http_minor q \<le> 9 \<and> status_code q \<le> 999"

definition parser_ok :: "state \<Rightarrow> http_parser \<Rightarrow> bool" where
  "parser_ok s q \<longleftrightarrow> method_ok s q \<and> header_ok s q \<and> chunk_ok s q \<and> framing_ok s q \<and> bounds_ok q"

definition mark_states :: "mark \<Rightarrow> state set" where
  "mark_states k =
     (case k of
        header_field_mark \<Rightarrow> {s_header_field}
      | header_value_mark \<Rightarrow> {s_header_value}
      | url_mark \<Rightarrow> url_states
      | body_mark \<Rightarrow> {s_body_identity, s_body_identity_eof, s_chunk_data, s_chunk_data_almost_done}
      | status_mark \<Rightarrow> {s_res_status})"

definition marks_ok :: "'w run \<Rightarrow> bool" where
  "marks_ok r \<longleftrightarrow> (\<forall>k i. marks r k = Some i \<longrightarrow> p_state r \<in> mark_states k \<and> i \<le> rp r)"

definition env_ok :: "'w env \<Rightarrow> 'w run \<Rightarrow> bool" where
  "env_ok e r \<longleftrightarrow>
     http_errno (rparser r) = HPE_OK \<and> rp r < length (edata e) \<and> length (edata e) < 2 ^ 64 \<and>
     lenient_http_headers (rparser r) = lenient e \<and> allow_chunked_length (rparser r) = allow_length e \<and>
     rnread r \<le> max_header_size e \<and> nread (rparser r) \<le> max_header_size e"

text \<open>\<open>k\<close> is the value the size counter must have in front of a chunk size.\<close>

definition run_ok :: "uint32 \<Rightarrow> 'w env \<Rightarrow> 'w run \<Rightarrow> bool" where
  "run_ok k e r \<longleftrightarrow>
     env_ok e r \<and> marks_ok r \<and> parser_ok (p_state r) (rparser r) \<and>
     (p_state r = s_chunk_size_start \<longrightarrow> rnread r = k)"

definition resumable :: "uint32 \<Rightarrow> http_parser \<Rightarrow> bool" where
  "resumable limit q \<longleftrightarrow>
     parser_ok (pstate q) q \<and> nread q \<le> limit \<and> (pstate q = s_chunk_size_start \<longrightarrow> nread q = 0)"

definition return_ok :: "'w env \<Rightarrow> nat \<Rightarrow> http_parser \<Rightarrow> bool" where
  "return_ok e n q \<longleftrightarrow>
     n \<le> length (edata e) \<and>
     (http_errno q = HPE_OK \<longrightarrow> n = length (edata e) \<or> upgrade q) \<and>
     (http_errno q = HPE_OK \<or> http_errno q = HPE_PAUSED \<longrightarrow>
        resumable (max_header_size e) q \<and>
        lenient_http_headers q = lenient e \<and> allow_chunked_length q = allow_length e)"

definition rank :: "state \<Rightarrow> nat" where
  "rank s =
     (case s of
        s_header_value_lws \<Rightarrow> 4
      | s_header_value_discard_lws \<Rightarrow> 4
      | s_header_field_start \<Rightarrow> 3
      | s_headers_almost_done \<Rightarrow> 2
      | s_res_status_code \<Rightarrow> 2
      | s_res_status_start \<Rightarrow> 1
      | s_start_req_or_res \<Rightarrow> 1
      | s_header_value \<Rightarrow> 1
      | s_body_identity \<Rightarrow> 1
      | _ \<Rightarrow> 0)"

definition outcome_ok :: "'w env \<Rightarrow> state \<Rightarrow> 'w outcome \<Rightarrow> bool" where
  "outcome_ok e s x \<longleftrightarrow>
     (case x of
        Next r \<Rightarrow> run_ok 0 e r
      | Reexecute r \<Rightarrow> run_ok 1 e r \<and> rank (p_state r) < rank s
      | GotoError r \<Rightarrow> rp r < length (edata e) \<and> http_errno (rparser r) \<noteq> HPE_OK \<and> http_errno (rparser r) \<noteq> HPE_PAUSED
      | Returned n q w \<Rightarrow> return_ok e n q
      | Faulted f \<Rightarrow> False)"

end
