(* ===== verification/Http_Callbacks.thy ===== *)
theory Http_Callbacks
  imports Http_Invariant
begin

text \<open>
  The interface between the parser and the program that embeds it, as a locale, and the
  callback macros under it: a callback either leaves the variables alone or makes the
  function return in a state from which it can be resumed.
\<close>

section \<open>What a callback may do\<close>

text \<open>
  \<^verbatim>\<open>http_parser.h\<close> marks every field of the parser private or read-only except \<^verbatim>\<open>data\<close>, and
  lets a callback pause the parser.  An embedder whose callbacks keep to that is the
  interface the parser relies on.
\<close>

definition keeps_parser :: "http_parser \<Rightarrow> http_parser \<Rightarrow> bool" where
  "keeps_parser q q' \<longleftrightarrow>
     q' = q\<lparr>http_errno := http_errno q', pdata := pdata q'\<rparr> \<and> http_errno q' \<in> {HPE_OK, HPE_PAUSED}"

definition notify_cbs :: "'w http_parser_settings \<Rightarrow> 'w http_cb option set" where
  "notify_cbs ss =
     {on_message_begin ss, on_headers_complete ss, on_message_complete ss, on_chunk_header ss,
      on_chunk_complete ss}"

locale embedder =
  fixes ss :: "'w http_parser_settings"
  assumes notify_keeps:
    "Some f \<in> notify_cbs ss \<Longrightarrow> http_errno q = HPE_OK \<Longrightarrow> keeps_parser q (fst (snd (f q w)))"
  and data_keeps:
    "data_cb ss k = Some g \<Longrightarrow> http_errno q = HPE_OK \<Longrightarrow> keeps_parser q (fst (snd (g q bytes w)))"

section \<open>Callbacks preserve the invariant\<close>

definition same_run :: "'w run \<Rightarrow> 'w run \<Rightarrow> bool" where
  "same_run r r' \<longleftrightarrow>
     p_state r' = p_state r \<and> rp r' = rp r \<and> rch r' = rch r \<and> rnread r' = rnread r \<and> marks r' = marks r \<and>
     (\<exists>d s. rparser r' = (rparser r)\<lparr>pdata := d, pstate := s\<rparr>)"

lemmas parser_ok_defs = parser_ok_def method_ok_def header_ok_def chunk_ok_def framing_ok_def bounds_ok_def

lemma parser_ok_irrelevant [simp]:
  "parser_ok s (q\<lparr>pdata := d\<rparr>) = parser_ok s q"
  "parser_ok s (q\<lparr>pstate := s'\<rparr>) = parser_ok s q"
  "parser_ok s (q\<lparr>http_errno := err\<rparr>) = parser_ok s q"
  "parser_ok s (q\<lparr>nread := n\<rparr>) = parser_ok s q"
  "parser_ok s (q\<lparr>upgrade := u\<rparr>) = parser_ok s q"
  unfolding parser_ok_defs by simp_all

lemma same_run_refl [simp]: "same_run r r"
  unfolding same_run_def by (simp, intro exI [of _ "pdata (rparser r)"] exI [of _ "pstate (rparser r)"]) simp

lemma same_run_ok: "same_run r r' \<Longrightarrow> run_ok k e r' = run_ok k e r"
  unfolding same_run_def run_ok_def env_ok_def marks_ok_def by auto

lemma same_run_fields:
  assumes "same_run r r'"
  shows "p_state r' = p_state r" "rp r' = rp r" "rch r' = rch r" "rnread r' = rnread r" "marks r' = marks r"
    "http_errno (rparser r') = http_errno (rparser r)" "upgrade (rparser r') = upgrade (rparser r)"
    "flags (rparser r') = flags (rparser r)" "nread (rparser r') = nread (rparser r)"
    "header_state (rparser r') = header_state (rparser r)"
    "content_length (rparser r') = content_length (rparser r)"
  using assms unfolding same_run_def by auto

definition callback_errno :: "http_errno \<Rightarrow> bool" where
  "callback_errno err \<longleftrightarrow> err \<noteq> HPE_OK \<and> err \<noteq> HPE_PAUSED"

lemma callback_errno_data [simp]: "callback_errno (data_errno k)"
  by (cases k) (simp_all add: callback_errno_def data_errno_def)

lemma after_callback_cases:
  assumes "keeps_parser ((rparser r)\<lparr>pstate := p_state r\<rparr>) (fst (snd res))"
    and "http_errno (rparser r) = HPE_OK" "callback_errno err"
  shows "(\<exists>r'. after_callback err er r res = Next r' \<and> same_run r r') \<or>
         (\<exists>q w. after_callback err er r res = Returned er q w \<and> http_errno q \<noteq> HPE_OK \<and>
            (http_errno q = HPE_PAUSED \<longrightarrow>
               q = (rparser r)\<lparr>pstate := p_state r, http_errno := HPE_PAUSED, pdata := pdata q\<rparr>))"
proof -
  obtain rc q w where res: "res = (rc, q, w)" by (cases res)
  obtain err' d where q: "q = (rparser r)\<lparr>pstate := p_state r, http_errno := err', pdata := d\<rparr>"
    and err': "err' \<in> {HPE_OK, HPE_PAUSED}"
    using assms(1) unfolding res keeps_parser_def by auto
  show ?thesis
  proof (cases "rc = 0 \<and> err' = HPE_OK")
    case True
    then have "q = (rparser r)\<lparr>pdata := d, pstate := p_state r\<rparr>"
      using assms(2) by (cases "rparser r") (simp add: q)
    then have "same_run r (r\<lparr>rparser := q, rworld := w, p_state := pstate q\<rparr>)"
      by (auto simp: same_run_def)
    then show ?thesis using True by (auto simp: after_callback_def res q UPDATE_STATE_def)
  next
    case False
    then show ?thesis using assms(3) err'
      by (cases "rc = 0")
        (auto simp: after_callback_def res q UPDATE_STATE_def SET_ERRNO_def on_parser_def callback_errno_def Let_def)
  qed
qed

lemma paused_return_ok:
  assumes "run_ok k e r" "p_state r = s_chunk_size_start \<longrightarrow> nread (rparser r) = 0" "er \<le> length (edata e)"
    and "http_errno q \<noteq> HPE_OK"
    and "http_errno q = HPE_PAUSED \<longrightarrow>
           q = (rparser r)\<lparr>pstate := p_state r, http_errno := HPE_PAUSED, pdata := pdata q\<rparr>"
  shows "return_ok e er q"
proof (cases "http_errno q = HPE_PAUSED")
  case True
  then obtain d where q: "q = (rparser r)\<lparr>pstate := p_state r, http_errno := HPE_PAUSED, pdata := d\<rparr>"
    using assms(5) by blast
  show ?thesis using assms(1-3) unfolding q by (auto simp: return_ok_def resumable_def run_ok_def env_ok_def)
next
  case False
  then show ?thesis using assms(3,4) by (auto simp: return_ok_def)
qed

context embedder
begin

lemma notify_cases:
  assumes ok: "run_ok k e r" and start: "p_state r = s_chunk_size_start \<longrightarrow> nread (rparser r) = 0"
    and er: "er \<le> length (edata e)" and cb: "cb \<in> notify_cbs ss" "callback_errno err"
  shows "(\<exists>r'. CALLBACK_NOTIFY_ER cb err er r = Next r' \<and> same_run r r') \<or>
         (\<exists>q w. CALLBACK_NOTIFY_ER cb err er r = Returned er q w \<and> return_ok e er q)"
proof (cases cb)
  case None
  then show ?thesis using ok by (simp add: CALLBACK_NOTIFY_ER_def assert_that_def run_ok_def env_ok_def)
next
  case (Some f)
  have errno: "http_errno (rparser r) = HPE_OK" using ok by (simp add: run_ok_def env_ok_def)
  let ?res = "f ((rparser r)\<lparr>pstate := p_state r\<rparr>) (rworld r)"
  have "keeps_parser ((rparser r)\<lparr>pstate := p_state r\<rparr>) (fst (snd ?res))"
    using notify_keeps cb(1) errno unfolding Some by simp
  from after_callback_cases [OF this errno cb(2), of er]
  show ?thesis using Some errno paused_return_ok [OF ok start er]
    by (auto simp: CALLBACK_NOTIFY_ER_def assert_that_def)
qed

lemma data_cases:
  fixes k :: mark
  assumes ss: "settings e = ss"
    and ok: "run_ok n e (r\<lparr>marks := (marks r)(k := None)\<rparr>)" and start: "p_state r \<noteq> s_chunk_size_start"
    and range: "\<forall>m. marks r k = Some m \<longrightarrow> m \<le> endp" "endp \<le> length (edata e)" "er \<le> length (edata e)"
  shows "(\<exists>r'. CALLBACK_DATA_ER e k endp er r = Next r' \<and> same_run (r\<lparr>marks := (marks r)(k := None)\<rparr>) r') \<or>
         (\<exists>q w. CALLBACK_DATA_ER e k endp er r = Returned er q w \<and> return_ok e er q)"
proof -
  let ?r = "r\<lparr>marks := (marks r)(k := None)\<rparr>"
  have errno: "http_errno (rparser r) = HPE_OK" using ok by (simp add: run_ok_def env_ok_def)
  show ?thesis
  proof (cases "marks r k")
    case None
    then have "(marks r)(k := None) = marks r" by auto
    then show ?thesis using None errno by (simp add: CALLBACK_DATA_ER_def assert_that_def)
  next
    case (Some m)
    show ?thesis
    proof (cases "data_cb ss k")
      case None
      then show ?thesis using Some errno ss by (simp add: CALLBACK_DATA_ER_def assert_that_def)
    next
      case (Some g)
      let ?res = "g ((rparser r)\<lparr>pstate := p_state r\<rparr>) (take (endp - m) (drop m (edata e))) (rworld r)"
      have "keeps_parser ((rparser r)\<lparr>pstate := p_state r\<rparr>) (fst (snd ?res))"
        using data_keeps [OF Some] errno by simp
      from after_callback_cases [OF this errno, of "data_errno k" er]
      consider r' where "after_callback (data_errno k) er r ?res = Next r'" "same_run r r'"
        | q w where "after_callback (data_errno k) er r ?res = Returned er q w" "return_ok e er q"
        using paused_return_ok [OF ok _ range(3)] start by auto
      then show ?thesis
      proof cases
        case 1
        moreover have "same_run ?r (r'\<lparr>marks := (marks r')(k := None)\<rparr>)"
          using 1(2) unfolding same_run_def by auto
        ultimately show ?thesis using Some \<open>marks r k = Some m\<close> errno ss range
          by (simp add: CALLBACK_DATA_ER_def assert_that_def)
      next
        case 2
        then show ?thesis using Some \<open>marks r k = Some m\<close> errno ss range
          by (auto simp: CALLBACK_DATA_ER_def assert_that_def)
      qed
    qed
  qed
qed

lemma notify_outcome:
  assumes "run_ok 0 e r" "p_state r = s_chunk_size_start \<longrightarrow> nread (rparser r) = 0"
    and "cb \<in> notify_cbs ss" "callback_errno err"
    and "\<And>r'. same_run r r' \<Longrightarrow> outcome_ok e s (K r')"
  shows "outcome_ok e s (andthen (CALLBACK_NOTIFY cb err r) K)"
    "outcome_ok e s (andthen (CALLBACK_NOTIFY_NOADVANCE cb err r) K)"
proof -
  have "rp r < length (edata e)" using assms(1) by (simp add: run_ok_def env_ok_def)
  then have "rp r + 1 \<le> length (edata e)" "rp r \<le> length (edata e)" by simp_all
  note cases = notify_cases [OF assms(1,2) this(1) assms(3,4)] notify_cases [OF assms(1,2) this(2) assms(3,4)]
  show "outcome_ok e s (andthen (CALLBACK_NOTIFY cb err r) K)"
    using cases(1) assms(5) unfolding CALLBACK_NOTIFY_def by (auto simp: outcome_ok_def)
  show "outcome_ok e s (andthen (CALLBACK_NOTIFY_NOADVANCE cb err r) K)"
    using cases(2) assms(5) unfolding CALLBACK_NOTIFY_NOADVANCE_def by (auto simp: outcome_ok_def)
qed

lemma andthen_Next [simp]: "andthen x Next = x"
  by (cases x) simp_all

lemma notify_outcome_last:
  assumes "run_ok 0 e r" "p_state r = s_chunk_size_start \<longrightarrow> nread (rparser r) = 0"
    and "cb \<in> notify_cbs ss" "callback_errno err"
  shows "outcome_ok e s (CALLBACK_NOTIFY cb err r)"
  using notify_outcome(1) [OF assms, of s Next] assms(1) by (simp add: outcome_ok_def same_run_ok)

lemma data_outcome:
  assumes "settings e = ss" "run_ok 0 e (r\<lparr>marks := (marks r)(k := None)\<rparr>)" "p_state r \<noteq> s_chunk_size_start"
    and "\<forall>m. marks r k = Some m \<longrightarrow> m \<le> endp" "endp \<le> length (edata e)" "er \<le> length (edata e)"
    and "\<And>r'. same_run (r\<lparr>marks := (marks r)(k := None)\<rparr>) r' \<Longrightarrow> outcome_ok e s (K r')"
  shows "outcome_ok e s (andthen (CALLBACK_DATA_ER e k endp er r) K)"
  using data_cases [OF assms(1-6)] assms(7) by (auto simp: outcome_ok_def)

lemma data_outcome_last:
  assumes "settings e = ss" "run_ok 0 e (r\<lparr>marks := (marks r)(k := None)\<rparr>)" "p_state r \<noteq> s_chunk_size_start"
    and "\<forall>m. marks r k = Some m \<longrightarrow> m \<le> rp r"
  shows "outcome_ok e s (CALLBACK_DATA e k r)"
proof -
  have "rp r < length (edata e)" using assms(2) by (simp add: run_ok_def env_ok_def)
  then show ?thesis
    using data_outcome [OF assms, of "rp r + 1" s Next] assms(2)
    by (simp add: CALLBACK_DATA_def outcome_ok_def same_run_ok)
qed

end

end
