(* ===== verification/Http_Start_Safe.thy ===== *)
theory Http_Start_Safe
  imports Http_Callbacks
begin

text \<open>The states of the request and status line preserve the invariant.\<close>

section \<open>Outcomes and marks\<close>

definition marked_states :: "state set" where
  "marked_states = url_states \<union>
     {s_header_field, s_header_value, s_body_identity, s_body_identity_eof, s_chunk_data,
      s_chunk_data_almost_done, s_res_status}"

lemma mark_states_marked: "s \<in> mark_states k \<Longrightarrow> s \<in> marked_states"
  by (cases k) (auto simp: mark_states_def marked_states_def)

lemma marks_none: "marks_ok r \<Longrightarrow> p_state r \<notin> marked_states \<Longrightarrow> marks r = (\<lambda>_. None)"
  using mark_states_marked unfolding marks_ok_def by (metis ext not_None_eq)

lemma marks_ok_none [simp]: "marks r = (\<lambda>_. None) \<Longrightarrow> marks_ok r"
  by (simp add: marks_ok_def)

lemma fail_ok [simp]:
  "outcome_ok e s (set_errno_and_goto_error err r) \<longleftrightarrow> rp r < length (edata e) \<and> callback_errno err"
  by (auto simp: outcome_ok_def set_errno_and_goto_error_def SET_ERRNO_def on_parser_def callback_errno_def)

lemma outcome_simps [simp]:
  "outcome_ok e s (Next r) \<longleftrightarrow> run_ok 0 e r"
  "outcome_ok e s (Reexecute r) \<longleftrightarrow> run_ok 1 e r \<and> rank (p_state r) < rank s"
  "outcome_ok e s (Returned n q w) \<longleftrightarrow> return_ok e n q"
  "outcome_ok e s (Faulted f) \<longleftrightarrow> False"
  by (simp_all add: outcome_ok_def)

lemma andthen_fail [simp]: "andthen (set_errno_and_goto_error err r) K = set_errno_and_goto_error err r"
  by (simp add: set_errno_and_goto_error_def)

named_theorems macro_simps \<open>the macros and small helpers of the parser\<close>

declare on_parser_def [macro_simps] UPDATE_STATE_def [macro_simps] STRICT_CHECK_def [macro_simps]
  expect_def [macro_simps] clear_message_def [macro_simps] next_index_def [macro_simps]
  callback_errno_def [macro_simps] Let_def [macro_simps]

lemmas state_set_defs = between_messages_def chunk_states_def url_states_def field_states_def PARSING_HEADER_iff

lemma env_ok_rp [simp, dest]: "env_ok e r \<Longrightarrow> rp r < length (edata e)"
  by (simp add: env_ok_def)

lemma env_ok_update [simp]:
  "env_ok e (r\<lparr>p_state := s\<rparr>) = env_ok e r"
  "env_ok e (r\<lparr>rch := c\<rparr>) = env_ok e r"
  "env_ok e (r\<lparr>marks := m\<rparr>) = env_ok e r"
  "env_ok e (r\<lparr>rworld := w\<rparr>) = env_ok e r"
  "http_errno q = http_errno (rparser r) \<Longrightarrow> nread q = nread (rparser r) \<Longrightarrow>
   lenient_http_headers q = lenient_http_headers (rparser r) \<Longrightarrow>
   allow_chunked_length q = allow_chunked_length (rparser r) \<Longrightarrow>
   env_ok e (r\<lparr>rparser := q\<rparr>) = env_ok e r"
  by (simp_all add: env_ok_def)

lemma run_ok_env [simp, dest]: "run_ok k e r \<Longrightarrow> env_ok e r"
  by (simp add: run_ok_def)

lemma run_ok_unmarked:
  assumes "run_ok n e r" "p_state r \<notin> marked_states"
  shows "marks r = (\<lambda>_. None)" "env_ok e r" "parser_ok (p_state r) (rparser r)"
    "p_state r = s_chunk_size_start \<longrightarrow> rnread r = n"
  using assms marks_none [of r] unfolding run_ok_def by simp_all

lemma digit_le: "IS_NUM c \<Longrightarrow> (digit c :: uint16) \<le> 9"
proof -
  assume "IS_NUM c"
  then have "byte_index c - 48 \<le> 9" unfolding IS_NUM_iff by linarith
  then show ?thesis unfolding digit_def word_le_nat_alt by (simp add: unat_of_nat take_bit_nat_eq_self del: of_nat_diff)
qed

lemma do_dead_ok: "run_ok 1 e r \<Longrightarrow> p_state r = s_dead \<Longrightarrow> outcome_ok e s_dead (do_dead r)"
  by (auto simp: do_dead_def run_ok_def callback_errno_def)

lemma expect_ok:
  assumes "run_ok 1 e r" "p_state r \<notin> marked_states" "parser_ok s (rparser r)" "s \<noteq> s_chunk_size_start"
  shows "outcome_ok e s0 (expect e c s r)"
  using assms marks_none [of r] by (auto simp: macro_simps run_ok_def)

text \<open>What the invariant says of a start-line state that has no clause of its own.\<close>

definition line_ok :: "http_parser \<Rightarrow> bool" where
  "line_ok q \<longleftrightarrow> bounds_ok q \<and> (\<not> flagged q 4 \<longrightarrow> (flagged q 7 \<longleftrightarrow> content_length q \<noteq> ULLONG_MAX))"

definition line_states :: "state set" where
  "line_states =
     {s_res_or_resp_H, s_res_H, s_res_HT, s_res_HTT, s_res_HTTP, s_res_http_major, s_res_http_dot,
      s_res_http_minor, s_res_http_end, s_res_first_status_code, s_res_status_code, s_res_status_start,
      s_res_status, s_res_line_almost_done, s_req_spaces_before_url, s_req_http_start, s_req_http_H,
      s_req_http_HT, s_req_http_HTT, s_req_http_HTTP, s_req_http_I, s_req_http_IC, s_req_http_major,
      s_req_http_dot, s_req_http_minor, s_req_http_end, s_req_line_almost_done, s_header_field_start,
      s_headers_almost_done} \<union> url_states"

lemma line_states_ok: "s \<in> line_states \<Longrightarrow> parser_ok s q \<longleftrightarrow> line_ok q"
  by (cases s) (simp_all add: line_states_def line_ok_def parser_ok_defs state_set_defs conj_commute)

lemma line_ok_update [simp]:
  "line_ok (q\<lparr>ptype := a1\<rparr>) = line_ok q"
  "line_ok (q\<lparr>pstate := a2\<rparr>) = line_ok q"
  "line_ok (q\<lparr>header_state := a3\<rparr>) = line_ok q"
  "line_ok (q\<lparr>index := a4\<rparr>) = line_ok q"
  "line_ok (q\<lparr>pmethod := a5\<rparr>) = line_ok q"
  "line_ok (q\<lparr>uses_transfer_encoding := a6\<rparr>) = line_ok q"
  by (simp_all add: line_ok_def bounds_ok_def)

lemma line_step:
  assumes "run_ok n e r" "p_state r \<in> line_states" "p_state r \<notin> marked_states"
  shows "marks r = (\<lambda>_. None)" "env_ok e r" "line_ok (rparser r)"
  using run_ok_unmarked [OF assms(1,3)] line_states_ok [OF assms(2)] by simp_all

section \<open>Start of a message and status line\<close>

lemmas method_string_defs = method_string_def method_strings_def method_number_def http_methods_def HTTP_METHOD_MAP_def

lemma method_string_length: "0 < length (method_string m) \<and> length (method_string m) \<le> 11"
  by (cases m) (simp_all add: method_string_defs)

lemma method_switch_length:
  "map_of method_switch (m, i, c) = Some m' \<Longrightarrow> i < length (method_string m')"
proof -
  assume "map_of method_switch (m, i, c) = Some m'"
  then have "((m, i, c), m') \<in> set method_switch" by (rule map_of_SomeD)
  moreover have "list_all (\<lambda>((m, i, c), m'). i < length (method_string m')) method_switch"
    by (simp add: method_switch_def method_string_defs)
  ultimately show ?thesis by (auto simp: list_all_iff)
qed

lemma line_updates_ok:
  "line_ok q \<Longrightarrow> x \<le> 9 \<Longrightarrow> line_ok (q\<lparr>http_major := x\<rparr>)"
  "line_ok q \<Longrightarrow> x \<le> 9 \<Longrightarrow> line_ok (q\<lparr>http_minor := x\<rparr>)"
  "line_ok q \<Longrightarrow> x \<le> 999 \<Longrightarrow> line_ok (q\<lparr>status_code := x\<rparr>)"
  by (simp_all add: line_ok_def bounds_ok_def)

lemma cleared_line_ok: "bounds_ok q \<Longrightarrow> line_ok (q\<lparr>flags := 0, uses_transfer_encoding := u, content_length := ULLONG_MAX\<rparr>)"
  by (simp add: line_ok_def bounds_ok_def flagged_def)

lemma digit_le_999: "IS_NUM c \<Longrightarrow> (digit c :: uint16) \<le> 999"
  using digit_le order_trans by fastforce

lemma parser_ok_method:
  "parser_ok s_req_method q \<longleftrightarrow> line_ok q \<and> unat (index q) \<le> length (method_string (pmethod q))"
  by (simp add: parser_ok_defs line_ok_def state_set_defs) blast

lemma parser_ok_between: "s \<in> between_messages \<Longrightarrow> parser_ok s q \<longleftrightarrow> bounds_ok q"
  by (cases s) (simp_all add: parser_ok_defs state_set_defs)

lemmas line_member = line_states_def url_states_def marked_states_def

lemma status_line_ok:
  assumes "run_ok 1 e r"
  shows "p_state r = s_res_or_resp_H \<Longrightarrow> outcome_ok e s_res_or_resp_H (do_res_or_resp_H r)"
    "p_state r = s_res_H \<Longrightarrow> outcome_ok e s_res_H (do_res_H e r)"
    "p_state r = s_res_HT \<Longrightarrow> outcome_ok e s_res_HT (do_res_HT e r)"
    "p_state r = s_res_HTT \<Longrightarrow> outcome_ok e s_res_HTT (do_res_HTT e r)"
    "p_state r = s_res_HTTP \<Longrightarrow> outcome_ok e s_res_HTTP (do_res_HTTP e r)"
    "p_state r = s_res_http_major \<Longrightarrow> outcome_ok e s_res_http_major (do_res_http_major r)"
    "p_state r = s_res_http_dot \<Longrightarrow> outcome_ok e s_res_http_dot (do_res_http_dot r)"
    "p_state r = s_res_http_minor \<Longrightarrow> outcome_ok e s_res_http_minor (do_res_http_minor r)"
    "p_state r = s_res_http_end \<Longrightarrow> outcome_ok e s_res_http_end (do_res_http_end r)"
    "p_state r = s_res_first_status_code \<Longrightarrow> outcome_ok e s_res_first_status_code (do_res_first_status_code r)"
    "p_state r = s_res_status_code \<Longrightarrow> outcome_ok e s_res_status_code (do_res_status_code r)"
    "p_state r = s_res_line_almost_done \<Longrightarrow> outcome_ok e s_res_line_almost_done (do_res_line_almost_done e r)"
  unfolding do_res_or_resp_H_def do_res_H_def do_res_HT_def do_res_HTT_def do_res_HTTP_def do_res_http_major_def do_res_http_dot_def
    do_res_http_minor_def do_res_http_end_def do_res_first_status_code_def do_res_status_code_def do_res_line_almost_done_def
  using assms line_step [OF assms] digit_le [of "rch r"] digit_le_999 [of "rch r"]
  by (simp_all add: macro_simps run_ok_def line_states_ok line_member line_updates_ok parser_ok_method rank_def method_string_defs)

lemma marks_ok_one [simp]:
  "marks r = (\<lambda>_. None)(k := Some i) \<Longrightarrow> marks_ok r \<longleftrightarrow> p_state r \<in> mark_states k \<and> i \<le> rp r"
  by (auto simp: marks_ok_def)

text \<open>In the states that keep a mark, the marks of the other kinds are unset.\<close>

lemma marks_only:
  assumes "marks_ok r" "p_state r \<in> mark_states k"
  shows "(marks r)(k := None) = (\<lambda>_. None)" "\<forall>m. marks r k = Some m \<longrightarrow> m \<le> rp r"
    "\<forall>k' i. marks r k' = Some i \<longrightarrow> k' = k \<and> i \<le> rp r"
proof -
  have disjoint: "s \<in> mark_states k \<Longrightarrow> s \<in> mark_states k' \<Longrightarrow> k' = k" for s k'
    by (cases k; cases k') (auto simp: mark_states_def url_states_def)
  then show "(marks r)(k := None) = (\<lambda>_. None)"
    using assms unfolding marks_ok_def by (intro ext) (metis fun_upd_apply not_None_eq)
  show "\<forall>m. marks r k = Some m \<longrightarrow> m \<le> rp r" using assms unfolding marks_ok_def by blast
  show "\<forall>k' i. marks r k' = Some i \<longrightarrow> k' = k \<and> i \<le> rp r"
    using assms disjoint unfolding marks_ok_def by blast
qed

lemma request_line_ok:
  assumes "run_ok 1 e r"
  shows "p_state r = s_res_status_start \<Longrightarrow> outcome_ok e s_res_status_start (do_res_status_start r)"
    "p_state r = s_req_http_start \<Longrightarrow> outcome_ok e s_req_http_start (do_req_http_start r)"
    "p_state r = s_req_http_H \<Longrightarrow> outcome_ok e s_req_http_H (do_req_http_H e r)"
    "p_state r = s_req_http_HT \<Longrightarrow> outcome_ok e s_req_http_HT (do_req_http_HT e r)"
    "p_state r = s_req_http_HTT \<Longrightarrow> outcome_ok e s_req_http_HTT (do_req_http_HTT e r)"
    "p_state r = s_req_http_HTTP \<Longrightarrow> outcome_ok e s_req_http_HTTP (do_req_http_HTTP e r)"
    "p_state r = s_req_http_I \<Longrightarrow> outcome_ok e s_req_http_I (do_req_http_I e r)"
    "p_state r = s_req_http_IC \<Longrightarrow> outcome_ok e s_req_http_IC (do_req_http_IC e r)"
    "p_state r = s_req_http_major \<Longrightarrow> outcome_ok e s_req_http_major (do_req_http_major r)"
    "p_state r = s_req_http_dot \<Longrightarrow> outcome_ok e s_req_http_dot (do_req_http_dot r)"
    "p_state r = s_req_http_minor \<Longrightarrow> outcome_ok e s_req_http_minor (do_req_http_minor r)"
    "p_state r = s_req_http_end \<Longrightarrow> outcome_ok e s_req_http_end (do_req_http_end r)"
    "p_state r = s_req_line_almost_done \<Longrightarrow> outcome_ok e s_req_line_almost_done (do_req_line_almost_done r)"
  unfolding do_res_status_start_def do_req_http_start_def do_req_http_H_def do_req_http_HT_def do_req_http_HTT_def
    do_req_http_HTTP_def do_req_http_I_def do_req_http_IC_def do_req_http_major_def do_req_http_dot_def
    do_req_http_minor_def do_req_http_end_def do_req_line_almost_done_def
  using assms line_step [OF assms] digit_le [of "rch r"]
  by (simp_all add: macro_simps run_ok_def line_states_ok line_member line_updates_ok rank_def MARK_def mark_states_def)

lemma unat_next: "unat (i :: 5 word) \<le> 11 \<Longrightarrow> unat (i + 1) = unat i + 1"
  by (subst unat_add_no_wrap) simp_all

lemma do_req_method_ok:
  assumes "run_ok 1 e r" "p_state r = s_req_method"
  shows "outcome_ok e s_req_method (do_req_method r)"
proof -
  note ok = run_ok_unmarked [OF assms(1)]
  have marks: "marks r = (\<lambda>_. None)" and env: "env_ok e r" and line: "line_ok (rparser r)"
    and index: "unat (index (rparser r)) \<le> length (method_string (pmethod (rparser r)))"
    using ok assms(2) by (simp_all add: line_member parser_ok_method)
  note nxt = unat_next [OF order_trans [OF index conjunct2 [OF method_string_length]]]
  have at: "cstr_at (method_string (pmethod (rparser r))) (unat (index (rparser r))) = Inr m \<Longrightarrow> m \<noteq> NUL \<Longrightarrow>
      unat (index (rparser r)) < length (method_string (pmethod (rparser r)))" for m
    by (auto simp: cstr_at_def split: if_splits)
  have sw: "map_of method_switch (pmethod (rparser r), unat (index (rparser r)), rch r) = Some m \<Longrightarrow>
      unat (index (rparser r)) < length (method_string m)" for m
    by (rule method_switch_length)
  obtain m where m: "cstr_at (method_string (pmethod (rparser r))) (unat (index (rparser r))) = Inr m"
    using index by (cases "unat (index (rparser r)) = length (method_string (pmethod (rparser r)))")
      (auto simp: cstr_at_def)
  show ?thesis
    using env line index marks assms(2) at [OF m] sw nxt m
    by (auto simp: do_req_method_def macro_simps run_ok_def parser_ok_method line_states_ok line_member Suc_le_eq
        split: option.split)
qed

lemma parse_url_char_states:
  "s \<in> insert s_req_spaces_before_url url_states \<Longrightarrow> parse_url_char strict s ch \<in> insert s_dead url_states"
  by (cases s) (simp_all add: parse_url_char_def url_server_char_def url_states_def)

lemma url_step_ok:
  assumes env: "env_ok e r" and marks: "\<forall>k i. marks r k = Some i \<longrightarrow> k = url_mark \<and> i \<le> rp r"
    and line: "line_ok (rparser r)" and st: "p_state r \<in> insert s_req_spaces_before_url url_states"
  shows "outcome_ok e s (url_step e r)"
proof -
  let ?s = "parse_url_char (estrict e) (p_state r) (rch r)"
  have s: "?s \<in> insert s_dead url_states" by (rule parse_url_char_states [OF st])
  show ?thesis
  proof (cases "?s = s_dead")
    case True
    then show ?thesis using env by (simp add: url_step_def macro_simps)
  next
    case False
    then have u: "?s \<in> url_states" using s by blast
    then have "?s \<in> line_states" "?s \<noteq> s_chunk_size_start" by (auto simp: line_states_def url_states_def)
    moreover have "?s \<in> mark_states url_mark" using u by (simp add: mark_states_def)
    then have "marks_ok (r\<lparr>p_state := ?s\<rparr>)" using marks by (auto simp: marks_ok_def)
    ultimately show ?thesis using env line False
      by (simp add: url_step_def UPDATE_STATE_def run_ok_def line_states_ok)
  qed
qed

lemma do_req_spaces_before_url_ok:
  assumes "run_ok 1 e r" "p_state r = s_req_spaces_before_url"
  shows "outcome_ok e s_req_spaces_before_url (do_req_spaces_before_url e r)"
proof -
  have "marks r = (\<lambda>_. None)" "env_ok e r" "line_ok (rparser r)"
    using line_step [OF assms(1)] assms(2) by (simp_all add: line_member)
  moreover have "run_ok 0 e r" using assms by (simp add: run_ok_def)
  ultimately show ?thesis unfolding do_req_spaces_before_url_def Let_def
    by (auto simp: macro_simps MARK_def assms(2) url_states_def split: if_splits intro!: url_step_ok)
qed

lemma do_req_schema_ok:
  assumes "run_ok 1 e r" "p_state r \<in> url_states"
  shows "outcome_ok e s (do_req_schema e r)"
proof -
  have "p_state r \<in> line_states" using assms(2) by (simp add: line_states_def)
  then have "marks_ok r" "env_ok e r" "line_ok (rparser r)"
    using assms line_states_ok by (auto simp: run_ok_def)
  moreover have "\<forall>k i. marks r k = Some i \<longrightarrow> k = url_mark \<and> i \<le> rp r"
    using marks_only(3) [OF \<open>marks_ok r\<close>, of url_mark] assms(2) by (simp add: mark_states_def)
  ultimately show ?thesis unfolding do_req_schema_def using assms(2)
    by (auto simp: callback_errno_def intro!: url_step_ok)
qed

context embedder
begin

lemma start_states_ok:
  assumes "run_ok 1 e r" "settings e = ss"
  shows "p_state r = s_start_req_or_res \<Longrightarrow> outcome_ok e s_start_req_or_res (do_start_req_or_res e r)"
    "p_state r = s_start_res \<Longrightarrow> outcome_ok e s_start_res (do_start_res e r)"
    "p_state r = s_start_req \<Longrightarrow> outcome_ok e s_start_req (do_start_req e r)"
proof -
  have first: "first_method c = Some m \<Longrightarrow> Suc 0 \<le> length (method_string m)" for c m
    using method_string_length [of m] by (simp only: Suc_le_eq)
  show "p_state r = s_start_req_or_res \<Longrightarrow> outcome_ok e s_start_req_or_res (do_start_req_or_res e r)"
    "p_state r = s_start_res \<Longrightarrow> outcome_ok e s_start_res (do_start_res e r)"
    "p_state r = s_start_req \<Longrightarrow> outcome_ok e s_start_req (do_start_req e r)"
    using assms first run_ok_unmarked [OF assms(1)]
    by (auto simp: do_start_req_or_res_def do_start_res_def do_start_req_def macro_simps notify_cbs_def run_ok_def
        parser_ok_between parser_ok_method between_messages_def line_states_ok line_member rank_def bounds_ok_def line_ok_def
        flagged_def
        split: option.split intro!: notify_outcome_last)
qed

lemma leave_mark:
  assumes "marks_ok r" "p_state r \<in> mark_states k" "settings e = ss"
    and "marks r' = marks r" "rp r' = rp r" "env_ok e r'" "parser_ok (p_state r') (rparser r')"
    and "p_state r' \<noteq> s_chunk_size_start"
  shows "outcome_ok e s (CALLBACK_DATA e k r')"
  using marks_only [OF assms(1,2)] assms(3-) by (intro data_outcome_last) (simp_all add: run_ok_def)

lemma do_res_status_ok:
  assumes "run_ok 1 e r" "settings e = ss" "p_state r = s_res_status"
  shows "outcome_ok e s_res_status (do_res_status e r)"
proof -
  have ok: "marks_ok r" "env_ok e r" "line_ok (rparser r)"
    using assms line_states_ok [of s_res_status] by (simp_all add: run_ok_def line_states_def)
  have "outcome_ok e s_res_status (CALLBACK_DATA e status_mark (r\<lparr>p_state := s\<rparr>))"
    if "s \<in> {s_res_line_almost_done, s_header_field_start}" for s
    using ok assms that line_states_ok [of s]
    by (intro leave_mark [OF ok(1)]) (auto simp: mark_states_def line_states_def)
  then show ?thesis using assms by (simp add: do_res_status_def UPDATE_STATE_def run_ok_def)
qed

lemma do_req_url_ok:
  assumes "run_ok 1 e r" "settings e = ss" "p_state r \<in> url_states"
  shows "outcome_ok e s (do_req_url e r)"
proof -
  have "p_state r \<in> line_states" using assms(3) by (simp add: line_states_def)
  then have ok: "marks_ok r" "env_ok e r" "line_ok (rparser r)"
    using assms(1) line_states_ok by (auto simp: run_ok_def)
  have url: "p_state r \<in> mark_states url_mark" using assms(3) by (simp add: mark_states_def)
  have old: "line_ok ((rparser r)\<lparr>http_major := 0, http_minor := 9\<rparr>)"
    using ok(3) by (simp add: line_ok_def bounds_ok_def)
  have "outcome_ok e s (CALLBACK_DATA e url_mark (r\<lparr>p_state := s'\<rparr>))"
    "outcome_ok e s (CALLBACK_DATA e url_mark
       (r\<lparr>rparser := (rparser r)\<lparr>http_major := 0, http_minor := 9\<rparr>, p_state := s'\<rparr>))"
    if "s' \<in> {s_req_http_start, s_req_line_almost_done, s_header_field_start}" for s'
    using ok assms(2) that line_states_ok [of s'] old
    by (intro leave_mark [OF ok(1) url]; auto simp: line_states_def)+
  moreover have "outcome_ok e s (url_step e r)"
    using url_step_ok [OF ok(2) marks_only(3) [OF ok(1) url] ok(3)] assms(3) by simp
  ultimately show ?thesis by (simp add: do_req_url_def UPDATE_STATE_def on_parser_def)
qed

end

end
