(* ===== verification/Http_Headers_Safe.thy ===== *)
theory Http_Headers_Safe
  imports Http_Start_Safe
begin

text \<open>The states that read header fields preserve the invariant.\<close>

section \<open>Decimal and hexadecimal accumulation\<close>

lemma ULLONG_MAX_unat: "unat ULLONG_MAX = 2 ^ 64 - 1"
  by (simp add: ULLONG_MAX_def unsigned_minus_1_eq_mask mask_eq_exp_minus_1)

lemma limit10: "unat ((ULLONG_MAX - 10) div 10) = (2 ^ 64 - 11) div 10"
  by (simp add: ULLONG_MAX_def unat_div)

lemma limit16: "unat ((ULLONG_MAX - 16) div 16) = (2 ^ 64 - 17) div 16"
  by (simp add: ULLONG_MAX_def unat_div)

lemma accumulate10:
  assumes "\<not> (ULLONG_MAX - 10) div 10 < v" "unat d \<le> 9"
  shows "unat (v * 10 + d) = unat v * 10 + unat d" "v * 10 + d \<noteq> ULLONG_MAX"
proof -
  have "unat v \<le> (2 ^ 64 - 11) div 10"
    using assms(1) unfolding not_less word_le_nat_alt limit10 .
  then have le: "unat v * 10 + unat d < 2 ^ 64 - 1" using assms(2) by simp
  have "unat (v * 10) = unat v * 10" using le by (simp add: unat_word_ariths)
  then show eq: "unat (v * 10 + d) = unat v * 10 + unat d"
    using le by (subst unat_add_no_wrap) simp_all
  show "v * 10 + d \<noteq> ULLONG_MAX" using le eq ULLONG_MAX_unat by force
qed

lemma accumulate16:
  assumes "\<not> (ULLONG_MAX - 16) div 16 < v" "unat d \<le> 15"
  shows "unat (v * 16 + d) = unat v * 16 + unat d" "v * 16 + d \<noteq> ULLONG_MAX"
proof -
  have "unat v \<le> (2 ^ 64 - 17) div 16"
    using assms(1) unfolding not_less word_le_nat_alt limit16 .
  then have le: "unat v * 16 + unat d < 2 ^ 64 - 1" using assms(2) by simp
  have "unat (v * 16) = unat v * 16" using le by (simp add: unat_word_ariths)
  then show eq: "unat (v * 16 + d) = unat v * 16 + unat d"
    using le by (subst unat_add_no_wrap) simp_all
  show "v * 16 + d \<noteq> ULLONG_MAX" using le eq ULLONG_MAX_unat by force
qed

lemma unat_digit: "IS_NUM c \<Longrightarrow> unat (digit c :: uint64) = byte_index c - 48"
  "IS_NUM c \<Longrightarrow> unat (digit c :: uint64) \<le> 9"
proof -
  assume "IS_NUM c"
  then have "byte_index c - 48 \<le> 9" unfolding IS_NUM_iff by linarith
  moreover from this show "unat (digit c :: uint64) = byte_index c - 48"
    unfolding digit_def by (simp add: unat_of_nat take_bit_nat_eq_self del: of_nat_diff)
  ultimately show "unat (digit c :: uint64) \<le> 9" by simp
qed

section \<open>What the invariant says of the header states\<close>

definition value_ok :: "header_states \<Rightarrow> http_parser \<Rightarrow> bool" where
  "value_ok h q \<longleftrightarrow>
     h \<notin> {h_connection, h_transfer_encoding, h_content_length} \<and>
     (h \<in> {h_content_length_num, h_content_length_ws} \<longrightarrow> flagged q 7)"

lemma value_ok_header_state [simp]: "value_ok h (q\<lparr>header_state := h'\<rparr>) = value_ok h q"
  by (simp add: value_ok_def)

lemma parser_ok_field:
  "s \<in> {s_header_field, s_header_value_discard_ws, s_header_value_discard_ws_almost_done, s_header_value_discard_lws} \<Longrightarrow>
   parser_ok s q \<longleftrightarrow> line_ok q \<and> header_state q \<in> field_states"
  by (cases s) (simp_all add: parser_ok_defs line_ok_def PARSING_HEADER_iff between_messages_def chunk_states_def conj_ac)

lemma parser_ok_value:
  "s \<in> {s_header_value, s_header_almost_done, s_header_value_lws, s_header_value_start} \<Longrightarrow>
   parser_ok s q \<longleftrightarrow> line_ok q \<and> value_ok (header_state q) q"
  by (cases s) (simp_all add: parser_ok_defs line_ok_def value_ok_def PARSING_HEADER_iff between_messages_def chunk_states_def conj_ac)

lemma env_ok_p [simp]: "env_ok e r \<Longrightarrow> p < length (edata e) \<Longrightarrow> env_ok e (r\<lparr>rp := p\<rparr>)"
  by (simp add: env_ok_def)

lemma count_ok:
  assumes "env_ok e r" and "\<And>n. env_ok e (r\<lparr>rnread := n\<rparr>) \<Longrightarrow> outcome_ok e s (K (r\<lparr>rnread := n\<rparr>))"
  shows "outcome_ok e s (andthen (COUNT_HEADER_SIZE e v r) K)"
  using assms by (auto simp: COUNT_HEADER_SIZE_def Let_def callback_errno_def env_ok_def not_less)

lemma count_ok_last:
  assumes "env_ok e r" and "marks_ok r" "parser_ok (p_state r) (rparser r)" "p_state r \<noteq> s_chunk_size_start"
  shows "outcome_ok e s (COUNT_HEADER_SIZE e v r)"
proof -
  have "outcome_ok e s (andthen (COUNT_HEADER_SIZE e v r) Next)"
    using assms by (intro count_ok) (simp_all add: run_ok_def marks_ok_def)
  then show ?thesis by (cases "COUNT_HEADER_SIZE e v r") simp_all
qed

section \<open>Field names\<close>

text \<open>The fields a header may not touch.\<close>

definition same_control :: "http_parser \<Rightarrow> http_parser \<Rightarrow> bool" where
  "same_control q q' \<longleftrightarrow>
     http_errno q' = http_errno q \<and> nread q' = nread q \<and> lenient_http_headers q' = lenient_http_headers q \<and>
     allow_chunked_length q' = allow_chunked_length q"

lemma same_control_env: "same_control (rparser r) q \<Longrightarrow> env_ok e (r\<lparr>rparser := q\<rparr>) = env_ok e r"
  by (simp add: same_control_def)

lemma same_control_refl [simp]: "same_control q q"
  by (simp add: same_control_def)

lemma field_start_state_ok [simp]: "field_start_state c \<in> field_states"
  by (simp add: field_start_state_def field_states_def)

lemma do_header_field_start_ok:
  assumes "run_ok 1 e r" "p_state r = s_header_field_start"
  shows "outcome_ok e s_header_field_start (do_header_field_start e r)"
  using assms line_step [OF assms(1)]
  by (simp add: do_header_field_start_def macro_simps run_ok_def line_states_ok line_member rank_def MARK_def
      mark_states_def parser_ok_field)

lemma match_field_ok:
  "line_ok q \<Longrightarrow> header_state q \<in> field_states \<Longrightarrow> done \<in> field_states \<Longrightarrow>
   line_ok (match_field name done c q) \<and> header_state (match_field name done c q) \<in> field_states \<and>
   same_control q (match_field name done c q)"
  by (simp add: match_field_def Let_def next_index_def same_control_def split: name_match.split)
    (simp add: field_states_def)

lemma header_field_char_ok:
  assumes "line_ok q" "header_state q \<in> field_states" "header_state q \<noteq> h_general"
  shows "\<exists>q'. header_field_char c ch q = Inr q' \<and> line_ok q' \<and> header_state q' \<in> field_states \<and> same_control q q'"
proof -
  note m = match_field_ok [OF assms(1,2)]
  have [simp]: "h_general \<in> field_states" "h_connection \<in> field_states" "h_content_length \<in> field_states"
    "h_transfer_encoding \<in> field_states" "h_upgrade \<in> field_states" "h_CO \<in> field_states" "h_CON \<in> field_states"
    "h_matching_connection \<in> field_states" "h_matching_content_length \<in> field_states"
    by (simp_all add: field_states_def)
  have "header_state q \<in> field_states - {h_general}" using assms(2,3) by simp
  then show ?thesis
    using m [of h_connection CONNECTION c] m [of h_connection PROXY_CONNECTION c] assms(1)
      m [of h_content_length CONTENT_LENGTH c] m [of h_transfer_encoding TRANSFER_ENCODING c] m [of h_upgrade UPGRADE c]
    by (cases "header_state q")
      (simp_all add: header_field_char_def next_index_def same_control_def Let_def, simp_all add: field_states_def)
qed

lemma chunk_end_le: "p \<le> length (edata e) \<Longrightarrow> chunk_end e p \<le> length (edata e)"
  by (simp add: chunk_end_def)

lemma skip_tokens_less: "p < m \<Longrightarrow> pe \<le> m \<Longrightarrow> skip_tokens e pe p < m"
proof (induction e pe p rule: skip_tokens.induct)
  case (1 e pe p)
  then show ?case by (subst skip_tokens.simps) auto
qed

lemma header_field_loop_ok:
  assumes "line_ok q" "header_state q \<in> field_states" "p \<le> length (edata e)"
  shows "\<exists>q' p' ch'. header_field_loop e q p ch = Inr (q', p', ch') \<and> p \<le> p' \<and> p' \<le> length (edata e) \<and>
    line_ok q' \<and> header_state q' \<in> field_states \<and> same_control q q'"
  using assms
proof (induction e q p ch rule: header_field_loop.induct)
  case (1 e q p ch0)
  show ?case
  proof (cases "p = length (edata e) \<or> TOKEN (estrict e) (edata e ! p) = NUL")
    case True
    then show ?thesis using 1(3-) by (subst header_field_loop.simps) (auto simp: Let_def)
  next
    case False
    then have p: "p < length (edata e)" using 1(5) by simp
    show ?thesis
    proof (cases "header_state q = h_general")
      case True
      let ?p = "Suc (skip_tokens e (chunk_end e p) p)"
      have "?p \<le> length (edata e)" using skip_tokens_less [OF p chunk_end_le, of p e] p by (simp add: Suc_le_eq)
      then show ?thesis using 1(1) [OF _ _ refl refl _ True] 1(3,4) p False True skip_tokens_ge [of p e "chunk_end e p"]
        by (subst header_field_loop.simps) (force simp: Let_def)
    next
      case g: False
      obtain q1 where q1: "header_field_char (TOKEN (estrict e) (edata e ! p)) (edata e ! p) q = Inr q1"
        "line_ok q1" "header_state q1 \<in> field_states" "same_control q q1"
        using header_field_char_ok [OF 1(3,4) g] by blast
      have "\<exists>q' p' ch'. header_field_loop e q1 (Suc p) (edata e ! p) = Inr (q', p', ch') \<and> Suc p \<le> p' \<and>
          p' \<le> length (edata e) \<and> line_ok q' \<and> header_state q' \<in> field_states \<and> same_control q1 q'"
        using 1(2) [OF _ _ refl refl _ g q1(1)] q1(2,3) p False by simp
      then show ?thesis using q1(1,4) p False g
        by (subst header_field_loop.simps) (auto simp: Let_def same_control_def)
    qed
  qed
qed

section \<open>Values\<close>

lemma line_ok_flag [simp]:
  "line_ok (add_flag F_CHUNKED q) = line_ok q"
  "line_ok (add_flag F_CONNECTION_KEEP_ALIVE q) = line_ok q"
  "line_ok (add_flag F_CONNECTION_CLOSE q) = line_ok q"
  "line_ok (add_flag F_CONNECTION_UPGRADE q) = line_ok q"
  "line_ok (add_flag F_UPGRADE q) = line_ok q"
  by (simp_all add: line_ok_def bounds_ok_def)

lemma digit_not_max: "IS_NUM c \<Longrightarrow> (digit c :: uint64) \<noteq> ULLONG_MAX"
  using unat_digit(2) [of c] ULLONG_MAX_unat by force

lemma do_header_value_start_ok:
  assumes env: "env_ok e r" and marks: "marks r = (\<lambda>_. None)" and line: "line_ok (rparser r)"
    and h: "header_state (rparser r) = h_content_length_ws \<longrightarrow> flagged (rparser r) 7"
  shows "outcome_ok e s (do_header_value_start r)"
proof -
  have [simp]: "parser_ok s_header_value q \<longleftrightarrow> line_ok q \<and> value_ok (header_state q) q" for q
    by (simp add: parser_ok_value)
  have "IS_NUM (rch r) \<Longrightarrow> line_ok ((add_flag F_CONTENTLENGTH (rparser r))\<lparr>content_length := digit (rch r)\<rparr>)"
    using line digit_not_max [of "rch r"] by (simp add: line_ok_def bounds_ok_def)
  then show ?thesis using env marks line h
    by (cases "header_state (rparser r)")
      (simp_all add: do_header_value_start_def macro_simps MARK_def run_ok_def mark_states_def value_ok_def line_ok_def bounds_ok_def)
qed

definition loop_ok :: "'w env \<Rightarrow> nat \<Rightarrow> header_states \<Rightarrow> 'w run \<Rightarrow> bool" where
  "loop_ok e start h r \<longleftrightarrow>
     env_ok e r \<and> line_ok (rparser r) \<and> value_ok h (rparser r) \<and> p_state r = s_header_value \<and>
     (\<forall>k i. marks r k = Some i \<longrightarrow> k = header_value_mark \<and> i \<le> start)"

lemma content_length_digit_ok:
  assumes "loop_ok e start h_content_length_num r"
  shows "case content_length_digit h_content_length_num r of
           Inl x \<Rightarrow> outcome_ok e s x
         | Inr (h1, r1) \<Rightarrow> loop_ok e start h1 r1"
proof -
  have "IS_NUM (rch r) \<Longrightarrow> \<not> (ULLONG_MAX - 10) div 10 < content_length (rparser r) \<Longrightarrow>
      content_length (rparser r) * 10 + digit (rch r) \<noteq> ULLONG_MAX"
    using accumulate10(2) unat_digit(2) by blast
  then show ?thesis using assms
    by (auto simp: content_length_digit_def loop_ok_def macro_simps SET_ERRNO_def outcome_ok_def value_ok_def line_ok_def bounds_ok_def)
qed

lemma match_value_ok:
  assumes "loop_ok e start h r" "value_ok h1 (rparser r)" "value_ok h2 (rparser r)"
  shows "case match_value name h h1 h2 c r of (h', r') \<Rightarrow> loop_ok e start h' r'"
  using assms by (auto simp: match_value_def loop_ok_def macro_simps value_ok_def split: name_match.split)

lemma connection_end_ok:
  assumes "loop_ok e start h r"
  shows "case connection_end h r of (h', r') \<Rightarrow> loop_ok e start h' r'"
  using assms by (auto simp: connection_end_def connection_flag_def loop_ok_def macro_simps value_ok_def)

lemma header_value_char_ok:
  assumes "loop_ok e start h r" "h \<noteq> h_general"
  shows "case header_value_char h r of
           Inl x \<Rightarrow> outcome_ok e s x
         | Inr (h1, r1) \<Rightarrow> loop_ok e start h1 r1"
proof -
  have other: "loop_ok e start h1 r" if "h1 \<notin> {h_connection, h_transfer_encoding, h_content_length,
      h_content_length_num, h_content_length_ws}" for h1
    using assms(1) that by (auto simp: loop_ok_def value_ok_def)
  have zero: "loop_ok e start h1 (r\<lparr>rparser := (rparser r)\<lparr>index := 0\<rparr>\<rparr>)" if "loop_ok e start h1 r" for h1
    using that by (simp add: loop_ok_def macro_simps value_ok_def)
  have st: "UPDATE_STATE s_header_value r = r" using assms(1) by (simp add: UPDATE_STATE_def loop_ok_def)
  have rp: "rp r < length (edata e)" using assms(1) by (simp add: loop_ok_def)
  have good: "h \<notin> {h_connection, h_transfer_encoding, h_content_length}" using assms(1) by (simp add: loop_ok_def value_ok_def)
  note m = match_value_ok [OF assms(1), of h_matching_transfer_encoding_token h_transfer_encoding_chunked CHUNKED "LOWER (rch r)"]
    match_value_ok [OF assms(1), of h_matching_connection_token h_connection_keep_alive KEEP_ALIVE "LOWER (rch r)"]
    match_value_ok [OF assms(1), of h_matching_connection_token h_connection_close CLOSE "LOWER (rch r)"]
    match_value_ok [OF assms(1), of h_matching_connection_token h_connection_upgrade UPGRADE "LOWER (rch r)"]
  show ?thesis
    using good assms m connection_end_ok [OF assms(1)] content_length_digit_ok [of e start r s]
    by (cases h) (auto simp: header_value_char_def Let_def other zero st value_ok_def rp outcome_ok_def SET_ERRNO_def on_parser_def)
qed

lemma skip_value_le: "p \<le> pe \<Longrightarrow> fst (snd (skip_value e pe p ch)) \<le> pe"
  "p \<le> pe \<Longrightarrow> \<not> fst (skip_value e pe p ch) \<Longrightarrow> fst (snd (skip_value e pe p ch)) < pe"
proof (induction e pe p ch rule: skip_value.induct)
  case (1 e pe p ch0)
  { case 1
    then show ?case using "1.IH" by (subst skip_value.simps) (auto simp: Let_def)
  next
    case 2
    then show ?case using "1.IH" by (subst skip_value.simps, subst (asm) skip_value.simps) (auto simp: Let_def)
  }
qed

lemma skip_value_bounds:
  assumes "skip_value e (chunk_end e p) p ch = (ok, p1, ch1)" "p < length (edata e)"
  shows "Suc (last_byte e p1) \<le> length (edata e)" "\<not> ok \<Longrightarrow> p1 < length (edata e)"
proof -
  have pe: "p \<le> chunk_end e p" "chunk_end e p \<le> length (edata e)"
    using assms(2) by (simp_all add: chunk_end_def)
  have "p1 \<le> length (edata e)" using skip_value_le(1) [OF pe(1), of e ch] assms(1) pe(2) by simp
  then show "Suc (last_byte e p1) \<le> length (edata e)" using assms(2) by (auto simp: last_byte_def)
  show "p1 < length (edata e)" if "\<not> ok"
    using skip_value_le(2) [OF pe(1), of e ch] assms(1) pe(2) that by simp
qed

lemma end_of_value_ok:
  assumes "env_ok e (r\<lparr>rp := last_byte e (rp r)\<rparr>)" "line_ok (rparser r)" "value_ok h (rparser r)"
    and "p_state r \<in> {s_header_value, s_header_almost_done}"
    and "\<forall>k i. marks r k = Some i \<longrightarrow> p_state r \<in> mark_states k \<and> i \<le> last_byte e (rp r)"
  shows "outcome_ok e s (end_of_value e start h r)"
proof -
  let ?q = "(rparser r)\<lparr>header_state := h\<rparr>"
  have "parser_ok (p_state r) ?q" using assms(2-4) parser_ok_value [of "p_state r" ?q] by (auto simp: value_ok_def)
  then show ?thesis using assms unfolding end_of_value_def on_parser_def Let_def
    by (intro count_ok_last) (auto simp: marks_ok_def env_ok_def)
qed

lemma same_run_header:
  assumes "same_run r r'"
  shows "env_ok e r' = env_ok e r" "line_ok (rparser r') = line_ok (rparser r)"
    "value_ok h (rparser r') = value_ok h (rparser r)"
  using assms unfolding same_run_def by (auto simp: env_ok_def value_ok_def line_ok_def bounds_ok_def)

context embedder
begin

lemma do_header_field_ok:
  assumes "run_ok 1 e r" "settings e = ss" "p_state r = s_header_field"
  shows "outcome_ok e s_header_field (do_header_field e r)"
proof -
  have ok: "marks_ok r" "env_ok e r" "line_ok (rparser r)" "header_state (rparser r) \<in> field_states"
    using assms parser_ok_field [of s_header_field] by (simp_all add: run_ok_def)
  then have rp: "rp r < length (edata e)" by simp
  obtain q p ch where loop: "header_field_loop e (rparser r) (rp r) (rch r) = Inr (q, p, ch)"
    and p: "rp r \<le> p" "p \<le> length (edata e)"
    and q: "line_ok q" "header_state q \<in> field_states" "same_control (rparser r) q"
    using header_field_loop_ok [OF ok(3,4) less_imp_le [OF rp], of "rch r"] by blast
  note only = marks_only [OF ok(1), of header_field_mark]
  have marks: "\<forall>k i. marks r k = Some i \<longrightarrow> k = header_field_mark \<and> i \<le> rp r"
    using only(3) assms(3) by (simp add: mark_states_def)
  have fs: "parser_ok s_header_field q" "parser_ok s_header_value_discard_ws q"
    using q(1,2) by (simp_all add: parser_ok_field)
  have env: "p' < length (edata e) \<Longrightarrow> env_ok e (r\<lparr>rparser := q, rp := p', rch := ch\<rparr>)" for p'
    using ok(2) q(3) by (simp add: env_ok_def same_control_def)
  show ?thesis
  proof (cases "p = length (edata e)")
    case True
    then have "rp r \<le> p - 1" "p - 1 < length (edata e)" using rp by simp_all
    moreover have "marks_ok (r\<lparr>rparser := q, rch := ch, rp := p - 1\<rparr>)"
      using marks calculation(1) assms(3) by (force simp: marks_ok_def mark_states_def)
    moreover have "env_ok e (r\<lparr>rparser := q, rch := ch, rp := p - 1\<rparr>)"
      using env [OF calculation(2)] by (simp add: env_ok_def)
    ultimately show ?thesis using True fs(1) assms(3)
      by (auto simp: do_header_field_def loop Let_def intro!: count_ok_last)
  next
    case False
    then have less: "p < length (edata e)" using p by simp
    have none: "(marks r)(header_field_mark := None) = (\<lambda>_. None)"
      using only(1) assms(3) by (simp add: mark_states_def)
    have mark: "m \<le> p" if "marks r header_field_mark = Some m" for m
      using marks that p(1) by fastforce
    have "outcome_ok e s_header_field (CALLBACK_DATA e header_field_mark
        (r\<lparr>rparser := q, rp := p, rch := ch, rnread := n, p_state := s_header_value_discard_ws\<rparr>))"
      if "env_ok e (r\<lparr>rparser := q, rp := p, rch := ch, rnread := n\<rparr>)" for n
      using that fs(2) assms(2) none mark by (intro data_outcome_last) (simp_all add: run_ok_def)
    then show ?thesis using False less env [OF less]
      by (auto simp: do_header_field_def loop Let_def callback_errno_def UPDATE_STATE_def intro!: count_ok)
  qed
qed

lemma value_callback_ok:
  assumes ss: "settings e = ss" and loop: "loop_ok e start h r0" and p: "start \<le> p" "p < length (edata e)"
    and r1: "p_state r1 = s_header_almost_done" "rparser r1 = (rparser r0)\<lparr>header_state := h\<rparr>" "marks r1 = marks r0"
      "env_ok e r1" "er \<le> length (edata e)"
    and K: "\<And>r'. same_run (r1\<lparr>marks := (\<lambda>_. None)\<rparr>) r' \<Longrightarrow> outcome_ok e s_header_value (K r')"
  shows "outcome_ok e s_header_value (andthen (CALLBACK_DATA_ER e header_value_mark p er r1) K)"
proof (rule data_outcome [OF ss])
  have ok: "line_ok (rparser r0)" "value_ok h (rparser r0)" "\<forall>k i. marks r0 k = Some i \<longrightarrow> k = header_value_mark \<and> i \<le> start"
    using loop by (simp_all add: loop_ok_def)
  have none: "(marks r0)(header_value_mark := None) = (\<lambda>_. None)" using ok(3) by (intro ext) (metis fun_upd_apply not_None_eq)
  have "parser_ok s_header_almost_done ((rparser r0)\<lparr>header_state := h\<rparr>)"
    using ok(1,2) by (simp add: parser_ok_value value_ok_def)
  then show "run_ok 0 e (r1\<lparr>marks := (marks r1)(header_value_mark := None)\<rparr>)"
    using r1 none by (simp add: run_ok_def)
  show "\<forall>m. marks r1 header_value_mark = Some m \<longrightarrow> m \<le> p"
    using ok(3) p(1) r1(3) by fastforce
  show "outcome_ok e s_header_value (K r')"
    if "same_run (r1\<lparr>marks := (marks r1)(header_value_mark := None)\<rparr>) r'" for r'
    using that K none r1(3) by simp
qed (use r1(1,5) p(2) in simp_all)

text \<open>The two ways a value ends, at a carriage return and at a line feed.\<close>

lemma value_CR_ok:
  assumes ss: "settings e = ss" and loop: "loop_ok e start h r0" and p: "start \<le> p" "p < length (edata e)" and ch: "edata e ! p = CR"
  shows "outcome_ok e s_header_value (header_value_loop e start p h r0)"
proof -
  let ?r1 = "r0\<lparr>rp := p, rch := CR, p_state := s_header_almost_done, rparser := (rparser r0)\<lparr>header_state := h\<rparr>\<rparr>"
  have ok: "line_ok (rparser r0)" "value_ok h (rparser r0)" using loop by (simp_all add: loop_ok_def)
  have env: "env_ok e ?r1" using loop p(2) by (simp add: loop_ok_def env_ok_def)
  have "outcome_ok e s_header_value (end_of_value e start h r')"
    if "same_run (?r1\<lparr>marks := (\<lambda>_. None)\<rparr>) r'" for r'
    using same_run_fields [OF that] same_run_header [OF that] env ok p(2)
    by (intro end_of_value_ok) (simp_all add: last_byte_def)
  then have "outcome_ok e s_header_value
      (andthen (CALLBACK_DATA_ER e header_value_mark p (p + 1) ?r1) (end_of_value e start h))"
    using env p(2) by (intro value_callback_ok [OF ss loop p]) (simp_all add: Suc_le_eq)
  then show ?thesis using p(2) ch
    by (subst header_value_loop.simps) (simp add: Let_def CALLBACK_DATA_def on_parser_def UPDATE_STATE_def)
qed

lemma value_LF_ok:
  assumes ss: "settings e = ss" and loop: "loop_ok e start h r0" and p: "start \<le> p" "p < length (edata e)" and ch: "edata e ! p = LF"
  shows "outcome_ok e s_header_value (header_value_loop e start p h r0)"
proof -
  let ?r = "r0\<lparr>rp := p, rch := LF\<rparr>"
  have ok: "line_ok (rparser r0)" "value_ok h (rparser r0)" using loop by (simp_all add: loop_ok_def)
  have env: "env_ok e ?r" using loop p(2) by (simp add: loop_ok_def env_ok_def)
  have "outcome_ok e s_header_value (andthen (CALLBACK_DATA_NOADVANCE e header_value_mark
      (on_parser (\<lambda>q. q\<lparr>header_state := h\<rparr>) (?r\<lparr>p_state := s_header_almost_done, rnread := n\<rparr>))) Reexecute)"
    if n: "env_ok e (?r\<lparr>p_state := s_header_almost_done, rnread := n\<rparr>)" for n
  proof -
    let ?r1 = "?r\<lparr>p_state := s_header_almost_done, rnread := n, rparser := (rparser r0)\<lparr>header_state := h\<rparr>\<rparr>"
    have env1: "env_ok e ?r1" using n by (simp add: env_ok_def)
    have "outcome_ok e s_header_value (Reexecute r')" if "same_run (?r1\<lparr>marks := (\<lambda>_. None)\<rparr>) r'" for r'
      using same_run_fields [OF that] same_run_header [OF that] env1 ok
      by (simp add: run_ok_def rank_def parser_ok_value)
    then show ?thesis using env1 p(2) unfolding CALLBACK_DATA_NOADVANCE_def on_parser_def
      by (simp, intro value_callback_ok [OF ss loop p]) simp_all
  qed
  then show ?thesis using p(2) ch env
    by (subst header_value_loop.simps) (auto simp: Let_def UPDATE_STATE_def env_ok_def intro!: count_ok)
qed

lemma header_value_loop_ok:
  assumes "settings e = ss" "loop_ok e start h r" "start \<le> p" "p \<le> length (edata e)"
    and "start < length (edata e)"
  shows "outcome_ok e s_header_value (header_value_loop e start p h r)"
  using assms
proof (induction e start p h r rule: header_value_loop.induct)
  case (1 e start p h r0)
  let ?ch = "edata e ! p" and ?r = "r0\<lparr>rp := p, rch := edata e ! p\<rparr>"
  show ?case
  proof (cases "p = length (edata e)")
    case True
    have ok: "env_ok e r0" "line_ok (rparser r0)" "value_ok h (rparser r0)" "p_state r0 = s_header_value"
      "\<forall>k i. marks r0 k = Some i \<longrightarrow> k = header_value_mark \<and> i \<le> start"
      using "1.prems"(2) by (simp_all add: loop_ok_def)
    have len: "0 < length (edata e)" using env_ok_rp [OF ok(1)] by linarith
    have "p_state r0 \<in> mark_states k \<and> i \<le> p - 1" if "marks r0 k = Some i" for k i
      using that ok(4,5) "1.prems"(5) True by (fastforce simp: mark_states_def)
    then show ?thesis using True ok(1-4) len
      by (subst header_value_loop.simps) (auto simp: last_byte_def intro!: end_of_value_ok)
  next
    case False
    then have p: "p < length (edata e)" using "1.prems"(4) by simp
    have loop: "loop_ok e start h ?r" using "1.prems"(2) p by (simp add: loop_ok_def env_ok_def)
    consider "?ch = CR" | "?ch = LF" | "?ch \<noteq> CR" "?ch \<noteq> LF" "\<not> lenient e" "\<not> IS_HEADER_CHAR ?ch"
      | "?ch \<noteq> CR" "?ch \<noteq> LF" "lenient e \<or> IS_HEADER_CHAR ?ch" "h = h_general"
      | "?ch \<noteq> CR" "?ch \<noteq> LF" "lenient e \<or> IS_HEADER_CHAR ?ch" "h \<noteq> h_general"
      by blast
    then show ?thesis
    proof cases
      case 1
      then show ?thesis by (rule value_CR_ok [OF "1.prems"(1-3) p])
    next
      case 2
      then show ?thesis by (rule value_LF_ok [OF "1.prems"(1-3) p])
    next
      case 3
      then show ?thesis using p by (subst header_value_loop.simps) (simp add: Let_def callback_errno_def)
    next
      case 4
      obtain okv p1 ch1 where skip: "skip_value e (chunk_end e p) p ?ch = (okv, p1, ch1)" by (metis prod_cases3)
      note b = skip_value_bounds [OF skip p]
      have "p \<le> last_byte e p1" using skip_value_progress [OF skip [symmetric]] 4 p by (auto simp: last_byte_def)
      moreover have "loop_ok e start h (?r\<lparr>rch := ch1\<rparr>)" using loop by (simp add: loop_ok_def)
      ultimately show ?thesis
        using "1.IH"(1) [OF _ _ refl refl _ _ _ _ skip [symmetric] refl] 4 b skip p False "1.prems"
        by (subst header_value_loop.simps) (simp add: Let_def callback_errno_def)
    next
      case 5
      show ?thesis
      proof (cases "header_value_char h ?r")
        case (Inl x)
        then show ?thesis using header_value_char_ok [OF loop 5(4), of s_header_value] 5 p
          by (subst header_value_loop.simps) (simp add: Let_def callback_errno_def)
      next
        case (Inr y)
        obtain h1 r1 where y: "y = (h1, r1)" by (cases y)
        have "loop_ok e start h1 r1" using header_value_char_ok [OF loop 5(4), of s_header_value] Inr y by simp
        then show ?thesis
          using "1.IH"(2) [OF _ _ refl refl _ _ _ _ Inr y [symmetric]] 5 Inr y p "1.prems"
          by (subst header_value_loop.simps) (simp add: Let_def callback_errno_def)
      qed
    qed
  qed
qed

lemma do_header_value_ok:
  assumes "run_ok 1 e r" "settings e = ss" "p_state r = s_header_value"
  shows "outcome_ok e s_header_value (do_header_value e r)"
proof -
  have ok: "marks_ok r" "env_ok e r" "line_ok (rparser r)" "value_ok (header_state (rparser r)) (rparser r)"
    using assms parser_ok_value [of s_header_value] by (simp_all add: run_ok_def)
  have "\<forall>k i. marks r k = Some i \<longrightarrow> k = header_value_mark \<and> i \<le> rp r"
    using marks_only(3) [OF ok(1), of header_value_mark] assms(3) by (simp add: mark_states_def)
  then have "loop_ok e (rp r) (header_state (rparser r)) r" using ok assms(3) by (simp add: loop_ok_def)
  moreover have "rp r < length (edata e)" using ok(2) by simp
  ultimately show ?thesis unfolding do_header_value_def using assms(2)
    by (intro header_value_loop_ok) simp_all
qed

lemma do_header_value_discard_lws_ok:
  assumes "run_ok 1 e r" "settings e = ss" "p_state r = s_header_value_discard_lws"
  shows "outcome_ok e s_header_value_discard_lws (do_header_value_discard_lws e r)"
proof -
  have ok: "marks r = (\<lambda>_. None)" "env_ok e r" "line_ok (rparser r)" "header_state (rparser r) \<in> field_states"
    using run_ok_unmarked [OF assms(1)] assms(3) parser_ok_field [of s_header_value_discard_lws]
    by (simp_all add: line_member)
  then have flag: "value_flag (rparser r) = rparser r"
    by (auto simp: value_flag_def connection_flag_def field_states_def)
  let ?r = "r\<lparr>marks := (\<lambda>_. None)(header_value_mark := Some (rp r)), p_state := s_header_field_start\<rparr>"
  have "outcome_ok e s_header_value_discard_lws
      (andthen (CALLBACK_DATA_NOADVANCE e header_value_mark ?r) Reexecute)"
    unfolding CALLBACK_DATA_NOADVANCE_def
  proof (rule data_outcome [OF assms(2)])
    show "run_ok 0 e (?r\<lparr>marks := (marks ?r)(header_value_mark := None)\<rparr>)"
      using ok by (simp add: run_ok_def line_states_ok line_states_def)
    show "outcome_ok e s_header_value_discard_lws (Reexecute r')"
      if "same_run (?r\<lparr>marks := (marks ?r)(header_value_mark := None)\<rparr>) r'" for r'
      using same_run_fields [OF that] same_run_header(1,2) [OF that] ok
      by (simp add: run_ok_def line_states_ok line_states_def rank_def)
  qed (use ok(2) in \<open>simp_all add: less_imp_le\<close>)
  then show ?thesis using ok assms(3) flag
    by (simp add: do_header_value_discard_lws_def callback_errno_def UPDATE_STATE_def MARK_def on_parser_def run_ok_def
        parser_ok_field)
qed

end

lemma value_flag_ok [simp]: "line_ok (value_flag q) = line_ok q"
  by (simp add: value_flag_def connection_flag_def)

lemma value_flag_env [simp]:
  "http_errno (value_flag q) = http_errno q" "nread (value_flag q) = nread q"
  "lenient_http_headers (value_flag q) = lenient_http_headers q"
  "allow_chunked_length (value_flag q) = allow_chunked_length q"
  by (simp_all add: value_flag_def connection_flag_def)

lemma header_line_ok:
  assumes "run_ok 1 e r"
  shows "p_state r = s_header_value_discard_ws \<Longrightarrow> outcome_ok e s_header_value_discard_ws (do_header_value_discard_ws r)"
    "p_state r = s_header_value_start \<Longrightarrow> outcome_ok e s_header_value_start (do_header_value_start r)"
    "p_state r = s_header_almost_done \<Longrightarrow> outcome_ok e s_header_almost_done (do_header_almost_done r)"
    "p_state r = s_header_value_lws \<Longrightarrow> outcome_ok e s_header_value_lws (do_header_value_lws r)"
    "p_state r = s_header_value_discard_ws_almost_done \<Longrightarrow>
       outcome_ok e s_header_value_discard_ws_almost_done (do_header_value_discard_ws_almost_done e r)"
proof -
  note un = run_ok_unmarked [OF assms]
  show "outcome_ok e s_header_value_discard_ws (do_header_value_discard_ws r)" if "p_state r = s_header_value_discard_ws"
  proof -
    have ok: "marks r = (\<lambda>_. None)" "env_ok e r" "line_ok (rparser r)" "header_state (rparser r) \<in> field_states"
      using un that by (simp_all add: line_member parser_ok_field)
    moreover have "header_state (rparser r) \<noteq> h_content_length_ws" using ok(4) by (auto simp: field_states_def)
    ultimately show ?thesis using that do_header_value_start_ok [of e r]
      by (simp add: do_header_value_discard_ws_def run_ok_def UPDATE_STATE_def parser_ok_field)
  qed
  have ok: "marks r = (\<lambda>_. None)" "env_ok e r" "line_ok (rparser r)" "value_ok (header_state (rparser r)) (rparser r)"
    if "p_state r \<in> {s_header_value_start, s_header_almost_done, s_header_value_lws}"
    using un that by (auto simp: line_member parser_ok_value)
  show "outcome_ok e s_header_value_start (do_header_value_start r)" if "p_state r = s_header_value_start"
    using ok that by (intro do_header_value_start_ok) (simp_all add: value_ok_def)
  show "outcome_ok e s_header_almost_done (do_header_almost_done r)" if "p_state r = s_header_almost_done"
    using ok that by (simp add: do_header_almost_done_def callback_errno_def run_ok_def UPDATE_STATE_def parser_ok_value)
  show "outcome_ok e s_header_value_lws (do_header_value_lws r)" if "p_state r = s_header_value_lws"
    using ok that
    by (simp add: do_header_value_lws_def run_ok_def macro_simps parser_ok_value line_states_ok line_states_def rank_def value_ok_def)
  show "outcome_ok e s_header_value_discard_ws_almost_done (do_header_value_discard_ws_almost_done e r)"
    if "p_state r = s_header_value_discard_ws_almost_done"
    unfolding do_header_value_discard_ws_almost_done_def using un that
    by (intro expect_ok [OF assms]) (simp_all add: line_member parser_ok_field)
qed

end
