(* ===== verification/Http_Body_Safe.thy ===== *)
theory Http_Body_Safe
  imports Http_Headers_Safe
begin

text \<open>
  The end of the headers, bodies and chunks preserve the invariant; so do the switch and the
  jumps between states for one byte.
\<close>

section \<open>What the invariant says of the body states\<close>

lemma parser_ok_headers_done:
  "parser_ok s_headers_done q \<longleftrightarrow>
     bounds_ok q \<and> \<not> flagged q 4 \<and> (flagged q 7 \<longleftrightarrow> content_length q \<noteq> ULLONG_MAX) \<and>
     (uses_transfer_encoding q \<and> flagged q 7 \<longrightarrow>
        (if flagged q 0 then allow_chunked_length q else lenient_http_headers q))"
  by (simp add: parser_ok_defs PARSING_HEADER_iff between_messages_def chunk_states_def) blast

definition framed :: "http_parser \<Rightarrow> bool" where
  "framed q \<longleftrightarrow> bounds_ok q \<and>
     (uses_transfer_encoding q \<and> flagged q 7 \<longrightarrow>
        (if flagged q 0 then allow_chunked_length q else lenient_http_headers q))"

lemma parser_ok_body:
  "parser_ok s_body_identity q \<longleftrightarrow>
     framed q \<and> content_length q \<noteq> 0 \<and> content_length q \<noteq> ULLONG_MAX \<and> flagged q 7 \<and> \<not> flagged q 0 \<and>
     \<not> uses_transfer_encoding q"
  "parser_ok s_body_identity_eof q \<longleftrightarrow> framed q"
  "parser_ok s_message_done q \<longleftrightarrow> bounds_ok q"
  by (auto simp: parser_ok_defs framed_def PARSING_HEADER_iff between_messages_def chunk_states_def)

lemma parser_ok_chunk:
  "parser_ok s_chunk_size_start q \<longleftrightarrow> framed q \<and> flagged q 0"
  "s \<in> {s_chunk_size, s_chunk_parameters, s_chunk_size_almost_done} \<Longrightarrow>
     parser_ok s q \<longleftrightarrow> framed q \<and> flagged q 0 \<and> content_length q \<noteq> ULLONG_MAX"
  "parser_ok s_chunk_data q \<longleftrightarrow>
     framed q \<and> flagged q 0 \<and> content_length q \<noteq> 0 \<and> content_length q \<noteq> ULLONG_MAX"
  "parser_ok s_chunk_data_almost_done q \<longleftrightarrow> framed q \<and> flagged q 0 \<and> content_length q = 0"
  "parser_ok s_chunk_data_done q \<longleftrightarrow> framed q \<and> flagged q 0"
  by (simp_all add: parser_ok_defs framed_def PARSING_HEADER_iff between_messages_def chunk_states_def conj_ac)
    (cases s; simp add: conj_ac)

lemma framed_update [simp]:
  "framed (q\<lparr>content_length := n\<rparr>) = framed q"
  "framed (q\<lparr>nread := m\<rparr>) = framed q"
  "framed (q\<lparr>pdata := d\<rparr>) = framed q"
  "framed (q\<lparr>pstate := s\<rparr>) = framed q"
  by (simp_all add: framed_def bounds_ok_def)

lemma bounds_ok_update [simp]:
  "bounds_ok (q\<lparr>content_length := n\<rparr>) = bounds_ok q"
  "bounds_ok (q\<lparr>nread := m\<rparr>) = bounds_ok q"
  "bounds_ok (q\<lparr>pdata := d\<rparr>) = bounds_ok q"
  "bounds_ok (q\<lparr>pstate := s\<rparr>) = bounds_ok q"
  "bounds_ok (q\<lparr>upgrade := u\<rparr>) = bounds_ok q"
  "bounds_ok (q\<lparr>http_errno := err\<rparr>) = bounds_ok q"
  "bounds_ok (add_flag f q) = bounds_ok q"
  by (simp_all add: bounds_ok_def)

lemma framed_bounds: "framed q \<Longrightarrow> bounds_ok q"
  by (simp add: framed_def)

lemma NEW_MESSAGE_between: "NEW_MESSAGE strict q \<in> between_messages"
  by (simp add: NEW_MESSAGE_def start_state_def between_messages_def)

lemma env_ok_zero [simp]: "env_ok e r \<Longrightarrow> env_ok e (zero_nread r)"
  by (simp add: env_ok_def zero_nread_def on_parser_def)

lemma zero_nread_simps [simp]:
  "p_state (zero_nread r) = p_state r" "rp (zero_nread r) = rp r" "marks (zero_nread r) = marks r"
  "rnread (zero_nread r) = 0" "rparser (zero_nread r) = (rparser r)\<lparr>nread := 0\<rparr>" "rch (zero_nread r) = rch r"
  by (simp_all add: zero_nread_def on_parser_def)

lemma new_message_ok:
  assumes "env_ok e r" "marks r = (\<lambda>_. None)" "bounds_ok (rparser r)"
  shows "run_ok k e (new_message e r)" "p_state (new_message e r) \<noteq> s_chunk_size_start"
proof -
  have s: "NEW_MESSAGE (estrict e) (rparser r) \<in> between_messages" by (rule NEW_MESSAGE_between)
  then show "p_state (new_message e r) \<noteq> s_chunk_size_start"
    by (auto simp: new_message_def UPDATE_STATE_def between_messages_def)
  then show "run_ok k e (new_message e r)"
    using assms parser_ok_between [OF s] by (simp add: run_ok_def new_message_def UPDATE_STATE_def)
qed

context embedder
begin

text \<open>Completing a message, with what follows it.\<close>

lemma message_complete_ok:
  assumes "env_ok e r" "marks r = (\<lambda>_. None)" "bounds_ok (rparser r)" "settings e = ss"
    and "\<And>r'. same_run (new_message e r) r' \<Longrightarrow> outcome_ok e s (K r')"
  shows "outcome_ok e s (andthen (message_complete e r) K)"
  unfolding message_complete_def using new_message_ok [OF assms(1-3)] assms(4,5)
  by (intro notify_outcome(1)) (simp_all add: notify_cbs_def callback_errno_def)

lemma message_complete_last:
  assumes "env_ok e r" "marks r = (\<lambda>_. None)" "bounds_ok (rparser r)" "settings e = ss"
  shows "outcome_ok e s (message_complete e r)"
  using message_complete_ok [OF assms, of s Next] new_message_ok [OF assms(1-3)] by (simp add: same_run_ok)

lemma return_upgrade_ok:
  assumes "env_ok e r" "upgrade (rparser r)" "parser_ok (p_state r) (rparser r)" "p_state r \<noteq> s_chunk_size_start"
  shows "outcome_ok e s (RETURN (rp r + 1) r)"
  using assms by (simp add: RETURN_def return_ok_def resumable_def env_ok_def)

lemma message_complete_upgrade:
  assumes "env_ok e r" "marks r = (\<lambda>_. None)" "bounds_ok (rparser r)" "settings e = ss" "upgrade (rparser r)"
  shows "outcome_ok e s (andthen (message_complete e r) (\<lambda>r. RETURN (rp r + 1) r))"
proof (rule message_complete_ok [OF assms(1-4)])
  fix r' assume same: "same_run (new_message e r) r'"
  note n = new_message_ok [OF assms(1-3)]
  have "run_ok 0 e r'" using n(1) same_run_ok [OF same] by simp
  then show "outcome_ok e s (RETURN (rp r' + 1) r')"
    using assms(5) same_run_fields [OF same] n(2)
    by (intro return_upgrade_ok) (simp_all add: run_ok_def new_message_def UPDATE_STATE_def)
qed

end

section \<open>Bodies\<close>

lemma read_length_ok:
  assumes "env_ok e r" "content_length (rparser r) \<noteq> 0"
  shows "1 \<le> unat (bytes_to_read e r)" "unat (bytes_to_read e r) \<le> length (edata e) - rp r"
    "bytes_to_read e r \<le> content_length (rparser r)"
proof -
  have len: "0 < length (edata e) - rp r" "length (edata e) - rp r < 2 ^ 64"
    using assms(1) unfolding env_ok_def by linarith+
  have n: "unat (of_nat (length (edata e) - rp r) :: uint64) = length (edata e) - rp r"
    by (rule unat_of_nat_64 [OF len(2)])
  have "unat (bytes_to_read e r) = min (unat (content_length (rparser r))) (length (edata e) - rp r)"
    unfolding bytes_to_read_def min_def word_le_nat_alt n using n by (simp del: of_nat_diff)
  moreover have "0 < unat (content_length (rparser r))" using assms(2) by (simp add: unat_gt_0)
  ultimately show "1 \<le> unat (bytes_to_read e r)" "unat (bytes_to_read e r) \<le> length (edata e) - rp r"
    using len(1) by simp_all
  show "bytes_to_read e r \<le> content_length (rparser r)" by (simp add: bytes_to_read_def)
qed

section \<open>End of the headers\<close>

lemma strict_ok:
  assumes "env_ok e r" "\<And>r. P r \<Longrightarrow> outcome_ok e s (K r)" "P r"
  shows "outcome_ok e s (andthen (STRICT_CHECK e c r) K)"
  using assms by (simp add: STRICT_CHECK_def callback_errno_def)

lemma headers_done_entry:
  assumes "env_ok e r" "line_ok (rparser r)" "\<not> flagged (rparser r) 4" "\<not> length_and_encoding e (rparser r)"
  shows "parser_ok s_headers_done (rparser r)"
  using assms by (auto simp: parser_ok_headers_done line_ok_def length_and_encoding_def env_ok_def)

text \<open>The checks of the framing do not look at the fields the rest of the state changes.\<close>

lemma headers_done_update [simp]:
  "parser_ok s_headers_done (add_flag F_SKIPBODY q) = parser_ok s_headers_done q"
  by (simp add: parser_ok_headers_done)

context embedder
begin

lemma headers_complete_ok:
  assumes env: "env_ok e r" and marks: "marks r = (\<lambda>_. None)" and ok: "parser_ok s_headers_done (rparser r)"
    and st: "p_state r = s_headers_done" and ss: "settings e = ss"
  shows "outcome_ok e s_headers_almost_done (andthen (headers_complete_callback e r) (\<lambda>r3.
           if http_errno (rparser r3) \<noteq> HPE_OK then RETURN (rp r3) r3 else Reexecute r3))"
proof (cases "on_headers_complete ss")
  case None
  then show ?thesis using assms by (simp add: headers_complete_callback_def env_ok_def run_ok_def rank_def)
next
  case (Some f)
  obtain rc q w where res: "f (rparser r) (rworld r) = (rc, q, w)" by (metis prod_cases3)
  have "keeps_parser (rparser r) q"
    using notify_keeps [of f "rparser r" "rworld r"] Some env res by (simp add: notify_cbs_def env_ok_def)
  then obtain err d where q: "q = (rparser r)\<lparr>http_errno := err, pdata := d\<rparr>" and err: "err = HPE_OK \<or> err = HPE_PAUSED"
    unfolding keeps_parser_def by blast
  have rp: "rp r < length (edata e)" using env by simp
  define K where "K = (\<lambda>r3 :: 'w run. if http_errno (rparser r3) \<noteq> HPE_OK then RETURN (rp r3) r3 else Reexecute r3)"
  have fin: "outcome_ok e s_headers_almost_done (K (r\<lparr>rparser := q', rworld := w\<rparr>))"
    if "http_errno q' = err" "parser_ok s_headers_done q'" "same_control ((rparser r)\<lparr>http_errno := err\<rparr>) q'" for q'
  proof (cases "err = HPE_OK")
    case True
    then have "env_ok e (r\<lparr>rparser := q', rworld := w\<rparr>)" using that env by (simp add: env_ok_def same_control_def)
    then show ?thesis using True that(1,2) marks st by (simp add: K_def run_ok_def rank_def)
  next
    case False
    then show ?thesis using that env rp st err
      by (simp add: K_def RETURN_def return_ok_def resumable_def env_ok_def same_control_def)
  qed
  have swap: "r\<lparr>rparser := q', rworld := w\<rparr> = r\<lparr>rworld := w, rparser := q'\<rparr>" for q' by simp
  have "outcome_ok e s_headers_almost_done (andthen (headers_complete_callback e r) K)"
    using fin [of q] fin [of "add_flag F_SKIPBODY q", unfolded swap]
      fin [of "add_flag F_SKIPBODY (q\<lparr>upgrade := True\<rparr>)", unfolded swap] ok rp
    by (simp add: headers_complete_callback_def ss Some res Let_def on_parser_def q same_control_def RETURN_def SET_ERRNO_def
        return_ok_def)
  then show ?thesis by (simp add: K_def)
qed

lemma do_headers_almost_done_ok:
  assumes "run_ok 1 e r" "settings e = ss" "p_state r = s_headers_almost_done"
  shows "outcome_ok e s_headers_almost_done (do_headers_almost_done e r)"
proof -
  have ok: "marks r = (\<lambda>_. None)" "env_ok e r" "line_ok (rparser r)"
    using line_step [OF assms(1)] assms(3) by (simp_all add: line_member)
  then have bounds: "bounds_ok (rparser r)" by (simp add: line_ok_def)
  have trailing: "outcome_ok e s_headers_almost_done
      (andthen (CALLBACK_NOTIFY_NOADVANCE (on_chunk_complete ss) HPE_CB_chunk_complete (r\<lparr>p_state := s_message_done\<rparr>)) Reexecute)"
  proof (rule notify_outcome(2))
    show ro: "run_ok 0 e (r\<lparr>p_state := s_message_done\<rparr>)" using ok bounds by (simp add: run_ok_def parser_ok_body)
    show "outcome_ok e s_headers_almost_done (Reexecute r')" if "same_run (r\<lparr>p_state := s_message_done\<rparr>) r'" for r'
      using same_run_ok [OF that, of 1 e] same_run_fields(1) [OF that] ok bounds
      by (simp add: rank_def run_ok_def parser_ok_body)
  qed (simp_all add: notify_cbs_def callback_errno_def)
  have rest: "outcome_ok e s_headers_almost_done (andthen
      (headers_complete_callback e (r\<lparr>p_state := s_headers_done, rparser := (rparser r)\<lparr>upgrade := announced_upgrade (rparser r)\<rparr>\<rparr>))
      (\<lambda>r3. if http_errno (rparser r3) \<noteq> HPE_OK then RETURN (rp r3) r3 else Reexecute r3))"
    if "\<not> flagged (rparser r) 4" "\<not> length_and_encoding e (rparser r)"
    using ok headers_done_entry [OF ok(2,3) that] assms(2) by (intro headers_complete_ok) simp_all
  show ?thesis using trailing rest ok(2) assms(2)
    by (simp add: do_headers_almost_done_def STRICT_CHECK_def UPDATE_STATE_def on_parser_def Let_def callback_errno_def)
qed

lemma do_headers_done_ok:
  assumes "run_ok 1 e r" "settings e = ss" "p_state r = s_headers_done"
  shows "outcome_ok e s_headers_done (do_headers_done e r)"
proof -
  have ok: "marks r = (\<lambda>_. None)" "env_ok e r" "parser_ok s_headers_done (rparser r)"
    using run_ok_unmarked [OF assms(1)] assms(3) by (simp_all add: line_member)
  let ?r = "zero_nread r" and ?q = "(rparser r)\<lparr>nread := 0\<rparr>"
  have z: "env_ok e ?r" "marks ?r = (\<lambda>_. None)" "bounds_ok ?q" "framed ?q"
    using ok by (simp_all add: parser_ok_headers_done framed_def)
  have rp: "rp r < length (edata e)" using ok(2) by simp
  have state: "run_ok 0 e (?r\<lparr>p_state := s\<rparr>)" if "parser_ok s ?q" for s
    using z that by (simp add: run_ok_def)
  have te: "outcome_ok e s_headers_done (RETURN (rp ?r) (SET_ERRNO HPE_INVALID_TRANSFER_ENCODING ?r))"
    using rp by (simp add: RETURN_def SET_ERRNO_def on_parser_def return_ok_def)
  have m: "outcome_ok e s_headers_done (message_complete e ?r)"
    using z assms(2) by (intro message_complete_last) simp_all
  have u: "outcome_ok e s_headers_done (andthen (message_complete e ?r) (\<lambda>r. RETURN (rp r + 1) r))" if "upgrade (rparser r)"
    using z assms(2) that by (intro message_complete_upgrade) simp_all
  have "outcome_ok e s_headers_done (Next (?r\<lparr>p_state := s_body_identity_eof\<rparr>))"
    using state [of s_body_identity_eof] z(4) by (simp add: parser_ok_body)
  moreover have "flagged (rparser r) 0 \<Longrightarrow> outcome_ok e s_headers_done (Next (?r\<lparr>p_state := s_chunk_size_start\<rparr>))"
    using state [of s_chunk_size_start] z(4) by (simp add: parser_ok_chunk)
  moreover have "\<not> flagged (rparser r) 0 \<Longrightarrow> \<not> uses_transfer_encoding (rparser r) \<Longrightarrow> content_length (rparser r) \<noteq> 0 \<Longrightarrow>
      content_length (rparser r) \<noteq> ULLONG_MAX \<Longrightarrow> outcome_ok e s_headers_done (Next (?r\<lparr>p_state := s_body_identity\<rparr>))"
    using state [of s_body_identity] z(4) ok(3) by (simp add: parser_ok_body parser_ok_headers_done)
  ultimately show ?thesis using te m u rp
    by (simp add: do_headers_done_def STRICT_CHECK_def UPDATE_STATE_def Let_def callback_errno_def)
qed

end

section \<open>Message bodies and chunks\<close>

lemma marks_ok_only:
  "\<forall>k i. marks r k = Some i \<longrightarrow> k = b \<and> i \<le> rp r \<Longrightarrow> p_state r \<in> mark_states b \<Longrightarrow> marks_ok r"
  by (auto simp: marks_ok_def)

lemma MARK_only:
  assumes "\<forall>k i. marks r k = Some i \<longrightarrow> k = b \<and> i \<le> rp r"
  shows "\<forall>k i. marks (MARK b r) k = Some i \<longrightarrow> k = b \<and> i \<le> rp r"
  using assms by (auto simp: MARK_def split: if_splits)

lemma unhex_range:
  assumes "unhex_val c \<noteq> - 1"
  shows "0 \<le> unhex_val c" "unhex_val c \<le> 15" "unat (of_int (unhex_val c) :: uint64) = nat (unhex_val c)"
proof -
  show range: "0 \<le> unhex_val c" "unhex_val c \<le> 15"
    using assms by (auto simp: unhex_val_def unhex_nth hex_code_def split: if_splits)
  have "unat (of_nat (nat (unhex_val c)) :: uint64) = nat (unhex_val c)"
    using range by (intro unat_of_nat_64) simp
  then show "unat (of_int (unhex_val c) :: uint64) = nat (unhex_val c)" using range(1) by simp
qed

lemma read_body_ok:
  assumes "env_ok e r" "marks r = (\<lambda>_. None) \<or> marks_ok r \<and> p_state r \<in> mark_states body_mark"
    and "content_length (rparser r) \<noteq> 0" "content_length (rparser r) \<noteq> ULLONG_MAX"
  shows "env_ok e (read_body e r)" "rp r \<le> rp (read_body e r)"
    "\<forall>k i. marks (read_body e r) k = Some i \<longrightarrow> k = body_mark \<and> i \<le> rp (read_body e r)"
    "content_length (rparser (read_body e r)) \<noteq> ULLONG_MAX"
    "p_state (read_body e r) = p_state r"
    "rparser (read_body e r) =
       (rparser r)\<lparr>content_length := content_length (rparser r) - bytes_to_read e r\<rparr>"
    "rnread (read_body e r) = rnread r"
proof -
  note n = read_length_ok [OF assms(1,3)]
  have rp: "rp r < length (edata e)" using assms(1) by simp
  have marks: "\<forall>k i. marks r k = Some i \<longrightarrow> k = body_mark \<and> i \<le> rp r"
    using assms(2) marks_only(3) [of r body_mark] by auto
  have p: "rp (read_body e r) = rp r + unat (bytes_to_read e r) - 1"
    by (simp add: read_body_def Let_def on_parser_def MARK_def bytes_to_read_def)
  then show le: "rp r \<le> rp (read_body e r)" using n(1) by simp
  have less: "rp (read_body e r) < length (edata e)" using p n rp by simp
  show "env_ok e (read_body e r)" using assms(1) less
    by (simp add: env_ok_def read_body_def Let_def on_parser_def MARK_def)
  show "p_state (read_body e r) = p_state r" "rnread (read_body e r) = rnread r"
    "rparser (read_body e r) = (rparser r)\<lparr>content_length := content_length (rparser r) - bytes_to_read e r\<rparr>"
    by (simp_all add: read_body_def Let_def on_parser_def MARK_def)
  have "marks (read_body e r) = marks (MARK body_mark r)"
    by (simp add: read_body_def Let_def on_parser_def)
  then show "\<forall>k i. marks (read_body e r) k = Some i \<longrightarrow> k = body_mark \<and> i \<le> rp (read_body e r)"
    using MARK_only [OF marks] le order_trans by fastforce
  have "content_length (rparser r) - bytes_to_read e r \<le> content_length (rparser r)"
    using n(3) by (rule word_sub_le)
  moreover have "content_length (rparser r) < ULLONG_MAX" using assms(4)
    by (simp add: ULLONG_MAX_def word_less_alt) (metis max_word_max order_le_imp_less_or_eq word_less_def)
  ultimately have "content_length (rparser r) - bytes_to_read e r \<noteq> ULLONG_MAX" by force
  then show "content_length (rparser (read_body e r)) \<noteq> ULLONG_MAX"
    by (simp add: read_body_def Let_def on_parser_def MARK_def)
qed

lemma body_marked:
  assumes "run_ok 1 e r" "p_state r \<in> {s_body_identity, s_body_identity_eof, s_chunk_data, s_chunk_data_almost_done}"
  shows "env_ok e r" "marks_ok r" "p_state r \<in> mark_states body_mark" "parser_ok (p_state r) (rparser r)"
  using assms by (auto simp: run_ok_def mark_states_def)

lemma do_body_identity_eof_ok:
  assumes "run_ok 1 e r" "p_state r = s_body_identity_eof"
  shows "outcome_ok e s_body_identity_eof (do_body_identity_eof e r)"
proof -
  note ok = body_marked [OF assms(1)]
  have rp: "rp r < length (edata e)" using ok(1) assms(2) by simp
  have only: "\<forall>k i. marks r k = Some i \<longrightarrow> k = body_mark \<and> i \<le> rp r"
    using marks_only(3) [of r body_mark] ok assms(2) by simp
  have "\<forall>k i. marks (MARK body_mark r) k = Some i \<longrightarrow> k = body_mark \<and> i \<le> length (edata e) - 1"
    using MARK_only [OF only] rp by fastforce
  then have "marks_ok ((MARK body_mark r)\<lparr>rp := length (edata e) - 1\<rparr>)"
    using ok(3) assms(2) by (intro marks_ok_only [of _ body_mark]) (simp_all add: MARK_def)
  moreover have "length (edata e) - 1 < length (edata e)" using rp by linarith
  ultimately show ?thesis using ok assms(2) rp
    by (simp add: do_body_identity_eof_def run_ok_def MARK_def env_ok_def)
qed

lemma chunk_size_ok:
  assumes "run_ok 1 e r"
  shows "p_state r = s_chunk_size_start \<Longrightarrow> outcome_ok e s_chunk_size_start (do_chunk_size_start r)"
    "p_state r = s_chunk_size \<Longrightarrow> outcome_ok e s_chunk_size (do_chunk_size r)"
    "p_state r = s_chunk_parameters \<Longrightarrow> outcome_ok e s_chunk_parameters (do_chunk_parameters r)"
proof -
  note un = run_ok_unmarked [OF assms]
  have hex: "unat (of_int (unhex_val c) :: uint64) \<le> 15" if "unhex_val c \<noteq> - 1" for c
    using unhex_range [OF that] by simp
  show "outcome_ok e s_chunk_size_start (do_chunk_size_start r)" if "p_state r = s_chunk_size_start"
    using un that hex [of "rch r"] ULLONG_MAX_unat
    by (auto simp: do_chunk_size_start_def assert_that_def assert_chunked_def line_member parser_ok_chunk macro_simps run_ok_def)
  show "outcome_ok e s_chunk_size (do_chunk_size r)" if "p_state r = s_chunk_size"
    using un that accumulate16(2) [OF _ hex [of "rch r"]]
    by (auto simp: do_chunk_size_def assert_that_def assert_chunked_def line_member parser_ok_chunk macro_simps run_ok_def)
  show "outcome_ok e s_chunk_parameters (do_chunk_parameters r)" if "p_state r = s_chunk_parameters"
    using un that
    by (simp add: do_chunk_parameters_def assert_that_def assert_chunked_def line_member parser_ok_chunk macro_simps run_ok_def)
qed

context embedder
begin

lemma do_body_identity_ok:
  assumes "run_ok 1 e r" "settings e = ss" "p_state r = s_body_identity"
  shows "outcome_ok e s_body_identity (do_body_identity e r)"
proof -
  note ok = body_marked [OF assms(1)]
  have q: "content_length (rparser r) \<noteq> 0" "content_length (rparser r) \<noteq> ULLONG_MAX"
    using ok(4) assms(3) by (simp_all add: parser_ok_body)
  let ?r = "read_body e r"
  have b: "env_ok e ?r" "\<forall>k i. marks ?r k = Some i \<longrightarrow> k = body_mark \<and> i \<le> rp ?r"
    "content_length (rparser ?r) \<noteq> ULLONG_MAX" "p_state ?r = s_body_identity"
    "rparser ?r = (rparser r)\<lparr>content_length := content_length (rparser r) - bytes_to_read e r\<rparr>"
    using read_body_ok [OF ok(1) _ q] ok(2,3) assms(3) by simp_all
  have none: "(marks ?r)(body_mark := None) = (\<lambda>_. None)" using b(2) by (intro ext) (metis fun_upd_apply not_None_eq)
  have framed: "framed (rparser ?r)" "flagged (rparser ?r) 7" "\<not> flagged (rparser ?r) 0" "\<not> uses_transfer_encoding (rparser ?r)"
    using ok(4) assms(3) b(5) by (simp_all add: parser_ok_body)
  have marks: "marks_ok ?r" using b(2,4) by (intro marks_ok_only [of _ body_mark]) (simp_all add: mark_states_def)
  have more: "run_ok 0 e ?r" if "content_length (rparser ?r) \<noteq> 0"
    using b(1,3,4) framed marks that by (simp add: run_ok_def parser_ok_body)
  let ?d = "?r\<lparr>p_state := s_message_done\<rparr>"
  have "outcome_ok e s_body_identity (andthen (CALLBACK_DATA_ER e body_mark (rp ?r + 1) (rp ?r) ?d) Reexecute)"
  proof (rule data_outcome [OF assms(2)])
    show ro: "run_ok 0 e (?d\<lparr>marks := (marks ?d)(body_mark := None)\<rparr>)"
      using b(1) framed(1) none by (simp add: run_ok_def parser_ok_body framed_bounds)
    show "outcome_ok e s_body_identity (Reexecute r')"
      if "same_run (?d\<lparr>marks := (marks ?d)(body_mark := None)\<rparr>) r'" for r'
      using same_run_ok [OF that, of 1 e] same_run_fields(1) [OF that] ro by (simp add: rank_def run_ok_def)
    show "\<forall>m. marks ?d body_mark = Some m \<longrightarrow> m \<le> rp ?r + 1" using b(2) by fastforce
  qed (use env_ok_rp [OF b(1)] in simp_all)
  then show ?thesis using more q
    by (simp add: do_body_identity_def length_known_def assert_that_def Let_def UPDATE_STATE_def)
qed

lemma do_chunk_data_ok:
  assumes "run_ok 1 e r" "p_state r = s_chunk_data"
  shows "outcome_ok e s_chunk_data (do_chunk_data e r)"
proof -
  note ok = body_marked [OF assms(1)]
  have q: "content_length (rparser r) \<noteq> 0" "content_length (rparser r) \<noteq> ULLONG_MAX" "flagged (rparser r) 0" "framed (rparser r)"
    using ok(4) assms(2) by (simp_all add: parser_ok_chunk)
  let ?r = "read_body e r"
  have b: "env_ok e ?r" "\<forall>k i. marks ?r k = Some i \<longrightarrow> k = body_mark \<and> i \<le> rp ?r"
    "content_length (rparser ?r) \<noteq> ULLONG_MAX" "p_state ?r = s_chunk_data"
    "rparser ?r = (rparser r)\<lparr>content_length := content_length (rparser r) - bytes_to_read e r\<rparr>"
    using read_body_ok [OF ok(1) _ q(1,2)] ok(2,3) assms(2) by simp_all
  have "marks_ok ?r" "marks_ok (?r\<lparr>p_state := s_chunk_data_almost_done\<rparr>)"
    using b(2,4) by (auto intro!: marks_ok_only [of _ body_mark] simp: mark_states_def)
  moreover have "framed (rparser ?r)" "flagged (rparser ?r) 0" using b(5) q(3,4) by simp_all
  ultimately show ?thesis using b(1,3,4) q(1-3)
    by (simp add: do_chunk_data_def assert_chunked_def length_known_def assert_that_def Let_def UPDATE_STATE_def run_ok_def
        parser_ok_chunk)
qed

lemma do_message_done_ok:
  assumes "run_ok 1 e r" "settings e = ss" "p_state r = s_message_done"
  shows "outcome_ok e s_message_done (do_message_done e r)"
  unfolding do_message_done_def
proof (rule message_complete_ok)
  show ok: "env_ok e r" "marks r = (\<lambda>_. None)" "bounds_ok (rparser r)"
    using run_ok_unmarked [OF assms(1)] assms(3) by (simp_all add: line_member parser_ok_body)
  fix r' assume same: "same_run (new_message e r) r'"
  note n = new_message_ok [OF ok]
  have "run_ok 0 e r'" "p_state r' \<noteq> s_chunk_size_start"
    using same_run_ok [OF same, of 0 e] n same_run_fields(1) [OF same] by simp_all
  then show "outcome_ok e s_message_done (if upgrade (rparser r') then RETURN (rp r' + 1) r' else Next r')"
    using return_upgrade_ok [of e r'] by (simp add: run_ok_def)
qed (rule assms(2))

lemma chunk_end_ok:
  assumes "run_ok 1 e r" "settings e = ss"
  shows "p_state r = s_chunk_size_almost_done \<Longrightarrow> outcome_ok e s_chunk_size_almost_done (do_chunk_size_almost_done e r)"
    "p_state r = s_chunk_data_done \<Longrightarrow> outcome_ok e s_chunk_data_done (do_chunk_data_done e r)"
    "p_state r = s_chunk_data_almost_done \<Longrightarrow> outcome_ok e s_chunk_data_almost_done (do_chunk_data_almost_done e r)"
proof -
  note un = run_ok_unmarked [OF assms(1)]
  show "outcome_ok e s_chunk_size_almost_done (do_chunk_size_almost_done e r)" if st: "p_state r = s_chunk_size_almost_done"
  proof -
    have ok: "env_ok e r" "marks r = (\<lambda>_. None)" "framed (rparser r)" "flagged (rparser r) 0" "content_length (rparser r) \<noteq> ULLONG_MAX"
      using un st by (simp_all add: line_member parser_ok_chunk)
    have "env_ok e (zero_nread r)" using ok(1) by simp
    then have "run_ok 0 e (if content_length (rparser (zero_nread r)) = 0
        then UPDATE_STATE s_header_field_start (on_parser (add_flag F_TRAILING) (zero_nread r))
        else UPDATE_STATE s_chunk_data (zero_nread r))"
      using ok framed_bounds [OF ok(3)]
      by (simp add: run_ok_def UPDATE_STATE_def on_parser_def line_states_ok line_states_def line_ok_def parser_ok_chunk)
    then show ?thesis using ok assms(2)
      by (auto simp: do_chunk_size_almost_done_def assert_chunked_def assert_that_def STRICT_CHECK_def Let_def callback_errno_def
          notify_cbs_def UPDATE_STATE_def on_parser_def intro!: notify_outcome_last)
  qed
  show "outcome_ok e s_chunk_data_done (do_chunk_data_done e r)" if st: "p_state r = s_chunk_data_done"
  proof -
    have ok: "env_ok e r" "marks r = (\<lambda>_. None)" "framed (rparser r)" "flagged (rparser r) 0"
      using un st by (simp_all add: line_member parser_ok_chunk)
    then have "run_ok 0 e (UPDATE_STATE s_chunk_size_start (zero_nread r))"
      by (simp add: run_ok_def UPDATE_STATE_def parser_ok_chunk)
    then show ?thesis using ok assms(2)
      by (auto simp: do_chunk_data_done_def assert_chunked_def assert_that_def STRICT_CHECK_def callback_errno_def
          notify_cbs_def UPDATE_STATE_def intro!: notify_outcome_last)
  qed
  show "outcome_ok e s_chunk_data_almost_done (do_chunk_data_almost_done e r)" if st: "p_state r = s_chunk_data_almost_done"
  proof -
    note ok = body_marked [OF assms(1)]
    have q: "framed (rparser r)" "flagged (rparser r) 0" "content_length (rparser r) = 0"
      using ok(4) st by (simp_all add: parser_ok_chunk)
    have "outcome_ok e s_chunk_data_almost_done (CALLBACK_DATA e body_mark (UPDATE_STATE s_chunk_data_done r))"
      using ok st q assms(2) by (intro leave_mark [of r]) (simp_all add: UPDATE_STATE_def parser_ok_chunk)
    then show ?thesis using ok(1) st q
      by (simp add: do_chunk_data_almost_done_def assert_chunked_def assert_that_def STRICT_CHECK_def callback_errno_def)
  qed
qed

section \<open>The switch and the loop\<close>

lemma dispatch_ok:
  assumes "run_ok 1 e r" "settings e = ss"
  shows "outcome_ok e (p_state r) (dispatch e r)"
proof -
  note url = do_req_schema_ok [OF assms(1)] do_req_url_ok [OF assms]
  note all = status_line_ok [OF assms(1)] request_line_ok [OF assms(1)] do_dead_ok [OF assms(1)] start_states_ok [OF assms]
    do_res_status_ok [OF assms] do_req_method_ok [OF assms(1)] do_req_spaces_before_url_ok [OF assms(1)]
    do_header_field_start_ok [OF assms(1)] do_header_field_ok [OF assms] header_line_ok [OF assms(1)]
    do_header_value_ok [OF assms] do_header_value_discard_lws_ok [OF assms] do_headers_almost_done_ok [OF assms]
    do_headers_done_ok [OF assms] do_body_identity_ok [OF assms] do_body_identity_eof_ok [OF assms(1)]
    do_message_done_ok [OF assms] chunk_size_ok [OF assms(1)] chunk_end_ok [OF assms] do_chunk_data_ok [OF assms(1)]
  show ?thesis
    by (cases "p_state r")
      (simp_all only: dispatch_def state.case, (erule all | rule url; simp add: url_states_def)+)
qed

lemma reexecute_ok:
  "run_ok 1 e r \<Longrightarrow> settings e = ss \<Longrightarrow> rank (p_state r) < n \<Longrightarrow>
   outcome_ok e s (reexecute n e r) \<and> (\<forall>r'. reexecute n e r \<noteq> Reexecute r')"
proof (induction n arbitrary: r)
  case (Suc n)
  have ok: "outcome_ok e (p_state r) (dispatch e r)" using dispatch_ok Suc.prems by blast
  show ?case
  proof (cases "dispatch e r")
    case (Reexecute r')
    then have "run_ok 1 e r'" "rank (p_state r') < n" using ok Suc.prems(3) by simp_all
    then show ?thesis using Suc.IH [of r'] Suc.prems(2) Reexecute by simp
  qed (use ok in \<open>simp_all add: outcome_ok_def\<close>)
qed simp

end

end
