(* ===== verification/Http_Execute_Safe.thy ===== *)
theory Http_Execute_Safe
  imports Http_Body_Safe
begin

text \<open>
  Safety of \<^verbatim>\<open>http_parser_execute\<close> under the contract of the embedder: the loop makes
  progress, so it ends within the bound, no assertion fails, every callback gets a range
  inside the buffer, and the parser it leaves behind satisfies the invariant again.
\<close>

section \<open>The pointer never moves back\<close>

definition ahead_of :: "nat \<Rightarrow> 'w outcome \<Rightarrow> bool" where
  "ahead_of p x \<longleftrightarrow> (case x of Next r \<Rightarrow> p \<le> rp r | Reexecute r \<Rightarrow> p \<le> rp r | _ \<Rightarrow> True)"

lemma ahead_of_simps [simp]:
  "ahead_of p (Next r) \<longleftrightarrow> p \<le> rp r"
  "ahead_of p (Reexecute r) \<longleftrightarrow> p \<le> rp r"
  "ahead_of p (GotoError r)"
  "ahead_of p (Returned n q w)"
  "ahead_of p (Faulted f)"
  "ahead_of p (RETURN n r)"
  "ahead_of p (set_errno_and_goto_error err r)"
  by (simp_all add: ahead_of_def RETURN_def set_errno_and_goto_error_def)

lemma ahead_of_andthen [intro!]:
  assumes "ahead_of p x" "\<And>r. p \<le> rp r \<Longrightarrow> ahead_of p (K r)"
  shows "ahead_of p (andthen x K)"
  using assms by (cases x) simp_all

lemma ahead_of_after [simp]: "p \<le> rp r \<Longrightarrow> ahead_of p (after_callback err er r res)"
  by (cases res) (simp add: after_callback_def Let_def UPDATE_STATE_def SET_ERRNO_def on_parser_def)

lemma ahead_of_notify [simp]: "p \<le> rp r \<Longrightarrow> ahead_of p (CALLBACK_NOTIFY_ER cb err er r)"
  by (auto simp: CALLBACK_NOTIFY_ER_def assert_that_def split: option.split)

lemma ahead_of_macros [simp]:
  assumes "p \<le> rp r"
  shows "ahead_of p (assert_that m b r)" "ahead_of p (STRICT_CHECK e b r)" "ahead_of p (COUNT_HEADER_SIZE e n r)"
    "ahead_of p (CALLBACK_NOTIFY cb err r)" "ahead_of p (CALLBACK_NOTIFY_NOADVANCE cb err r)"
    "ahead_of p (CALLBACK_DATA_ER e k endp er r)" "ahead_of p (CALLBACK_DATA e k r)" "ahead_of p (CALLBACK_DATA_NOADVANCE e k r)"
    "ahead_of p (assert_chunked r)" "ahead_of p (length_known r)" "ahead_of p (url_step e r)"
    "ahead_of p (headers_complete_callback e r)" "ahead_of p (message_complete e r)" "ahead_of p (expect e c s r)"
    "ahead_of p (do_header_value_start r)"
proof -
  have a: "ahead_of p (assert_that m b r)" for m b using assms by (simp add: assert_that_def)
  then show "ahead_of p (assert_that m b r)" .
  show b: "ahead_of p (STRICT_CHECK e b r)" using assms by (simp add: STRICT_CHECK_def)
  show "ahead_of p (COUNT_HEADER_SIZE e n r)" using assms by (simp add: COUNT_HEADER_SIZE_def Let_def)
  show "ahead_of p (CALLBACK_NOTIFY cb err r)" "ahead_of p (CALLBACK_NOTIFY_NOADVANCE cb err r)"
    "ahead_of p (message_complete e r)"
    using assms by (simp_all add: CALLBACK_NOTIFY_def CALLBACK_NOTIFY_NOADVANCE_def message_complete_def new_message_def UPDATE_STATE_def)
  have "ahead_of p (CALLBACK_DATA_ER e k endp er r)" for endp er
    using assms by (auto simp: CALLBACK_DATA_ER_def assert_that_def split: option.split)
  then show "ahead_of p (CALLBACK_DATA_ER e k endp er r)" "ahead_of p (CALLBACK_DATA e k r)" "ahead_of p (CALLBACK_DATA_NOADVANCE e k r)"
    by (simp_all add: CALLBACK_DATA_def CALLBACK_DATA_NOADVANCE_def)
  show "ahead_of p (assert_chunked r)" "ahead_of p (length_known r)"
    using a assms by (simp_all add: assert_chunked_def length_known_def)
  show "ahead_of p (url_step e r)" using assms by (simp add: url_step_def Let_def UPDATE_STATE_def)
  show "ahead_of p (headers_complete_callback e r)" using assms
    by (auto simp: headers_complete_callback_def Let_def on_parser_def split: option.split prod.split)
  show "ahead_of p (expect e c s r)" using assms by (simp add: expect_def STRICT_CHECK_def UPDATE_STATE_def)
  show "ahead_of p (do_header_value_start r)" using assms
    by (cases "header_state (rparser r)")
      (simp_all add: do_header_value_start_def Let_def on_parser_def UPDATE_STATE_def MARK_def)
qed

lemma end_of_value_ahead: "p \<le> rp r \<Longrightarrow> p < length (edata e) \<Longrightarrow> ahead_of p (end_of_value e start h r)"
  by (auto simp: end_of_value_def Let_def on_parser_def last_byte_def)

lemma header_value_char_ahead:
  "header_value_char h r = Inl x \<Longrightarrow> ahead_of p x"
  by (cases h) (auto simp: header_value_char_def Let_def content_length_digit_def split: if_splits)

lemma header_value_loop_ahead:
  "p0 \<le> p \<Longrightarrow> p0 < length (edata e) \<Longrightarrow> ahead_of p0 (header_value_loop e start p h r)"
proof (induction e start p h r rule: header_value_loop.induct)
  case (1 e start p h r0)
  let ?ch = "edata e ! p" and ?r = "r0\<lparr>rp := p, rch := edata e ! p\<rparr>"
  consider "p = length (edata e)" | "length (edata e) < p" | "p < length (edata e)" by linarith
  then show ?case
  proof cases
    case 1
    then show ?thesis using "1.prems" by (subst header_value_loop.simps) (simp add: end_of_value_ahead)
  next
    case 2
    then show ?thesis by (subst header_value_loop.simps) simp
  next
    case p: 3
    show ?thesis
    proof (cases "?ch = CR \<or> ?ch = LF \<or> \<not> lenient e \<and> \<not> IS_HEADER_CHAR ?ch")
      case True
      then show ?thesis using p "1.prems"
        by (subst header_value_loop.simps)
          (auto simp: Let_def on_parser_def UPDATE_STATE_def intro!: ahead_of_andthen end_of_value_ahead)
    next
      case ch: False
      show ?thesis
      proof (cases "h = h_general")
        case True
        obtain okv p1 ch1 where skip: "skip_value e (chunk_end e p) p ?ch = (okv, p1, ch1)" by (metis prod_cases3)
        have "p \<le> last_byte e p1"
          using skip_value_progress [OF skip [symmetric]] ch p by (auto simp: last_byte_def)
        then show ?thesis
          using "1.IH"(1) [OF _ _ refl refl _ _ _ _ skip [symmetric] refl] True ch skip p "1.prems"
          by (subst header_value_loop.simps) (simp add: Let_def)
      next
        case h: False
        show ?thesis
        proof (cases "header_value_char h ?r")
          case (Inl x)
          then show ?thesis using header_value_char_ahead [OF Inl, of p0] h ch p
            by (subst header_value_loop.simps) (simp add: Let_def)
        next
          case (Inr y)
          obtain h1 r1 where y: "y = (h1, r1)" by (cases y)
          then show ?thesis
            using "1.IH"(2) [OF _ _ refl refl _ _ _ _ Inr y [symmetric]] h ch Inr p "1.prems"
            by (subst header_value_loop.simps) (simp add: Let_def)
        qed
      qed
    qed
  qed
qed

lemma do_header_field_ahead:
  assumes "rp r < length (edata e)" "line_ok (rparser r)" "header_state (rparser r) \<in> field_states"
  shows "ahead_of (rp r) (do_header_field e r)"
proof -
  obtain q p ch where "header_field_loop e (rparser r) (rp r) (rch r) = Inr (q, p, ch)" "rp r \<le> p"
    using header_field_loop_ok [OF assms(2,3) less_imp_le [OF assms(1)], of "rch r"] by blast
  then show ?thesis using assms(1)
    by (auto simp: do_header_field_def Let_def UPDATE_STATE_def intro!: ahead_of_andthen)
qed

lemma read_body_rp: "rp (read_body e r) = rp r + unat (bytes_to_read e r) - 1"
  by (simp add: read_body_def Let_def on_parser_def MARK_def)

lemma read_body_ahead:
  assumes "env_ok e r"
  shows "ahead_of (rp r) (do_body_identity e r)" "ahead_of (rp r) (do_chunk_data e r)"
    "ahead_of (rp r) (do_body_identity_eof e r)"
proof -
  have le: "rp r \<le> rp (read_body e r)" if "content_length (rparser r) \<noteq> 0"
    using read_length_ok(1) [OF assms that] by (simp add: read_body_rp)
  then show "ahead_of (rp r) (do_body_identity e r)" "ahead_of (rp r) (do_chunk_data e r)"
    by (auto simp: do_body_identity_def do_chunk_data_def length_known_def assert_chunked_def assert_that_def Let_def
        UPDATE_STATE_def intro!: ahead_of_andthen)
  show "ahead_of (rp r) (do_body_identity_eof e r)"
    using env_ok_rp [OF assms] by (auto simp: do_body_identity_eof_def)
qed

lemma dispatch_ahead:
  assumes "run_ok 1 e r"
  shows "ahead_of (rp r) (dispatch e r)"
proof -
  have env: "env_ok e r" and p: "rp r < length (edata e)" using assms by (auto simp: run_ok_def)
  note long = do_header_field_ahead [OF p] read_body_ahead [OF env] header_value_loop_ahead [OF order_refl p]
  have field: "p_state r = s_header_field \<Longrightarrow> line_ok (rparser r) \<and> header_state (rparser r) \<in> field_states"
    using assms by (simp add: run_ok_def parser_ok_field)
  show ?thesis
    using field long
    by (cases "p_state r")
      (auto simp: dispatch_def macro_simps MARK_def zero_nread_def do_dead_def do_start_req_or_res_def do_res_or_resp_H_def
        do_start_res_def do_res_H_def do_res_HT_def do_res_HTT_def do_res_HTTP_def do_res_http_major_def do_res_http_dot_def
        do_res_http_minor_def do_res_http_end_def do_res_first_status_code_def do_res_status_code_def do_res_status_start_def
        do_res_status_def do_res_line_almost_done_def do_start_req_def do_req_method_def do_req_spaces_before_url_def
        do_req_schema_def do_req_url_def do_req_http_start_def do_req_http_H_def do_req_http_HT_def do_req_http_HTT_def
        do_req_http_HTTP_def do_req_http_I_def do_req_http_IC_def do_req_http_major_def do_req_http_dot_def
        do_req_http_minor_def do_req_http_end_def do_req_line_almost_done_def do_header_field_start_def
        do_header_value_discard_ws_def do_header_value_discard_ws_almost_done_def do_header_value_discard_lws_def
        do_header_value_def do_header_value_lws_def do_header_almost_done_def do_chunk_size_start_def do_chunk_size_def
        do_chunk_parameters_def do_chunk_size_almost_done_def do_headers_almost_done_def do_headers_done_def
        do_chunk_data_almost_done_def do_chunk_data_done_def do_message_done_def
        split: sum.split option.split intro!: ahead_of_andthen)
qed

lemma reexecute_ahead:
  fixes ss :: "'w http_parser_settings" and e :: "'w env"
  assumes "embedder ss"
  shows "run_ok 1 e r \<Longrightarrow> settings e = ss \<Longrightarrow> p \<le> rp r \<Longrightarrow> ahead_of p (reexecute n e r)"
proof (induction n arbitrary: r)
  case (Suc n)
  have ok: "outcome_ok e (p_state r) (dispatch e r)" using embedder.dispatch_ok [OF assms] Suc.prems by blast
  have ge: "ahead_of (rp r) (dispatch e r)" using dispatch_ahead Suc.prems by blast
  then show ?case
  proof (cases "dispatch e r")
    case (Reexecute r')
    then show ?thesis using Suc.IH [of r'] Suc.prems(2,3) ok ge by simp
  qed (use ge Suc.prems(3) in simp_all)
qed simp

section \<open>Callbacks and marks\<close>

lemma no_mark_no_callback:
  "marks r k = None \<Longrightarrow> http_errno (rparser r) = HPE_OK \<Longrightarrow> CALLBACK_DATA_NOADVANCE e k r = Next r"
  by (simp add: CALLBACK_DATA_NOADVANCE_def CALLBACK_DATA_ER_def assert_that_def)

lemma callback_data_rp:
  "CALLBACK_DATA_ER e k endp er (r\<lparr>rp := p\<rparr>) =
     (case CALLBACK_DATA_ER e k endp er r of Next r' \<Rightarrow> Next (r'\<lparr>rp := p\<rparr>) | x \<Rightarrow> x)"
proof -
  have after: "after_callback err er (r\<lparr>rp := p\<rparr>) res =
      (case after_callback err er r res of Next r' \<Rightarrow> Next (r'\<lparr>rp := p\<rparr>) | x \<Rightarrow> x)" for err res
    by (cases res) (simp add: after_callback_def Let_def SET_ERRNO_def on_parser_def UPDATE_STATE_def)
  have same: "data_cb (settings e) k = Some f \<Longrightarrow> http_errno (rparser r) = HPE_OK \<Longrightarrow> marks r k = Some m \<Longrightarrow>
      after_callback (data_errno k) er r res = Next r' \<Longrightarrow> marks r' = marks r" for f m res r'
    by (cases res) (auto simp: after_callback_def Let_def SET_ERRNO_def on_parser_def UPDATE_STATE_def split: if_splits)
  show ?thesis
    by (auto simp: CALLBACK_DATA_ER_def assert_that_def after andthen_def split: option.split outcome.split)
qed

lemma initial_marks_state: "initial_marks s k = Some i \<Longrightarrow> i = 0 \<and> s \<in> mark_states k"
  by (cases k) (simp_all add: initial_marks_def mark_states_def split: if_splits)

lemma after_callback_state:
  "after_callback err er r res = Next r' \<Longrightarrow> pstate (rparser r') = p_state r'"
  by (cases res) (auto simp: after_callback_def Let_def UPDATE_STATE_def SET_ERRNO_def on_parser_def split: if_splits)

lemma error_exit_ok:
  assumes "rp r < length (edata e)" "http_errno (rparser r) \<noteq> HPE_OK" "http_errno (rparser r) \<noteq> HPE_PAUSED"
  shows "\<exists>n q w. error_exit r = Returned n q w \<and> return_ok e n q"
  using assms by (simp add: error_exit_def RETURN_def return_ok_def)

section \<open>The loop over the buffer\<close>

definition loop_inv :: "'w env \<Rightarrow> 'w run \<Rightarrow> bool" where
  "loop_inv e r \<longleftrightarrow>
     rp r \<le> length (edata e) \<and> env_ok e (r\<lparr>rp := 0\<rparr>) \<and> marks_ok r \<and> parser_ok (p_state r) (rparser r) \<and>
     (p_state r = s_chunk_size_start \<longrightarrow> rnread r = 0)"

lemma loop_inv_next: "run_ok 0 e r \<Longrightarrow> loop_inv e (r\<lparr>rp := Suc (rp r)\<rparr>)"
  unfolding run_ok_def loop_inv_def by (auto simp: env_ok_def marks_ok_def intro: le_SucI)

context embedder
begin

lemma execute_byte_ok:
  assumes "loop_inv e r" "settings e = ss" "rp r < length (edata e)"
  shows "outcome_ok e s (execute_byte e r)" "ahead_of (rp r) (execute_byte e r)"
    "\<forall>r'. execute_byte e r \<noteq> Reexecute r'"
proof -
  let ?r = "r\<lparr>rch := edata e ! rp r\<rparr>"
  have env: "env_ok e ?r" using assms(1,3) by (simp add: loop_inv_def env_ok_def)
  have rest: "marks_ok ?r" "parser_ok (p_state r) (rparser r)" "p_state r = s_chunk_size_start \<longrightarrow> rnread r = 0"
    using assms(1) by (simp_all add: loop_inv_def marks_ok_def)
  have bound: "rank (p_state r1) < REEXECUTE_BOUND" for r1 :: "'w run"
    by (cases "p_state r1") (simp_all add: rank_def REEXECUTE_BOUND_def)
  have exec: "outcome_ok e s (reexecute REEXECUTE_BOUND e r1) \<and> ahead_of (rp r) (reexecute REEXECUTE_BOUND e r1) \<and>
      (\<forall>r'. reexecute REEXECUTE_BOUND e r1 \<noteq> Reexecute r')" if "run_ok 1 e r1" "rp r1 = rp r" for r1
    using reexecute_ok [OF that(1) assms(2) bound] reexecute_ahead [OF embedder_axioms that(1) assms(2)] that(2) by simp
  have "outcome_ok e s (execute_byte e r) \<and> ahead_of (rp r) (execute_byte e r) \<and> (\<forall>r'. execute_byte e r \<noteq> Reexecute r')"
  proof (cases "PARSING_HEADER (p_state r)")
    case False
    then have "p_state r \<noteq> s_chunk_size_start" by (auto simp: PARSING_HEADER_iff)
    then have "run_ok 1 e ?r" using env rest by (simp add: run_ok_def)
    then show ?thesis using exec [of ?r] False assms(3) by (simp add: execute_byte_def Let_def)
  next
    case True
    let ?c = "?r\<lparr>rnread := rnread r + 1\<rparr>"
    show ?thesis
    proof (cases "max_header_size e < rnread r + 1")
      case over: True
      then show ?thesis using True assms(3)
        by (simp add: execute_byte_def Let_def COUNT_HEADER_SIZE_def callback_errno_def)
          (simp add: set_errno_and_goto_error_def)
    next
      case False
      then have "run_ok 1 e ?c" using env rest by (simp add: run_ok_def env_ok_def marks_ok_def not_less)
      then show ?thesis using exec [of ?c] True False assms(3)
        by (simp add: execute_byte_def Let_def COUNT_HEADER_SIZE_def)
    qed
  qed
  then show "outcome_ok e s (execute_byte e r)" "ahead_of (rp r) (execute_byte e r)"
    "\<forall>r'. execute_byte e r \<noteq> Reexecute r'" by blast+
qed

text \<open>How the loop can end: at the end of the buffer, in an error, or by returning.\<close>

definition loop_end :: "'w env \<Rightarrow> 'w outcome \<Rightarrow> bool" where
  "loop_end e x \<longleftrightarrow>
     (case x of
        Next r \<Rightarrow> loop_inv e r \<and> rp r = length (edata e)
      | GotoError r \<Rightarrow> rp r < length (edata e) \<and> http_errno (rparser r) \<noteq> HPE_OK \<and> http_errno (rparser r) \<noteq> HPE_PAUSED
      | Returned n q w \<Rightarrow> return_ok e n q
      | _ \<Rightarrow> False)"

lemma execute_loop_ok:
  "loop_inv e r \<Longrightarrow> settings e = ss \<Longrightarrow> length (edata e) - rp r \<le> n \<Longrightarrow> loop_end e (execute_loop n e r)"
proof (induction n arbitrary: r)
  case 0
  then show ?case by (simp add: loop_end_def loop_inv_def)
next
  case (Suc n)
  show ?case
  proof (cases "rp r = length (edata e)")
    case True
    then show ?thesis using Suc.prems(1) by (simp add: loop_end_def)
  next
    case False
    then have p: "rp r < length (edata e)" using Suc.prems(1) by (simp add: loop_inv_def)
    note byte = execute_byte_ok [OF Suc.prems(1,2) p]
    show ?thesis
    proof (cases "execute_byte e r")
      case (Next r1)
      then have "loop_inv e (r1\<lparr>rp := Suc (rp r1)\<rparr>)" "rp r \<le> rp r1"
        using byte(1,2) loop_inv_next by auto
      then show ?thesis using Suc.IH [of "r1\<lparr>rp := Suc (rp r1)\<rparr>"] Suc.prems Next False p by simp
    qed (use byte False in \<open>auto simp: loop_end_def outcome_ok_def\<close>)
  qed
qed

section \<open>The end of a call\<close>

lemma flush_mark:
  assumes "loop_inv e r" "rp r = length (edata e)" "settings e = ss" "p_state r \<in> mark_states k"
  shows "(\<exists>r'. CALLBACK_DATA_NOADVANCE e k r = Next r' \<and> same_run (r\<lparr>marks := (\<lambda>_. None)\<rparr>) r') \<or>
         (\<exists>q w. CALLBACK_DATA_NOADVANCE e k r = Returned (rp r) q w \<and> return_ok e (rp r) q)"
proof -
  let ?r = "r\<lparr>rp := 0\<rparr>"
  have marks: "marks_ok r" using assms(1) by (simp add: loop_inv_def)
  note only = marks_only [OF marks assms(4)]
  have st: "p_state r \<noteq> s_chunk_size_start"
    using mark_states_marked [OF assms(4)] by (auto simp: marked_states_def url_states_def)
  have ok: "run_ok 0 e (?r\<lparr>marks := (marks ?r)(k := None)\<rparr>)"
    using assms(1) only(1) st by (simp add: run_ok_def loop_inv_def)
  have eq: "CALLBACK_DATA_NOADVANCE e k r =
      (case CALLBACK_DATA_ER e k (rp r) (rp r) ?r of Next r' \<Rightarrow> Next (r'\<lparr>rp := rp r\<rparr>) | x \<Rightarrow> x)"
    using callback_data_rp [where r = ?r and p = "rp r"] by (simp add: CALLBACK_DATA_NOADVANCE_def)
  from data_cases [OF assms(3) ok, of "rp r" "rp r"] st only(2) assms(2)
  consider r' where "CALLBACK_DATA_ER e k (rp r) (rp r) ?r = Next r'" "same_run (?r\<lparr>marks := (\<lambda>_. None)\<rparr>) r'"
    | q w where "CALLBACK_DATA_ER e k (rp r) (rp r) ?r = Returned (rp r) q w" "return_ok e (rp r) q"
    using only(1) by auto
  then show ?thesis
  proof cases
    case 1
    then have "same_run (r\<lparr>marks := (\<lambda>_. None)\<rparr>) (r'\<lparr>rp := rp r\<rparr>)" by (auto simp: same_run_def)
    then show ?thesis using 1(1) eq by simp
  next
    case 2
    then show ?thesis using eq by simp
  qed
qed

lemma flush_return:
  assumes "loop_inv e r" "same_run (r\<lparr>marks := m\<rparr>) r'"
  shows "\<exists>q w. RETURN (length (edata e)) r' = Returned (length (edata e)) q w \<and> return_ok e (length (edata e)) q"
proof -
  have "parser_ok (p_state r) (rparser r')" "rnread r' \<le> max_header_size e"
    "p_state r = s_chunk_size_start \<longrightarrow> rnread r' = 0" "p_state r' = p_state r"
    "lenient_http_headers (rparser r') = lenient e" "allow_chunked_length (rparser r') = allow_length e"
    "http_errno (rparser r') = HPE_OK"
    using assms by (auto simp: loop_inv_def same_run_def env_ok_def)
  then show ?thesis by (simp add: RETURN_def return_ok_def resumable_def)
qed

lemma flush_marks_ok:
  assumes "loop_inv e r" "rp r = length (edata e)" "settings e = ss"
  shows "\<exists>n q w. flush_marks e r = Returned n q w \<and> return_ok e n q"
proof (cases "\<exists>k i. marks r k = Some i")
  case False
  have none: "marks r k = None" for k using False by (metis not_None_eq)
  have errno: "http_errno (rparser r) = HPE_OK" using assms(1) by (simp add: loop_inv_def env_ok_def)
  have "mark_count (marks r) \<le> 1" by (simp add: mark_count_def none)
  then show ?thesis using flush_return [OF assms(1), of "marks r" r] none errno
    by (auto simp: flush_marks_def assert_that_def no_mark_no_callback)
next
  case True
  then obtain k i where k: "marks r k = Some i" by blast
  have marks: "marks_ok r" and errno: "http_errno (rparser r) = HPE_OK"
    using assms(1) by (simp_all add: loop_inv_def env_ok_def)
  have st: "p_state r \<in> mark_states k" using marks k by (simp add: marks_ok_def)
  have others: "k' \<noteq> k \<Longrightarrow> marks r k' = None" for k' using marks_only(3) [OF marks st] by (metis not_None_eq)
  have count: "mark_count (marks r) \<le> 1"
    by (cases k) (simp_all add: mark_count_def others)
  note no = no_mark_no_callback [of _ _ e]
  have pass: "k' \<noteq> k \<Longrightarrow> CALLBACK_DATA_NOADVANCE e k' r = Next r" for k' using no others errno by blast
  from flush_mark [OF assms st] show ?thesis
  proof (elim disjE exE conjE)
    fix r' assume r': "CALLBACK_DATA_NOADVANCE e k r = Next r'" "same_run (r\<lparr>marks := (\<lambda>_. None)\<rparr>) r'"
    then have "CALLBACK_DATA_NOADVANCE e k' r' = Next r'" for k'
      using no [of r' k'] errno by (auto simp: same_run_def)
    moreover obtain q w where "RETURN (length (edata e)) r' = Returned (length (edata e)) q w"
      "return_ok e (length (edata e)) q" using flush_return [OF assms(1) r'(2)] by blast
    ultimately show ?thesis using r'(1) pass count
      by (cases k) (simp_all add: flush_marks_def assert_that_def)
  next
    fix q w assume "CALLBACK_DATA_NOADVANCE e k r = Returned (rp r) q w" "return_ok e (rp r) q"
    then show ?thesis using pass count by (cases k) (simp_all add: flush_marks_def assert_that_def)
  qed
qed

lemma execute_body_ok:
  assumes "loop_inv e r" "settings e = ss" "rp r = 0"
  shows "\<exists>n q w. execute_body e r = Returned n q w \<and> return_ok e n q"
proof -
  have "loop_end e (execute_loop (length (edata e)) e r)" using execute_loop_ok assms by simp
  then show ?thesis using flush_marks_ok [OF _ _ assms(2)] error_exit_ok
    by (auto simp: execute_body_def loop_end_def split: outcome.splits)
qed

lemma execute_start_ok:
  assumes "resumable mhs q" "http_errno q = HPE_OK" "data \<noteq> []" "length data < 2 ^ 64"
  shows "loop_inv (execute_env strict mhs ss q data) (execute_start q w)"
  using assms initial_marks_state
  by (auto simp: loop_inv_def execute_env_def execute_start_def resumable_def env_ok_def marks_ok_def)

lemma http_parser_eof_ok:
  assumes "resumable mhs q" "http_errno q = HPE_OK"
  shows "\<exists>n q' w'. http_parser_eof (execute_env strict mhs ss q []) (execute_start q w) = Returned n q' w' \<and>
    (n = 0 \<or> n = 1 \<and> http_errno q' = HPE_INVALID_EOF_STATE) \<and>
    (http_errno q' = HPE_OK \<or> http_errno q' = HPE_PAUSED \<longrightarrow> resumable mhs q')"
proof (cases "pstate q = s_body_identity_eof")
  case False
  then show ?thesis using assms
    by (simp add: http_parser_eof_def execute_start_def Let_def SET_ERRNO_def on_parser_def)
next
  case True
  let ?r = "execute_start q w"
  show ?thesis
  proof (cases "on_message_complete ss")
    case None
    then show ?thesis using True assms
      by (simp add: http_parser_eof_def execute_start_def execute_env_def CALLBACK_NOTIFY_NOADVANCE_def CALLBACK_NOTIFY_ER_def
          assert_that_def)
  next
    case (Some f)
    let ?res = "f (q\<lparr>pstate := pstate q\<rparr>) w"
    have keeps: "keeps_parser ((rparser ?r)\<lparr>pstate := p_state ?r\<rparr>) (fst (snd ?res))"
      using notify_keeps [of f q w] Some assms(2) by (simp add: notify_cbs_def execute_start_def)
    have call: "CALLBACK_NOTIFY_NOADVANCE (on_message_complete ss) HPE_CB_message_complete ?r =
        after_callback HPE_CB_message_complete 0 ?r ?res"
      using Some assms(2)
      by (simp add: CALLBACK_NOTIFY_NOADVANCE_def CALLBACK_NOTIFY_ER_def assert_that_def execute_start_def)
    have ok: "parser_ok (pstate q) q" "nread q \<le> mhs" using assms(1) by (simp_all add: resumable_def)
    from after_callback_cases [OF keeps, of HPE_CB_message_complete 0] assms(2)
    consider r' where "after_callback HPE_CB_message_complete 0 ?r ?res = Next r'" "same_run ?r r'"
      | q' w' where "after_callback HPE_CB_message_complete 0 ?r ?res = Returned 0 q' w'" "http_errno q' \<noteq> HPE_OK"
          "http_errno q' = HPE_PAUSED \<longrightarrow> (\<exists>d. q' = q\<lparr>http_errno := HPE_PAUSED, pdata := d\<rparr>)"
      by (auto simp: execute_start_def callback_errno_def)
    then show ?thesis
    proof cases
      case 1
      then have "resumable mhs (rparser r')"
        using after_callback_state [OF 1(1)] ok True
        by (auto simp: same_run_def resumable_def execute_start_def)
      then show ?thesis using 1 True call
        by (simp add: http_parser_eof_def execute_env_def) (simp add: execute_start_def)
    next
      case 2
      then have "http_errno q' = HPE_PAUSED \<longrightarrow> resumable mhs q'"
        using ok True by (auto simp: resumable_def)
      then show ?thesis using 2(1,2) True call
        by (simp add: http_parser_eof_def execute_env_def) (simp add: execute_start_def)
    qed
  qed
qed

lemma execute_ok:
  assumes "resumable mhs q" "http_errno q = HPE_OK" "length data < 2 ^ 64"
  shows "\<exists>n q' w'. http_parser_execute strict mhs ss q data w = Inr (n, q', w') \<and>
    (n \<le> length data \<or> data = [] \<and> n = 1 \<and> http_errno q' = HPE_INVALID_EOF_STATE) \<and>
    (http_errno q' = HPE_OK \<longrightarrow> n = length data \<or> upgrade q') \<and>
    (http_errno q' = HPE_OK \<or> http_errno q' = HPE_PAUSED \<longrightarrow> resumable mhs q')"
proof (cases "data = []")
  case True
  obtain n q' w' where "http_parser_eof (execute_env strict mhs ss q []) (execute_start q w) = Returned n q' w'"
    "n = 0 \<or> n = 1 \<and> http_errno q' = HPE_INVALID_EOF_STATE"
    "http_errno q' = HPE_OK \<or> http_errno q' = HPE_PAUSED \<longrightarrow> resumable mhs q'"
    using http_parser_eof_ok [OF assms(1,2)] by blast
  then show ?thesis using True assms(2) by (auto simp: http_parser_execute_def finish_def)
next
  case False
  let ?e = "execute_env strict mhs ss q data" and ?r = "execute_start q w"
  have "settings ?e = ss" "rp ?r = 0" "edata ?e = data" "max_header_size ?e = mhs"
    by (simp_all add: execute_env_def execute_start_def)
  moreover from this obtain n q' w' where "execute_body ?e ?r = Returned n q' w'" "return_ok ?e n q'"
    using execute_body_ok [OF execute_start_ok [OF assms(1,2) False assms(3)]] by blast
  ultimately show ?thesis using False assms(2)
    by (auto simp: http_parser_execute_def finish_def return_ok_def)
qed

end

end
