(* ===== verification/Http_Sessions.thy ===== *)
theory Http_Sessions
  imports Http_Execute_Safe
begin

text \<open>
  Whole connections: a parser that is initialized, given its options, fed buffer after buffer
  and resumed after pauses, under an embedder that keeps the contract.  The invariant holds
  along every such history.
\<close>

section \<open>Histories of a parser\<close>

inductive session :: "bool \<Rightarrow> uint32 \<Rightarrow> 'w http_parser_settings \<Rightarrow> http_parser \<Rightarrow> bool"
  for strict mhs ss where
  session_init: "session strict mhs ss
     ((http_parser_init t d)\<lparr>lenient_http_headers := l, allow_chunked_length := acl\<rparr>)"
| session_execute: "session strict mhs ss q \<Longrightarrow> length data < 2 ^ 64 \<Longrightarrow>
     http_parser_execute strict mhs ss q data w = Inr (n, q', w') \<Longrightarrow> session strict mhs ss q'"
| session_pause: "session strict mhs ss q \<Longrightarrow> http_parser_pause paused q = Inr q' \<Longrightarrow> session strict mhs ss q'"

definition alive :: "http_parser \<Rightarrow> bool" where
  "alive q \<longleftrightarrow> http_errno q = HPE_OK \<or> http_errno q = HPE_PAUSED"

lemma init_resumable:
  "resumable mhs ((http_parser_init t d)\<lparr>lenient_http_headers := l, allow_chunked_length := acl\<rparr>)"
proof -
  let ?q = "(http_parser_init t d)\<lparr>lenient_http_headers := l, allow_chunked_length := acl\<rparr>"
  have s: "pstate ?q \<in> between_messages" by (simp add: http_parser_init_def between_messages_def)
  have "bounds_ok ?q" by (simp add: http_parser_init_def bounds_ok_def)
  then show ?thesis using parser_ok_between [OF s, of ?q] s
    by (auto simp: resumable_def between_messages_def) (simp_all add: http_parser_init_def)
qed

lemma pause_resumable:
  assumes "http_parser_pause paused q = Inr q'"
  shows "alive q" "resumable mhs q' = resumable mhs q"
  using assms by (auto simp: http_parser_pause_def alive_def resumable_def split: if_splits)

context embedder
begin

lemma session_resumable: "session strict mhs ss q \<Longrightarrow> alive q \<Longrightarrow> resumable mhs q"
proof (induction rule: session.induct)
  case (session_init t d l acl)
  show ?case by (rule init_resumable)
next
  case (session_execute q data w n q' w')
  show ?case
  proof (cases "http_errno q = HPE_OK")
    case True
    then have "resumable mhs q" using session_execute.IH by (simp add: alive_def)
    from execute_ok [OF this True session_execute.hyps(2), of strict w] session_execute
    show ?thesis by (auto simp: alive_def)
  next
    case False
    then have "q' = q" using session_execute.hyps(3) by (simp add: http_parser_execute_def Let_def)
    then show ?thesis using session_execute by simp
  qed
next
  case (session_pause q paused q')
  then show ?case using pause_resumable by blast
qed

lemma session_execute_ok:
  assumes "session strict mhs ss q" "length data < 2 ^ 64"
  shows "\<exists>n q' w'. http_parser_execute strict mhs ss q data w = Inr (n, q', w') \<and>
    (n \<le> length data \<or> data = [] \<and> n = 1 \<and> http_errno q' = HPE_INVALID_EOF_STATE) \<and>
    (http_errno q' = HPE_OK \<longrightarrow> n = length data \<or> upgrade q') \<and>
    (http_errno q \<noteq> HPE_OK \<longrightarrow> n = 0 \<and> q' = q \<and> w' = w)"
proof (cases "http_errno q = HPE_OK")
  case True
  then show ?thesis
    using execute_ok [OF session_resumable [OF assms(1)] True assms(2), of strict w] by (auto simp: alive_def)
next
  case False
  then show ?thesis by (simp add: http_parser_execute_def Let_def)
qed

end

section \<open>Embedders\<close>

text \<open>The settings \<^verbatim>\<open>http_parser_settings_init\<close> leaves: no callbacks at all.\<close>

interpretation silent: embedder "http_parser_settings_init :: 'w http_parser_settings"
  by unfold_locales (auto simp: http_parser_settings_init_def notify_cbs_def data_cb_def split: mark.splits)

text \<open>An embedder that records every callback and pauses the parser when it is told to.\<close>

definition record_notify :: "string \<Rightarrow> (string \<times> string) list http_cb" where
  "record_notify name q w = (0, q, w @ [(name, '''')])"

definition record_data :: "(string \<Rightarrow> bool) \<Rightarrow> string \<Rightarrow> (string \<times> string) list http_data_cb" where
  "record_data pauses name q bytes w =
     (0, if pauses name then q\<lparr>http_errno := HPE_PAUSED\<rparr> else q, w @ [(name, bytes)])"

definition recorder :: "(string \<Rightarrow> bool) \<Rightarrow> (string \<times> string) list http_parser_settings" where
  "recorder pauses =
     \<lparr>on_message_begin = Some (record_notify ''message_begin''), on_url = Some (record_data pauses ''url''),
      on_status = Some (record_data pauses ''status''), on_header_field = Some (record_data pauses ''header_field''),
      on_header_value = Some (record_data pauses ''header_value''),
      on_headers_complete = Some (record_notify ''headers_complete''), on_body = Some (record_data pauses ''body''),
      on_message_complete = Some (record_notify ''message_complete''),
      on_chunk_header = Some (record_notify ''chunk_header''), on_chunk_complete = Some (record_notify ''chunk_complete'')\<rparr>"

interpretation recording: embedder "recorder pauses"
proof
  fix f q and w :: "(string \<times> string) list" assume "Some f \<in> notify_cbs (recorder pauses)" "http_errno (q :: http_parser) = HPE_OK"
  then show "keeps_parser q (fst (snd (f q w)))"
    by (auto simp: notify_cbs_def recorder_def record_notify_def keeps_parser_def)
next
  fix k g q bytes and w :: "(string \<times> string) list" assume g: "data_cb (recorder pauses) k = Some g" and q: "http_errno (q :: http_parser) = HPE_OK"
  then obtain name where "g = record_data pauses name" by (cases k) (auto simp: data_cb_def recorder_def)
  then show "keeps_parser q (fst (snd (g q bytes w)))" using q
    by (cases q) (simp add: record_data_def keeps_parser_def)
qed

end
