(* ===== verification/Http_Numbers.thy ===== *)
theory Http_Numbers
  imports Http_Execute_Safe
begin

text \<open>
  The two numbers that frame a body, as the parser reads them: chunk sizes in hexadecimal
  and content lengths in decimal, with the exact limit from which they are refused.
\<close>


section \<open>Numbers\<close>

definition hex_from :: "nat \<Rightarrow> string \<Rightarrow> nat" where
  "hex_from v ds = foldl (\<lambda>v c. v * 16 + nat (unhex_val c)) v ds"

definition decimal_from :: "nat \<Rightarrow> string \<Rightarrow> nat" where
  "decimal_from v ds = foldl (\<lambda>v c. v * 10 + (byte_index c - 48)) v ds"

definition hex_number :: "string \<Rightarrow> nat" where
  "hex_number ds = hex_from 0 ds"

definition decimal_number :: "string \<Rightarrow> nat" where
  "decimal_number ds = decimal_from 0 ds"

lemma hex_from_simps [simp]:
  "hex_from v [] = v" "hex_from v (c # ds) = hex_from (v * 16 + nat (unhex_val c)) ds"
  by (simp_all add: hex_from_def)

lemma decimal_from_simps [simp]:
  "decimal_from v [] = v" "decimal_from v (c # ds) = decimal_from (v * 10 + (byte_index c - 48)) ds"
  by (simp_all add: decimal_from_def)

lemma hex_from_ge: "v \<le> hex_from v ds"
proof (induction ds arbitrary: v)
  case (Cons c ds)
  have "v \<le> v * 16 + nat (unhex_val c)" by simp
  also have "\<dots> \<le> hex_from (v * 16 + nat (unhex_val c)) ds" by (rule Cons.IH)
  finally show ?case by simp
qed simp

lemma decimal_from_ge: "v \<le> decimal_from v ds"
proof (induction ds arbitrary: v)
  case (Cons c ds)
  have "v \<le> v * 10 + (byte_index c - 48)" by simp
  also have "\<dots> \<le> decimal_from (v * 10 + (byte_index c - 48)) ds" by (rule Cons.IH)
  finally show ?case by simp
qed simp

text \<open>
  The overflow tests compare with a conservative limit; these are the first values they
  refuse.
\<close>

definition HEX_LIMIT :: nat where "HEX_LIMIT = 2 ^ 64 - 16"
definition DECIMAL_LIMIT :: nat where "DECIMAL_LIMIT = 18446744073709551610"

lemma hex_refused: "(ULLONG_MAX - 16) div 16 < v \<longleftrightarrow> HEX_LIMIT \<le> unat v * 16 + d" if "d \<le> 15"
  using that unfolding word_less_nat_alt limit16 HEX_LIMIT_def by simp presburger

lemma decimal_refused: "(ULLONG_MAX - 10) div 10 < v \<longleftrightarrow> DECIMAL_LIMIT \<le> unat v * 10 + d" if "d \<le> 9"
  using that unfolding word_less_nat_alt limit10 DECIMAL_LIMIT_def by simp presburger

section \<open>Chunk sizes\<close>

lemma hex_not_CR: "unhex_val c \<noteq> - 1 \<Longrightarrow> c \<noteq> CR"
  by (auto simp: unhex_val_def unhex_def byte_index_def)

lemma count_one:
  assumes "unat (rnread r) + 1 \<le> unat (max_header_size e)"
  shows "COUNT_HEADER_SIZE e 1 r = Next (r\<lparr>rnread := rnread r + 1\<rparr>)" "unat (rnread r + 1) = unat (rnread r) + 1"
proof -
  have "unat (rnread r) + unat (1 :: uint32) < 2 ^ 32"
    using assms unsigned_less [of "max_header_size e", where ?'a = nat] by simp
  then show n: "unat (rnread r + 1) = unat (rnread r) + 1" using unat_add_no_wrap [of "rnread r" 1] by simp
  then have "\<not> max_header_size e < rnread r + 1" using assms by (simp add: word_less_nat_alt)
  then show "COUNT_HEADER_SIZE e 1 r = Next (r\<lparr>rnread := rnread r + 1\<rparr>)" by (simp add: COUNT_HEADER_SIZE_def Let_def)
qed

lemma reexecute_bound:
  "reexecute REEXECUTE_BOUND e r = (case dispatch e r of Reexecute r' \<Rightarrow> reexecute 7 e r' | x \<Rightarrow> x)"
proof -
  have bound: "REEXECUTE_BOUND = Suc 7" by (simp add: REEXECUTE_BOUND_def)
  show ?thesis unfolding bound by (rule reexecute.simps)
qed

text \<open>One iteration of the loop in a header state, while the headers stay within the limit.\<close>

lemma header_byte:
  assumes "PARSING_HEADER (p_state r)" "rp r < length (edata e)" "unat (rnread r) + 1 \<le> unat (max_header_size e)"
  defines "r1 \<equiv> r\<lparr>rch := edata e ! rp r, rnread := rnread r + 1\<rparr>"
  shows "execute_byte e r = (case dispatch e r1 of Reexecute r' \<Rightarrow> reexecute 7 e r' | x \<Rightarrow> x)"
proof -
  have "COUNT_HEADER_SIZE e 1 (r\<lparr>rch := edata e ! rp r\<rparr>) = Next r1"
    using count_one(1) [of "r\<lparr>rch := edata e ! rp r\<rparr>" e] assms(3) by (simp add: r1_def)
  then show ?thesis using assms(1,2) by (simp add: execute_byte_def Let_def reexecute_bound)
qed

lemma chunk_size_byte:
  assumes "p_state r = s_chunk_size" "flagged (rparser r) 0" "rp r < length (edata e)"
    and "edata e ! rp r = c" "unat (rnread r) + 1 \<le> unat (max_header_size e)"
  defines "r1 \<equiv> r\<lparr>rch := c, rnread := rnread r + 1\<rparr>"
  shows "unhex_val c \<noteq> - 1 \<Longrightarrow> execute_byte e r =
           (if HEX_LIMIT \<le> unat (content_length (rparser r)) * 16 + nat (unhex_val c)
            then set_errno_and_goto_error HPE_INVALID_CONTENT_LENGTH r1
            else Next (r1\<lparr>rparser := (rparser r)\<lparr>content_length := content_length (rparser r) * 16 + of_int (unhex_val c)\<rparr>\<rparr>))"
    and "c = CR \<Longrightarrow> execute_byte e r = Next (r1\<lparr>p_state := s_chunk_size_almost_done\<rparr>)"
proof -
  have step: "execute_byte e r = (case do_chunk_size r1 of Reexecute r' \<Rightarrow> reexecute 7 e r' | x \<Rightarrow> x)"
    using header_byte [of r e] assms(1,3-5) by (simp add: PARSING_HEADER_iff dispatch_def r1_def)
  show "execute_byte e r = (if HEX_LIMIT \<le> unat (content_length (rparser r)) * 16 + nat (unhex_val c)
      then set_errno_and_goto_error HPE_INVALID_CONTENT_LENGTH r1
      else Next (r1\<lparr>rparser := (rparser r)\<lparr>content_length := content_length (rparser r) * 16 + of_int (unhex_val c)\<rparr>\<rparr>))"
    if "unhex_val c \<noteq> - 1"
    using hex_refused [of "nat (unhex_val c)"] unhex_range [OF that] that hex_not_CR [OF that] assms(2)
    by (simp add: step do_chunk_size_def assert_chunked_def assert_that_def r1_def Let_def on_parser_def
        set_errno_and_goto_error_def)
  show "execute_byte e r = Next (r1\<lparr>p_state := s_chunk_size_almost_done\<rparr>)" if "c = CR"
    using that assms(2)
    by (simp add: step do_chunk_size_def assert_chunked_def assert_that_def r1_def UPDATE_STATE_def)
qed

text \<open>How reading the rest of a chunk size ends, \<open>v\<close> being the whole number and \<open>n\<close> the bytes left.\<close>

definition size_read :: "'w env \<Rightarrow> 'w run \<Rightarrow> nat \<Rightarrow> nat \<Rightarrow> 'w outcome \<Rightarrow> bool" where
  "size_read e r n v x \<longleftrightarrow>
     (if v < HEX_LIMIT then
        \<exists>r'. x = Next r' \<and> rp r' = length (edata e) \<and> p_state r' = s_chunk_size_almost_done \<and>
          rparser r' = (rparser r)\<lparr>content_length := of_nat v\<rparr> \<and> rworld r' = rworld r \<and> marks r' = marks r \<and>
          unat (rnread r') = unat (rnread r) + n
      else \<exists>r'. x = GotoError r' \<and> rworld r' = rworld r \<and> http_errno (rparser r') = HPE_INVALID_CONTENT_LENGTH)"

lemma chunk_size_loop:
  assumes "edata e = pre @ ds @ [CR]" "rp r = length pre" "p_state r = s_chunk_size" "flagged (rparser r) 0"
    and "list_all (\<lambda>c. unhex_val c \<noteq> - 1) ds" "unat (content_length (rparser r)) < HEX_LIMIT"
    and "unat (rnread r) + length ds + 1 \<le> unat (max_header_size e)"
  shows "size_read e r (length ds + 1) (hex_from (unat (content_length (rparser r))) ds) (execute_loop (Suc (length ds)) e r)"
  using assms
proof (induction ds arbitrary: pre r)
  case Nil
  have less: "rp r < length (edata e)" "edata e ! rp r = CR" using Nil.prems(1,2) by simp_all
  have byte: "execute_byte e r = Next (r\<lparr>rch := CR, rnread := rnread r + 1, p_state := s_chunk_size_almost_done\<rparr>)"
    using chunk_size_byte(2) [OF Nil.prems(3,4) less] Nil.prems(7) by simp
  show ?case using Nil.prems(1,2,6,7) less byte count_one(2) [of r e] by (simp add: size_read_def)
next
  case (Cons c ds)
  let ?q = "rparser r" and ?v = "unat (content_length (rparser r)) * 16 + nat (unhex_val c)"
  have c: "unhex_val c \<noteq> - 1" and ds: "list_all (\<lambda>c. unhex_val c \<noteq> - 1) ds" using Cons.prems(5) by simp_all
  have less: "rp r < length (edata e)" "edata e ! rp r = c" using Cons.prems(1,2) by simp_all
  let ?r1 = "r\<lparr>rch := c, rnread := rnread r + 1\<rparr>"
  have byte: "execute_byte e r =
      (if HEX_LIMIT \<le> ?v then set_errno_and_goto_error HPE_INVALID_CONTENT_LENGTH ?r1
       else Next (?r1\<lparr>rparser := ?q\<lparr>content_length := content_length ?q * 16 + of_int (unhex_val c)\<rparr>\<rparr>))"
    using chunk_size_byte(1) [OF Cons.prems(3,4) less _ c] Cons.prems(7) by simp
  show ?case
  proof (cases "HEX_LIMIT \<le> ?v")
    case True
    then have "HEX_LIMIT \<le> hex_from ?v ds" using hex_from_ge [of ?v ds] by simp
    then show ?thesis using True byte less
      by (simp add: size_read_def set_errno_and_goto_error_def SET_ERRNO_def on_parser_def)
  next
    case False
    let ?r2 = "?r1\<lparr>rparser := ?q\<lparr>content_length := content_length ?q * 16 + of_int (unhex_val c)\<rparr>, rp := Suc (rp r)\<rparr>"
    have v: "unat (content_length ?q * 16 + of_int (unhex_val c)) = ?v"
      using accumulate16(1) [of "content_length ?q" "of_int (unhex_val c)"] hex_refused [of "nat (unhex_val c)" "content_length ?q"]
        unhex_range [OF c] False by simp
    have n: "unat (rnread r + 1) = unat (rnread r) + 1" using count_one(2) [of r e] Cons.prems(7) by simp
    have "size_read e ?r2 (length ds + 1) (hex_from ?v ds) (execute_loop (Suc (length ds)) e ?r2)"
      using Cons.IH [of "pre @ [c]" ?r2] Cons.prems ds v n False by (simp del: execute_loop.simps)
    moreover have "execute_loop (Suc (length (c # ds))) e r = execute_loop (Suc (length ds)) e ?r2"
      using byte False less by simp
    ultimately show ?thesis using n by (auto simp: size_read_def simp del: execute_loop.simps)
  qed
qed

lemma chunk_size_first:
  assumes "p_state r = s_chunk_size_start" "flagged (rparser r) 0" "rnread r = 0" "rp r < length (edata e)"
    and "edata e ! rp r = c" "unhex_val c \<noteq> - 1" "1 \<le> unat (max_header_size e)"
  shows "execute_byte e r =
    Next (r\<lparr>rch := c, rnread := 1, rparser := (rparser r)\<lparr>content_length := of_int (unhex_val c)\<rparr>, p_state := s_chunk_size\<rparr>)"
  using header_byte [of r e] assms
  by (simp add: PARSING_HEADER_iff dispatch_def do_chunk_size_start_def assert_chunked_def assert_that_def on_parser_def
      UPDATE_STATE_def)

lemma flush_no_marks:
  assumes "marks r = (\<lambda>_. None)" "http_errno (rparser r) = HPE_OK"
  shows "flush_marks e r = RETURN (length (edata e)) r"
  using assms by (simp add: flush_marks_def assert_that_def mark_count_def no_mark_no_callback)

lemma chunk_size_execute:
  assumes q: "http_errno q = HPE_OK" "pstate q = s_chunk_size_start" "has_flag q F_CHUNKED" "nread q = 0"
    and ds: "ds \<noteq> []" "list_all (\<lambda>c. unhex_val c \<noteq> - 1) ds" "length ds < unat mhs"
  shows "hex_number ds < HEX_LIMIT \<Longrightarrow>
      http_parser_execute strict mhs ss q (ds @ [CR]) w =
        Inr (length ds + 1, q\<lparr>content_length := of_nat (hex_number ds), pstate := s_chunk_size_almost_done,
                               nread := of_nat (length ds + 1)\<rparr>, w)"
    and "HEX_LIMIT \<le> hex_number ds \<Longrightarrow>
      \<exists>n q'. http_parser_execute strict mhs ss q (ds @ [CR]) w = Inr (n, q', w) \<and>
        http_errno q' = HPE_INVALID_CONTENT_LENGTH"
proof -
  obtain c cs where cs: "ds = c # cs" using ds(1) by (cases ds) auto
  let ?e = "execute_env strict mhs ss q (ds @ [CR])" and ?r = "execute_start q w"
  let ?r1 = "?r\<lparr>rch := c, rnread := 1, rparser := q\<lparr>content_length := of_int (unhex_val c)\<rparr>, p_state := s_chunk_size, rp := Suc 0\<rparr>"
  have c: "unhex_val c \<noteq> - 1" using ds(2) cs by simp
  have none: "initial_marks s_chunk_size_start = (\<lambda>_. None)"
    by (simp add: initial_marks_def url_states_def)
  have byte: "execute_byte ?e ?r =
      Next (?r\<lparr>rch := c, rnread := 1, rparser := q\<lparr>content_length := of_int (unhex_val c)\<rparr>, p_state := s_chunk_size\<rparr>)"
    using chunk_size_first [of ?r ?e c] q c ds(3) cs by (simp add: execute_env_def execute_start_def)
  have loop: "execute_loop (length (edata ?e)) ?e ?r = execute_loop (Suc (length cs)) ?e ?r1"
    using byte cs by (simp add: execute_env_def execute_start_def)
  have v: "unat (content_length (rparser ?r1)) = nat (unhex_val c)" using unhex_range(3) [OF c] by simp
  have small: "nat (unhex_val c) < HEX_LIMIT" using unhex_range(1,2) [OF c] by (simp add: HEX_LIMIT_def)
  have prems: "edata ?e = [c] @ cs @ [CR]" "rp ?r1 = length [c]" "p_state ?r1 = s_chunk_size" "flagged (rparser ?r1) 0"
    "list_all (\<lambda>c. unhex_val c \<noteq> - 1) cs" "unat (content_length (rparser ?r1)) < HEX_LIMIT"
    "unat (rnread ?r1) + length cs + 1 \<le> unat (max_header_size ?e)"
    using cs ds(2,3) q(3) v small by (simp_all add: execute_env_def)
  have number: "hex_number ds = hex_from (nat (unhex_val c)) cs" by (simp add: hex_number_def cs)
  note rest = chunk_size_loop [OF prems, unfolded v, folded number]
  have world: "rworld ?r1 = w" "marks ?r1 = (\<lambda>_. None)" "rparser ?r1 = q\<lparr>content_length := of_int (unhex_val c)\<rparr>"
    using none q(2) by (simp_all add: execute_start_def)
  have exec: "http_parser_execute strict mhs ss q (ds @ [CR]) w = finish (execute_body ?e ?r)"
    using q(1) by (simp add: http_parser_execute_def Let_def)
  show "http_parser_execute strict mhs ss q (ds @ [CR]) w =
      Inr (length ds + 1, q\<lparr>content_length := of_nat (hex_number ds), pstate := s_chunk_size_almost_done,
                             nread := of_nat (length ds + 1)\<rparr>, w)" if fits: "hex_number ds < HEX_LIMIT"
  proof -
    obtain r' where r': "execute_loop (Suc (length cs)) ?e ?r1 = Next r'" "rp r' = length (edata ?e)"
      "p_state r' = s_chunk_size_almost_done" "rparser r' = q\<lparr>content_length := of_nat (hex_number ds)\<rparr>"
      "rworld r' = w" "marks r' = (\<lambda>_. None)" "unat (rnread r') = length ds + 1"
      using rest fits unfolding size_read_def world cs by auto
    have "of_nat (unat (rnread r')) = rnread r'" by simp
    then have "rnread r' = of_nat (length ds + 1)" unfolding r'(7) by simp
    then show ?thesis using exec loop r' q(1)
      by (simp add: execute_body_def flush_no_marks finish_def RETURN_def del: execute_loop.simps) (simp add: execute_env_def)
  qed
  show "\<exists>n q'. http_parser_execute strict mhs ss q (ds @ [CR]) w = Inr (n, q', w) \<and>
        http_errno q' = HPE_INVALID_CONTENT_LENGTH" if big: "HEX_LIMIT \<le> hex_number ds"
  proof -
    obtain r' where r': "execute_loop (Suc (length cs)) ?e ?r1 = GotoError r'" "rworld r' = w"
      "http_errno (rparser r') = HPE_INVALID_CONTENT_LENGTH"
      using rest big unfolding size_read_def world by auto
    then show ?thesis using exec loop
      by (simp add: execute_body_def finish_def error_exit_def RETURN_def del: execute_loop.simps)
  qed
qed

section \<open>Content lengths\<close>

lemma count_many:
  assumes "unat (rnread r) + n \<le> unat (max_header_size e)"
  shows "COUNT_HEADER_SIZE e n r = Next (r\<lparr>rnread := rnread r + of_nat n\<rparr>)"
    "unat (rnread r + of_nat n) = unat (rnread r) + n"
proof -
  have less: "unat (rnread r) + n < 2 ^ 32"
    using assms unsigned_less [of "max_header_size e", where ?'a = nat] by simp
  then have "unat (of_nat n :: uint32) = n" by (simp add: unat_of_nat take_bit_nat_eq_self)
  then show n: "unat (rnread r + of_nat n) = unat (rnread r) + n"
    using less unat_add_no_wrap [of "rnread r" "of_nat n"] by simp
  then have "\<not> max_header_size e < rnread r + of_nat n" using assms by (simp add: word_less_nat_alt)
  then show "COUNT_HEADER_SIZE e n r = Next (r\<lparr>rnread := rnread r + of_nat n\<rparr>)" by (simp add: COUNT_HEADER_SIZE_def Let_def)
qed

lemma digit_bytes:
  assumes "IS_NUM c"
  shows "c \<noteq> CR" "c \<noteq> LF" "c \<noteq> CHR '' ''" "c \<noteq> HT" "IS_HEADER_CHAR c"
proof -
  have r: "48 \<le> byte_index c" "byte_index c \<le> 57" using assms by (simp_all add: IS_NUM_iff)
  show "c \<noteq> CR" "c \<noteq> LF" "c \<noteq> CHR '' ''" "c \<noteq> HT" using r by (auto simp: byte_index_def)
  show "IS_HEADER_CHAR c" using r by (auto simp: IS_HEADER_CHAR_def word_less_nat_alt dest: arg_cong [of _ _ unat])
qed

definition length_read :: "'w env \<Rightarrow> nat \<Rightarrow> nat \<Rightarrow> 'w run \<Rightarrow> nat \<Rightarrow> 'w outcome \<Rightarrow> bool" where
  "length_read e start p r v x \<longleftrightarrow>
     (if v < DECIMAL_LIMIT then
        \<exists>c q. x = header_value_loop e start p h_content_length_num (r\<lparr>rp := q, rch := c, rparser := (rparser r)\<lparr>content_length := of_nat v\<rparr>\<rparr>)
      else \<exists>r'. x = GotoError r' \<and> rworld r' = rworld r \<and> http_errno (rparser r') = HPE_INVALID_CONTENT_LENGTH)"

lemma content_length_loop:
  assumes "edata e = pre @ ds @ [CR]" "list_all IS_NUM ds" "unat (content_length (rparser r)) < DECIMAL_LIMIT"
  shows "length_read e start (length pre + length ds) r (decimal_from (unat (content_length (rparser r))) ds)
    (header_value_loop e start (length pre) h_content_length_num r)"
  using assms
proof (induction ds arbitrary: pre r)
  case Nil
  then show ?case by (simp add: length_read_def) (intro exI [of _ "rch r"] exI [of _ "rp r"], simp)
next
  case (Cons c ds)
  let ?q = "rparser r" and ?v = "unat (content_length (rparser r)) * 10 + (byte_index c - 48)"
  have c: "IS_NUM c" and ds: "list_all IS_NUM ds" using Cons.prems(2) by simp_all
  have d: "byte_index c - 48 \<le> 9" using unat_digit [OF c] by simp
  have at: "edata e ! length pre = c" "length pre < length (edata e)" using Cons.prems(1) by simp_all
  let ?r1 = "r\<lparr>rp := length pre, rch := c\<rparr>"
  have char: "header_value_char h_content_length_num ?r1 =
      (if DECIMAL_LIMIT \<le> ?v
       then Inl (GotoError (on_parser (\<lambda>q. q\<lparr>header_state := h_content_length_num\<rparr>) (SET_ERRNO HPE_INVALID_CONTENT_LENGTH ?r1)))
       else Inr (h_content_length_num, ?r1\<lparr>rparser := ?q\<lparr>content_length := content_length ?q * 10 + digit c\<rparr>\<rparr>))"
    using decimal_refused [OF d] digit_bytes(3) [OF c] c
    by (simp add: header_value_char_def content_length_digit_def Let_def on_parser_def)
  have loop: "header_value_loop e start (length pre) h_content_length_num r =
      (case header_value_char h_content_length_num ?r1 of Inl x \<Rightarrow> x
       | Inr (h1, r1) \<Rightarrow> header_value_loop e start (Suc (length pre)) h1 r1)"
    using at digit_bytes [OF c] by (subst header_value_loop.simps) (simp add: Let_def)
  show ?case
  proof (cases "DECIMAL_LIMIT \<le> ?v")
    case True
    then have "DECIMAL_LIMIT \<le> decimal_from ?v ds" using decimal_from_ge [of ?v ds] by simp
    then show ?thesis using True char loop by (simp add: length_read_def SET_ERRNO_def on_parser_def)
  next
    case False
    let ?r2 = "?r1\<lparr>rparser := ?q\<lparr>content_length := content_length ?q * 10 + digit c\<rparr>\<rparr>"
    have v: "unat (content_length ?q * 10 + digit c) = ?v"
      using accumulate10(1) [of "content_length ?q" "digit c"] decimal_refused [OF d, of "content_length ?q"]
        unat_digit [OF c] False by simp
    have "length_read e start (length (pre @ [c]) + length ds) ?r2 (decimal_from ?v ds)
        (header_value_loop e start (length (pre @ [c])) h_content_length_num ?r2)"
      using Cons.IH [of "pre @ [c]" ?r2] Cons.prems ds v False by simp
    then show ?thesis using loop char False by (auto simp: length_read_def)
  qed
qed

text \<open>The whole value, from its first digit to the end of its line.\<close>

definition length_parser :: "http_parser \<Rightarrow> nat \<Rightarrow> http_parser" where
  "length_parser q v =
     (add_flag F_CONTENTLENGTH q)\<lparr>index := 0, content_length := of_nat v, header_state := h_content_length_num\<rparr>"

lemma content_length_first:
  assumes "p_state r = s_header_value_discard_ws" "header_state (rparser r) = h_content_length"
    and "\<not> flagged (rparser r) 7" "marks r = (\<lambda>_. None)" "rp r < length (edata e)" "edata e ! rp r = c" "IS_NUM c"
    and "unat (rnread r) + 1 \<le> unat (max_header_size e)"
  shows "execute_byte e r = Next (r\<lparr>rch := c, rnread := rnread r + 1, marks := (\<lambda>_. None)(header_value_mark := Some (rp r)),
    p_state := s_header_value, rparser := length_parser (rparser r) (byte_index c - 48)\<rparr>)"
proof -
  have "of_nat (byte_index c - 48) = (digit c :: uint64)" by (simp add: digit_def)
  then show ?thesis
    using header_byte [of r e] assms digit_bytes [OF assms(7)]
    by (simp add: PARSING_HEADER_iff dispatch_def do_header_value_discard_ws_def do_header_value_start_def Let_def MARK_def
        on_parser_def UPDATE_STATE_def length_parser_def add_flag_def)
qed

lemma value_line_end:
  assumes at: "edata e ! p = CR" "p < length (edata e)" and mark: "marks r = (\<lambda>_. None)(header_value_mark := Some m)" "m \<le> p"
    and ok: "http_errno (rparser r) = HPE_OK" "unat (rnread r) + (p - start) \<le> unat (max_header_size e)"
    and cb: "on_header_value (settings e) = Some f"
      "f ((rparser r)\<lparr>header_state := h, pstate := s_header_almost_done\<rparr>) (take (p - m) (drop m (edata e))) (rworld r) =
         (0, (rparser r)\<lparr>header_state := h, pstate := s_header_almost_done, pdata := d\<rparr>, w1)"
  shows "header_value_loop e start p h r =
    Next (r\<lparr>rp := p, rch := CR, p_state := s_header_almost_done, rnread := rnread r + of_nat (p - start),
      rparser := (rparser r)\<lparr>header_state := h, pstate := s_header_almost_done, pdata := d\<rparr>, rworld := w1, marks := (\<lambda>_. None)\<rparr>)"
proof -
  let ?q = "(rparser r)\<lparr>header_state := h, pstate := s_header_almost_done, pdata := d\<rparr>"
  let ?r1 = "r\<lparr>rp := p, rch := CR, p_state := s_header_almost_done, rparser := (rparser r)\<lparr>header_state := h\<rparr>\<rparr>"
  let ?r2 = "r\<lparr>rp := p, rch := CR, p_state := s_header_almost_done, rparser := ?q, rworld := w1, marks := (\<lambda>_. None)\<rparr>"
  have call: "CALLBACK_DATA e header_value_mark ?r1 = Next ?r2"
    using cb mark ok(1) at(2)
    by (simp add: CALLBACK_DATA_def CALLBACK_DATA_ER_def assert_that_def data_cb_def after_callback_def Let_def UPDATE_STATE_def)
  have "end_of_value e start h ?r2 = Next (?r2\<lparr>rnread := rnread r + of_nat (p - start)\<rparr>)"
    using ok(2) at(2) by (simp add: end_of_value_def Let_def on_parser_def last_byte_def count_many(1))
  then show ?thesis using call at
    by (subst header_value_loop.simps) (simp add: Let_def on_parser_def UPDATE_STATE_def)
qed

text \<open>The run when the second byte of the value is dispatched.\<close>

definition second_digit :: "http_parser \<Rightarrow> string \<Rightarrow> 'w \<Rightarrow> 'w run" where
  "second_digit q ds w =
     (execute_start q w)\<lparr>rch := (ds @ [CR]) ! 1, rnread := nread q + 2, marks := (\<lambda>_. None)(header_value_mark := Some 0),
       p_state := s_header_value, rparser := length_parser q (byte_index (hd ds) - 48), rp := 1\<rparr>"

lemma content_length_start:
  fixes w :: 'w and ss :: "'w http_parser_settings" and strict :: bool
  assumes q: "http_errno q = HPE_OK" "pstate q = s_header_value_discard_ws" "header_state q = h_content_length"
      "\<not> has_flag q F_CONTENTLENGTH"
    and ds: "ds \<noteq> []" "list_all IS_NUM ds" "unat (nread q) + length ds + 1 \<le> unat mhs"
  defines "e \<equiv> execute_env strict mhs ss q (ds @ [CR])" and "r2 \<equiv> second_digit q ds w"
  shows "unat (nread q + 2) = unat (nread q) + 2"
    and "execute_loop (length (edata e)) e (execute_start q w) =
      andthen (case header_value_loop e 1 1 h_content_length_num r2 of Reexecute r' \<Rightarrow> reexecute 7 e r' | x \<Rightarrow> x)
        (\<lambda>r. execute_loop (length ds - 1) e (r\<lparr>rp := Suc (rp r)\<rparr>))"
    and "length_read e 1 (length ds) r2 (decimal_number ds) (header_value_loop e 1 1 h_content_length_num r2)"
proof -
  obtain c cs where cs: "ds = c # cs" using ds(1) by (cases ds) auto
  let ?r = "execute_start q w"
  let ?ra = "?r\<lparr>rch := c, rnread := nread q + 1, marks := (\<lambda>_. None)(header_value_mark := Some 0),
    p_state := s_header_value, rparser := length_parser q (byte_index c - 48)\<rparr>"
  let ?r1 = "?ra\<lparr>rp := 1\<rparr>"
  have c: "IS_NUM c" and digits: "list_all IS_NUM cs" using ds(2) cs by simp_all
  have none: "initial_marks s_header_value_discard_ws = (\<lambda>_. None)" by (simp add: initial_marks_def url_states_def)
  have "unat (rnread ?r) + 2 \<le> unat (max_header_size e)" "unat (rnread ?r) + 1 \<le> unat (max_header_size e)"
    using ds(3) cs by (simp_all add: execute_start_def execute_env_def e_def)
  note room = count_many(2) [OF this(1)] count_one(2) [OF this(2)]
  show "unat (nread q + 2) = unat (nread q) + 2" using room(1) by (simp add: execute_start_def)
  have n: "unat (nread q + 1) = unat (nread q) + 1" using room(2) by (simp add: execute_start_def)
  have "execute_byte e ?r = Next ?ra"
    using content_length_first [of ?r e c] q c ds(3) cs none by (simp add: e_def execute_env_def execute_start_def)
  then have "execute_loop (length (edata e)) e ?r =
      andthen (execute_byte e ?r1) (\<lambda>r. execute_loop (length cs) e (r\<lparr>rp := Suc (rp r)\<rparr>))"
    using cs by (simp add: e_def execute_env_def execute_start_def)
  moreover have "execute_byte e ?r1 = (case dispatch e r2 of Reexecute r' \<Rightarrow> reexecute 7 e r' | x \<Rightarrow> x)"
  proof -
    have "?r1\<lparr>rch := edata e ! 1, rnread := rnread ?r1 + 1\<rparr> = r2"
      using cs by (simp add: r2_def second_digit_def e_def execute_env_def)
    then show ?thesis using header_byte [of ?r1 e] n ds(3) cs by (simp add: PARSING_HEADER_iff e_def execute_env_def)
  qed
  moreover have "dispatch e r2 = header_value_loop e 1 1 h_content_length_num r2"
    by (simp add: r2_def second_digit_def dispatch_def do_header_value_def length_parser_def)
  ultimately show "execute_loop (length (edata e)) e ?r =
      andthen (case header_value_loop e 1 1 h_content_length_num r2 of Reexecute r' \<Rightarrow> reexecute 7 e r' | x \<Rightarrow> x)
        (\<lambda>r. execute_loop (length ds - 1) e (r\<lparr>rp := Suc (rp r)\<rparr>))" using cs by simp
  have "unat (content_length (rparser r2)) = byte_index c - 48"
    using unat_digit(1) [OF c] cs by (simp add: r2_def second_digit_def length_parser_def digit_def del: of_nat_diff)
  moreover have "byte_index c - 48 < DECIMAL_LIMIT" using unat_digit [OF c] by (simp add: DECIMAL_LIMIT_def)
  ultimately show "length_read e 1 (length ds) r2 (decimal_number ds) (header_value_loop e 1 1 h_content_length_num r2)"
    using content_length_loop [of e "[c]" cs r2 1] digits cs by (simp add: e_def execute_env_def decimal_number_def)
qed

lemma content_length_refused:
  assumes q: "http_errno q = HPE_OK" "pstate q = s_header_value_discard_ws" "header_state q = h_content_length"
      "\<not> has_flag q F_CONTENTLENGTH"
    and ds: "ds \<noteq> []" "list_all IS_NUM ds" "unat (nread q) + length ds + 1 \<le> unat mhs"
    and big: "DECIMAL_LIMIT \<le> decimal_number ds"
  shows "\<exists>n q'. http_parser_execute strict mhs ss q (ds @ [CR]) w = Inr (n, q', w) \<and>
    http_errno q' = HPE_INVALID_CONTENT_LENGTH"
  using content_length_start(2,3) [OF q ds, where strict = strict and ss = ss and w = w] big q(1)
  by (auto simp: http_parser_execute_def Let_def length_read_def execute_body_def finish_def error_exit_def RETURN_def
      second_digit_def execute_start_def simp del: execute_loop.simps)

lemma content_length_accepted:
  assumes q: "http_errno q = HPE_OK" "pstate q = s_header_value_discard_ws" "header_state q = h_content_length"
      "\<not> has_flag q F_CONTENTLENGTH"
    and ds: "ds \<noteq> []" "list_all IS_NUM ds" "unat (nread q) + length ds + 1 \<le> unat mhs"
    and fits: "decimal_number ds < DECIMAL_LIMIT" and cb: "on_header_value ss = Some f"
      "f ((length_parser q (decimal_number ds))\<lparr>pstate := s_header_almost_done\<rparr>) ds w =
        (0, (length_parser q (decimal_number ds))\<lparr>pstate := s_header_almost_done, pdata := d\<rparr>, w1)"
  shows "http_parser_execute strict mhs ss q (ds @ [CR]) w =
    Inr (length ds + 1, (length_parser q (decimal_number ds))\<lparr>pstate := s_header_almost_done, pdata := d,
                          nread := nread q + of_nat (length ds + 1)\<rparr>, w1)"
proof -
  let ?e = "execute_env strict mhs ss q (ds @ [CR])" and ?r2 = "second_digit q ds w" and ?v = "decimal_number ds"
  note start = content_length_start(1) [OF q ds]
    content_length_start(2,3) [OF q ds, where strict = strict and ss = ss and w = w]
  obtain c' p' where loop: "header_value_loop ?e 1 1 h_content_length_num ?r2 =
      header_value_loop ?e 1 (length ds) h_content_length_num
        (?r2\<lparr>rp := p', rch := c', rparser := (rparser ?r2)\<lparr>content_length := of_nat ?v\<rparr>\<rparr>)"
    using start(3) fits by (auto simp: length_read_def)
  let ?r3 = "?r2\<lparr>rp := p', rch := c', rparser := (rparser ?r2)\<lparr>content_length := of_nat ?v\<rparr>\<rparr>"
  let ?r4 = "?r3\<lparr>rp := length ds, rch := CR, p_state := s_header_almost_done, rnread := nread q + of_nat (length ds + 1),
    rparser := (length_parser q ?v)\<lparr>header_state := h_content_length_num, pstate := s_header_almost_done, pdata := d\<rparr>,
    rworld := w1, marks := (\<lambda>_. None)\<rparr>"
  have h: "(length_parser q ?v)\<lparr>header_state := h_content_length_num\<rparr> = length_parser q ?v" by (simp add: length_parser_def)
  have "header_value_loop ?e 1 (length ds) h_content_length_num ?r3 = Next ?r4"
  proof -
    have "unat (rnread ?r3) + (length ds - 1) \<le> unat (max_header_size ?e)"
      using start(1) ds(1,3) by (cases ds) (simp_all add: second_digit_def execute_env_def)
    moreover have "nread q + 2 + of_nat (length ds - 1) = nread q + of_nat (length ds + 1)"
      using ds(1) by (cases ds) simp_all
    ultimately show ?thesis
      using value_line_end [of ?e "length ds" ?r3 0 1 f h_content_length_num d w1] cb q(1) h
      by (simp add: second_digit_def execute_env_def execute_start_def length_parser_def nth_append)
  qed
  then have "execute_loop (length (edata ?e)) ?e (execute_start q w) = Next (?r4\<lparr>rp := Suc (length ds)\<rparr>)"
    using start(2) loop by (simp del: execute_loop.simps) (cases ds; cases "tl ds"; simp add: execute_env_def)
  then show ?thesis using q(1) h
    by (simp add: http_parser_execute_def execute_body_def flush_no_marks finish_def RETURN_def length_parser_def Let_def
        del: execute_loop.simps) (simp add: execute_env_def)
qed

end
