(* ===== verification/Http_Reach.thy ===== *)
theory Http_Reach
  imports Http_Sessions Http_Numbers
begin

text \<open>
  Runs of the loop of \<^verbatim>\<open>http_parser_execute\<close> as a relation between the variables in front of
  two bytes, so that the reading of a message can be put together from the reading of its
  parts, and the embedder that records every callback.
\<close>

section \<open>Runs of the loop\<close>

text \<open>\<open>reaches e r r'\<close>: the loop over the buffer gets from \<open>r\<close> to \<open>r'\<close>, both in front of a byte.\<close>

inductive reaches :: "'w env \<Rightarrow> 'w run \<Rightarrow> 'w run \<Rightarrow> bool" for e where
  reaches_refl: "reaches e r r"
| reaches_byte: "execute_byte e r = Next r1 \<Longrightarrow> rp r \<le> rp r1 \<Longrightarrow> reaches e (r1\<lparr>rp := Suc (rp r1)\<rparr>) r2 \<Longrightarrow> reaches e r r2"

lemma reaches_trans: "reaches e r1 r2 \<Longrightarrow> reaches e r2 r3 \<Longrightarrow> reaches e r1 r3"
  by (induction rule: reaches.induct) (auto intro: reaches_byte)

lemma reaches_one: "execute_byte e r = Next r1 \<Longrightarrow> rp r \<le> rp r1 \<Longrightarrow> reaches e r (r1\<lparr>rp := Suc (rp r1)\<rparr>)"
  by (rule reaches_byte) (auto intro: reaches_refl)

lemma reaches_to: "execute_byte e r = Next r1 \<Longrightarrow> rp r \<le> rp r1 \<Longrightarrow> r' = r1\<lparr>rp := Suc (rp r1)\<rparr> \<Longrightarrow> reaches e r r'"
  by (simp add: reaches_one)

lemma reaches_eq: "reaches e r r1 \<Longrightarrow> r1 = r2 \<Longrightarrow> reaches e r r2"
  by simp

lemma byte_inside: "execute_byte e r = Next r1 \<Longrightarrow> rp r < length (edata e)"
  by (simp add: execute_byte_def split: if_splits)

lemma reaches_loop:
  "reaches e r r' \<Longrightarrow> rp r \<le> rp r' \<and> (\<exists>k \<le> rp r' - rp r. \<forall>n. execute_loop (n + k) e r = execute_loop n e r')"
proof (induction rule: reaches.induct)
  case (reaches_refl r)
  then show ?case by (auto intro: exI [of _ 0])
next
  case (reaches_byte r r1 r2)
  then obtain k where le: "k \<le> rp r2 - Suc (rp r1)" "Suc (rp r1) \<le> rp r2"
    and k: "\<forall>n. execute_loop (n + k) e (r1\<lparr>rp := Suc (rp r1)\<rparr>) = execute_loop n e r2" by auto
  have "execute_loop (n + Suc k) e r = execute_loop n e r2" for n
    using byte_inside [OF reaches_byte.hyps(1)] reaches_byte.hyps(1) k by simp
  moreover have "Suc k \<le> rp r2 - rp r" using le reaches_byte.hyps(2) by linarith
  ultimately show ?case using le(2) reaches_byte.hyps(2) by (meson Suc_leD le_trans)
qed

lemma reaches_end:
  assumes "reaches e r r'" "rp r' = length (edata e)"
  shows "execute_loop (length (edata e) - rp r) e r = Next r'"
proof -
  obtain k where k: "k \<le> length (edata e) - rp r" "\<forall>n. execute_loop (n + k) e r = execute_loop n e r'"
    using reaches_loop [OF assms(1)] assms(2) by auto
  have "execute_loop n e r' = Next r'" for n using assms(2) by (cases n) simp_all
  moreover have "length (edata e) - rp r - k + k = length (edata e) - rp r" using k(1) by simp
  ultimately show ?thesis using k(2) by metis
qed

text \<open>A whole call, in terms of the run of its loop.\<close>

lemma execute_reaches:
  assumes "http_errno q = HPE_OK" "data \<noteq> []" "reaches (execute_env strict mhs ss q data) (execute_start q w) r"
    and "rp r = length data"
  shows "http_parser_execute strict mhs ss q data w = finish (flush_marks (execute_env strict mhs ss q data) r)"
  using reaches_end [OF assms(3)] assms(1,2,4)
  by (simp add: http_parser_execute_def Let_def execute_body_def execute_env_def execute_start_def)

lemma reaches_exit:
  assumes "reaches e r r1" "execute_byte e r1 = x" "\<forall>r2. x \<noteq> Next r2" "rp r1 < length (edata e)"
  shows "execute_loop (length (edata e) - rp r) e r = x"
proof -
  obtain k where le: "rp r \<le> rp r1" and k: "k \<le> rp r1 - rp r" "\<forall>n. execute_loop (n + k) e r = execute_loop n e r1"
    using reaches_loop [OF assms(1)] by auto
  obtain n where n: "length (edata e) - rp r - k = Suc n" using le k(1) assms(4) by (cases "length (edata e) - rp r - k") auto
  then have "length (edata e) - rp r = Suc n + k" by simp
  moreover have "execute_loop (Suc n) e r1 = x" using assms(2-4) by (cases x) simp_all
  ultimately show ?thesis using k(2) by metis
qed

lemma execute_error:
  assumes "http_errno q = HPE_OK" "data \<noteq> []" "reaches (execute_env strict mhs ss q data) (execute_start q w) r1"
    and "execute_byte (execute_env strict mhs ss q data) r1 = GotoError r2" "http_errno (rparser r2) = err" "err \<noteq> HPE_OK"
    and "rp r1 < length data"
  shows "\<exists>n q' w'. http_parser_execute strict mhs ss q data w = Inr (n, q', w') \<and> http_errno q' = err"
  using reaches_exit [OF assms(3,4)] assms(1,2,5-7)
  by (simp add: http_parser_execute_def Let_def execute_body_def execute_env_def execute_start_def error_exit_def finish_def RETURN_def)

lemma execute_returned:
  assumes "http_errno q = HPE_OK" "data \<noteq> []" "reaches (execute_env strict mhs ss q data) (execute_start q w) r1"
    and "execute_byte (execute_env strict mhs ss q data) r1 = Returned n q' w'" "rp r1 < length data"
  shows "http_parser_execute strict mhs ss q data w = Inr (n, q', w')"
  using reaches_exit [OF assms(3,4)] assms(1,2,5)
  by (simp add: http_parser_execute_def Let_def execute_body_def execute_env_def execute_start_def finish_def)

section \<open>The recording embedder\<close>

definition quiet :: "(string \<times> string) list http_parser_settings" where
  "quiet = recorder (\<lambda>_. False)"

lemma quiet_callbacks [simp]:
  "on_message_begin quiet = Some (record_notify ''message_begin'')"
  "on_message_complete quiet = Some (record_notify ''message_complete'')"
  "on_chunk_header quiet = Some (record_notify ''chunk_header'')"
  "on_chunk_complete quiet = Some (record_notify ''chunk_complete'')"
  "on_body quiet = Some (record_data (\<lambda>_. False) ''body'')"
  "on_header_value quiet = Some (record_data (\<lambda>_. False) ''header_value'')"
  by (simp_all add: quiet_def recorder_def)

lemma notify_recorded:
  assumes "http_errno (rparser r) = HPE_OK"
  shows "CALLBACK_NOTIFY_ER (Some (record_notify name)) err er r =
    Next (r\<lparr>rparser := (rparser r)\<lparr>pstate := p_state r\<rparr>, rworld := rworld r @ [(name, [])]\<rparr>)"
  using assms by (simp add: CALLBACK_NOTIFY_ER_def assert_that_def record_notify_def after_callback_def UPDATE_STATE_def Let_def)

lemma data_recorded:
  assumes "data_cb (settings e) k = Some (record_data (\<lambda>_. False) name)"
    and "http_errno (rparser r) = HPE_OK" "marks r k = Some m" "m \<le> endp" "endp \<le> length (edata e)"
  shows "CALLBACK_DATA_ER e k endp er r =
    Next (r\<lparr>rparser := (rparser r)\<lparr>pstate := p_state r\<rparr>, marks := (marks r)(k := None),
      rworld := rworld r @ [(name, take (endp - m) (drop m (edata e)))]\<rparr>)"
  using assms by (simp add: CALLBACK_DATA_ER_def assert_that_def record_data_def after_callback_def UPDATE_STATE_def Let_def)

lemma body_recorded:
  assumes "settings e = quiet" "http_errno (rparser r) = HPE_OK" "marks r body_mark = Some m" "m \<le> endp" "endp \<le> length (edata e)"
  shows "CALLBACK_DATA_ER e body_mark endp er r =
    Next (r\<lparr>rparser := (rparser r)\<lparr>pstate := p_state r\<rparr>, marks := (marks r)(body_mark := None),
      rworld := rworld r @ [(''body'', take (endp - m) (drop m (edata e)))]\<rparr>)"
  using data_recorded [of e body_mark] assms by (simp add: data_cb_def)

end
