(* ===== verification/Http_Methods.thy ===== *)
theory Http_Methods
  imports Http_Reach
begin

text \<open>
  Request methods: the parser reads a method by switching between candidates byte by byte;
  here it is compared with the list of method names.
\<close>

section \<open>The candidates\<close>

definition method_step :: "http_method \<times> nat \<Rightarrow> char \<Rightarrow> (http_method \<times> nat) option" where
  "method_step = (\<lambda>(m, i) c.
     if c = NUL then None
     else if cstr_at (method_string m) i = Inr c then Some (m, Suc i)
     else if is_method_char c then map_option (\<lambda>m'. (m', Suc i)) (map_of method_switch (m, i, c))
     else None)"

fun method_run :: "http_method \<times> nat \<Rightarrow> string \<Rightarrow> (http_method \<times> nat) option" where
  "method_run x [] = Some x"
| "method_run x (c # cs) = (case method_step x c of None \<Rightarrow> None | Some y \<Rightarrow> method_run y cs)"

definition method_prefix :: "http_method \<times> nat \<Rightarrow> string \<Rightarrow> bool" where
  "method_prefix = (\<lambda>(m, i) s. i \<le> length (method_string m) \<and> take i (method_string m) = s)"

lemma every_method: "list_all P http_methods \<Longrightarrow> P m"
  by (cases m) (simp_all add: http_methods_def)

lemma method_length: "method_string m \<noteq> []" "length (method_string m) < 31" "CHR '' '' \<notin> set (method_string m)"
  "NUL \<notin> set (method_string m)"
proof -
  have "list_all (\<lambda>m. method_string m \<noteq> [] \<and> length (method_string m) < 31 \<and> CHR '' '' \<notin> set (method_string m) \<and>
    NUL \<notin> set (method_string m)) http_methods"
    by code_simp
  from every_method [OF this, of m]
  show "method_string m \<noteq> []" "length (method_string m) < 31" "CHR '' '' \<notin> set (method_string m)"
  "NUL \<notin> set (method_string m)" by simp_all
qed

lemma switch_prefix:
  assumes "map_of method_switch (m, i, c) = Some m'"
  shows "i < length (method_string m') \<and> take i (method_string m') = take i (method_string m) \<and> method_string m' ! i = c"
proof -
  have "list_all (\<lambda>((m, i, c), m'). i < length (method_string m') \<and> take i (method_string m') = take i (method_string m) \<and>
      method_string m' ! i = c) method_switch" by code_simp
  then show ?thesis using map_of_SomeD [OF assms] by (auto simp: list_all_iff)
qed

lemma first_prefix:
  assumes "first_method c = Some m"
  shows "method_prefix (m, 1) [c]" "IS_ALPHA c"
proof -
  have "list_all (\<lambda>c. case first_method c of None \<Rightarrow> False | Some m \<Rightarrow> method_prefix (m, 1) [c] \<and> IS_ALPHA c) ''ABCDGHLMNOPRSTU''"
    by code_simp
  moreover have "c \<in> set ''ABCDGHLMNOPRSTU''"
    using assms by (auto simp: first_method_def split: if_splits)
  ultimately show "method_prefix (m, 1) [c]" "IS_ALPHA c" using assms by (auto simp: list_all_iff)
qed

lemma method_step_prefix:
  assumes "method_prefix x s" "method_step x c = Some y"
  shows "method_prefix y (s @ [c])"
proof -
  obtain m i where x: "x = (m, i)" by (cases x)
  have le: "i \<le> length (method_string m)" "take i (method_string m) = s" using assms(1) by (simp_all add: method_prefix_def x)
  consider (same) "c \<noteq> NUL" "cstr_at (method_string m) i = Inr c" "y = (m, Suc i)"
    | (switch) m' where "map_of method_switch (m, i, c) = Some m'" "y = (m', Suc i)"
    using assms(2) by (auto simp: method_step_def x split: if_splits)
  then show ?thesis
  proof cases
    case same
    then have "i < length (method_string m)" "method_string m ! i = c" using le by (auto simp: cstr_at_def split: if_splits)
    then show ?thesis using le same(3) by (simp add: method_prefix_def take_Suc_conv_app_nth)
  next
    case switch
    then show ?thesis using switch_prefix [OF switch(1)] le by (simp add: method_prefix_def take_Suc_conv_app_nth)
  qed
qed

lemma method_run_prefix: "method_prefix x s \<Longrightarrow> method_run x cs = Some y \<Longrightarrow> method_prefix y (s @ cs)"
proof (induction cs arbitrary: x s)
  case (Cons c cs)
  then obtain z where "method_step x c = Some z" "method_run z cs = Some y" by (auto split: option.splits)
  then show ?case using Cons.IH [of z "s @ [c]"] method_step_prefix [OF Cons.prems(1)] by simp
qed simp

text \<open>Every method name leads to its method.\<close>

lemma method_run_complete:
  "\<exists>m0. first_method (hd (method_string m)) = Some m0 \<and>
    method_run (m0, 1) (tl (method_string m)) = Some (m, length (method_string m))"
proof -
  have "list_all (\<lambda>m. case first_method (hd (method_string m)) of None \<Rightarrow> False
    | Some m0 \<Rightarrow> method_run (m0, 1) (tl (method_string m)) = Some (m, length (method_string m))) http_methods"
    by code_simp
  from every_method [OF this, of m] show ?thesis by (auto split: option.splits)
qed

section \<open>The parser\<close>

lemma method_byte:
  assumes "p_state r = s_req_method" "rp r < length (edata e)" "edata e ! rp r = c" "unat (rnread r) + 1 \<le> unat (max_header_size e)"
    and "unat (index (rparser r)) \<le> length (method_string (pmethod (rparser r)))"
  defines "i \<equiv> unat (index (rparser r))" and "m \<equiv> pmethod (rparser r)" and "r1 \<equiv> r\<lparr>rch := c, rnread := rnread r + 1\<rparr>"
  shows "c \<noteq> CHR '' '' \<Longrightarrow> execute_byte e r =
      (case method_step (m, i) c of None \<Rightarrow> set_errno_and_goto_error HPE_INVALID_METHOD r1
       | Some (m', i') \<Rightarrow> Next (r1\<lparr>rparser := (rparser r)\<lparr>pmethod := m', index := of_nat i'\<rparr>\<rparr>))"
    and "c = CHR '' '' \<Longrightarrow> execute_byte e r =
      (if i = length (method_string m)
       then Next (r1\<lparr>p_state := s_req_spaces_before_url, rparser := (rparser r)\<lparr>index := index (rparser r) + 1\<rparr>\<rparr>)
       else set_errno_and_goto_error HPE_INVALID_METHOD r1)"
proof -
  have step: "execute_byte e r = (case do_req_method r1 of Reexecute r' \<Rightarrow> reexecute 7 e r' | x \<Rightarrow> x)"
    using header_byte [of r e] assms(1-4) by (simp add: PARSING_HEADER_iff dispatch_def r1_def)
  have at: "cstr_at (method_string m) i = Inr (if i < length (method_string m) then method_string m ! i else NUL)"
    using assms(5) by (simp add: cstr_at_def i_def m_def)
  have suc: "index (rparser r) + 1 = of_nat (Suc i)" by (simp add: i_def)
  have same: "q\<lparr>pmethod := pmethod q, index := x\<rparr> = q\<lparr>index := x\<rparr>" for q :: http_parser and x by simp
  show "execute_byte e r =
      (case method_step (m, i) c of None \<Rightarrow> set_errno_and_goto_error HPE_INVALID_METHOD r1
       | Some (m', i') \<Rightarrow> Next (r1\<lparr>rparser := (rparser r)\<lparr>pmethod := m', index := of_nat i'\<rparr>\<rparr>))" if "c \<noteq> CHR '' ''"
    using that at suc
    by (auto simp: step do_req_method_def method_step_def Let_def r1_def i_def m_def on_parser_def next_index_def
        set_errno_and_goto_error_def split: option.splits)
  have space: "\<not> is_method_char CHR '' ''" by code_simp
  show "execute_byte e r =
      (if i = length (method_string m)
       then Next (r1\<lparr>p_state := s_req_spaces_before_url, rparser := (rparser r)\<lparr>index := index (rparser r) + 1\<rparr>\<rparr>)
       else set_errno_and_goto_error HPE_INVALID_METHOD r1)" if "c = CHR '' ''"
  proof (cases "i = length (method_string m)")
    case True
    then have "cstr_at (method_string m) i = Inr NUL" using at by simp
    then show ?thesis using True that
      by (simp add: step do_req_method_def Let_def r1_def i_def m_def on_parser_def next_index_def UPDATE_STATE_def)
  next
    case False
    then have less: "i < length (method_string m)" using assms(5) by (simp add: i_def m_def)
    then have "cstr_at (method_string m) i = Inr (method_string m ! i)" "method_string m ! i \<noteq> CHR '' ''"
      using at method_length(3) [of m] by (auto dest: nth_mem)
    moreover have "method_string m ! i \<noteq> NUL" using less method_length(4) [of m] by (auto dest: nth_mem)
    ultimately show ?thesis using False that space by (simp add: step do_req_method_def Let_def r1_def i_def m_def
        set_errno_and_goto_error_def)
  qed
qed

text \<open>How reading \<open>n\<close> more bytes of a name ends, \<open>x\<close> being what is left of the candidates.\<close>

definition method_read :: "'w env \<Rightarrow> 'w run \<Rightarrow> nat \<Rightarrow> (http_method \<times> nat) option \<Rightarrow> bool" where
  "method_read e r n x \<longleftrightarrow>
     (case x of
        Some (m, i) \<Rightarrow>
          \<exists>c. reaches e r (r\<lparr>rch := c, rp := rp r + n, rnread := rnread r + of_nat n,
            rparser := (rparser r)\<lparr>pmethod := m, index := of_nat i\<rparr>\<rparr>)
      | None \<Rightarrow>
          \<exists>r1 r2. reaches e r r1 \<and> rp r1 < length (edata e) \<and> execute_byte e r1 = GotoError r2 \<and>
            http_errno (rparser r2) = HPE_INVALID_METHOD)"

lemma method_rest:
  assumes "edata e = pre @ s @ post" "rp r = length pre" "p_state r = s_req_method" "CHR '' '' \<notin> set s"
    and "method_prefix (pmethod (rparser r), unat (index (rparser r))) t" "unat (rnread r) + length s \<le> unat (max_header_size e)"
  shows "method_read e r (length s) (method_run (pmethod (rparser r), unat (index (rparser r))) s)"
  using assms
proof (induction s arbitrary: pre r t)
  case Nil
  show ?case using reaches_refl [of e r] by (simp add: method_read_def) (intro exI [of _ "rch r"], simp)
next
  case (Cons c s)
  let ?x = "(pmethod (rparser r), unat (index (rparser r)))"
  have at: "rp r < length (edata e)" "edata e ! rp r = c" using Cons.prems(1,2) by simp_all
  have le: "unat (index (rparser r)) \<le> length (method_string (pmethod (rparser r)))"
    using Cons.prems(5) by (simp add: method_prefix_def)
  have byte: "execute_byte e r =
      (case method_step ?x c of None \<Rightarrow> set_errno_and_goto_error HPE_INVALID_METHOD (r\<lparr>rch := c, rnread := rnread r + 1\<rparr>)
       | Some (m', i') \<Rightarrow> Next (r\<lparr>rch := c, rnread := rnread r + 1, rparser := (rparser r)\<lparr>pmethod := m', index := of_nat i'\<rparr>\<rparr>))"
    using method_byte(1) [OF Cons.prems(3) at _ le] Cons.prems(4,6) by auto
  show ?case
  proof (cases "method_step ?x c")
    case None
    then show ?thesis using byte at reaches_refl [of e r]
      by (auto simp: method_read_def set_errno_and_goto_error_def SET_ERRNO_def on_parser_def)
  next
    case (Some y)
    obtain m i where y: "y = (m, i)" by (cases y)
    let ?r1 = "r\<lparr>rch := c, rp := Suc (rp r), rnread := rnread r + 1, rparser := (rparser r)\<lparr>pmethod := m, index := of_nat i\<rparr>\<rparr>"
    have prefix: "method_prefix (m, i) (t @ [c])" using method_step_prefix [OF Cons.prems(5) Some] y by simp
    then have i: "unat (of_nat i :: 5 word) = i"
      using method_length(2) [of m] by (simp add: method_prefix_def unat_of_nat take_bit_nat_eq_self)
    have n: "unat (rnread r + 1) = unat (rnread r) + 1" using count_one(2) [of r e] Cons.prems(6) by simp
    have "execute_byte e r = Next (r\<lparr>rch := c, rnread := rnread r + 1, rparser := (rparser r)\<lparr>pmethod := m, index := of_nat i\<rparr>\<rparr>)"
      using byte Some y by simp
    then have one: "reaches e r ?r1" by (rule reaches_to) simp_all
    have "method_read e ?r1 (length s) (method_run (m, i) s)"
      using Cons.IH [of "pre @ [c]" ?r1 "t @ [c]"] Cons.prems prefix i n by simp
    then show ?thesis using reaches_trans [OF one] Some y
      by (auto simp: method_read_def add.commute add.left_commute split: option.splits)
  qed
qed

lemma method_first:
  assumes "settings e = quiet" "p_state r = s_start_req" "rp r < length (edata e)" "edata e ! rp r = c" "c \<noteq> CR" "c \<noteq> LF"
    and "unat (rnread r) + 1 \<le> unat (max_header_size e)" "http_errno (rparser r) = HPE_OK"
  shows "first_method c = Some m \<Longrightarrow> execute_byte e r =
      Next (r\<lparr>rch := c, rnread := rnread r + 1, p_state := s_req_method, rworld := rworld r @ [(''message_begin'', [])],
        rparser := (clear_message (rparser r))\<lparr>pmethod := m, index := 1, pstate := s_req_method\<rparr>\<rparr>)"
    and "first_method c = None \<Longrightarrow> \<exists>r1. execute_byte e r = GotoError r1 \<and> http_errno (rparser r1) = HPE_INVALID_METHOD"
proof -
  let ?r1 = "r\<lparr>rch := c, rnread := rnread r + 1\<rparr>"
  have step: "execute_byte e r = (case do_start_req e ?r1 of Reexecute r' \<Rightarrow> reexecute 7 e r' | x \<Rightarrow> x)"
    using header_byte [of r e] assms(2-4,7) by (simp add: PARSING_HEADER_iff dispatch_def)
  show "execute_byte e r =
      Next (r\<lparr>rch := c, rnread := rnread r + 1, p_state := s_req_method, rworld := rworld r @ [(''message_begin'', [])],
        rparser := (clear_message (rparser r))\<lparr>pmethod := m, index := 1, pstate := s_req_method\<rparr>\<rparr>)" if "first_method c = Some m"
    using that assms(1,5,6,8) first_prefix(2) [OF that]
    by (simp add: step do_start_req_def Let_def on_parser_def clear_message_def CALLBACK_NOTIFY_def notify_recorded UPDATE_STATE_def)
  show "\<exists>r1. execute_byte e r = GotoError r1 \<and> http_errno (rparser r1) = HPE_INVALID_METHOD" if "first_method c = None"
    using that assms(5,6) by (simp add: step do_start_req_def Let_def set_errno_and_goto_error_def SET_ERRNO_def on_parser_def)
qed

text \<open>The whole name with the space behind it: accepted as \<open>m\<close>, or refused.\<close>

definition method_accepted :: "'w env \<Rightarrow> 'w run \<Rightarrow> http_method \<Rightarrow> bool" where
  "method_accepted e r m \<longleftrightarrow>
     (\<exists>r'. reaches e r r' \<and> rp r' = length (edata e) \<and> p_state r' = s_req_spaces_before_url \<and> marks r' = marks r \<and>
       rworld r' = rworld r \<and> http_errno (rparser r') = http_errno (rparser r) \<and> pmethod (rparser r') = m)"

definition method_refused :: "'w env \<Rightarrow> 'w run \<Rightarrow> bool" where
  "method_refused e r \<longleftrightarrow>
     (\<exists>r1 r2. reaches e r r1 \<and> rp r1 < length (edata e) \<and> execute_byte e r1 = GotoError r2 \<and>
       http_errno (rparser r2) = HPE_INVALID_METHOD)"

lemma method_tail:
  assumes "edata e = pre @ s @ '' ''" "rp r = length pre" "p_state r = s_req_method" "CHR '' '' \<notin> set s"
    and "method_prefix (pmethod (rparser r), unat (index (rparser r))) t" "unat (rnread r) + length s + 1 \<le> unat (max_header_size e)"
  defines "x \<equiv> method_run (pmethod (rparser r), unat (index (rparser r))) s"
  shows "if \<exists>m. x = Some (m, length (method_string m)) then method_accepted e r (fst (the x)) else method_refused e r"
proof (cases x)
  case None
  then show ?thesis using method_rest [of e pre s "'' ''" r t] assms by (simp add: method_read_def method_refused_def)
next
  case (Some y)
  obtain m i where y: "y = (m, i)" by (cases y)
  have prefix: "method_prefix (m, i) (t @ s)" using method_run_prefix [OF assms(5)] Some y by (simp add: x_def)
  then have le: "i \<le> length (method_string m)" by (simp add: method_prefix_def)
  then have i: "unat (of_nat i :: 5 word) = i" using method_length(2) [of m] by (simp add: unat_of_nat take_bit_nat_eq_self)
  obtain c where one: "reaches e r (r\<lparr>rch := c, rp := rp r + length s, rnread := rnread r + of_nat (length s),
      rparser := (rparser r)\<lparr>pmethod := m, index := of_nat i\<rparr>\<rparr>)" (is "reaches _ _ ?r1")
    using method_rest [of e pre s "'' ''" r t] assms(1-6) Some y by (auto simp: method_read_def x_def)
  have n: "unat (rnread r + of_nat (length s)) = unat (rnread r) + length s" using count_many(2) [of r "length s" e] assms(6) by simp
  have inside: "rp ?r1 < length (edata e)" using assms(1,2) by simp
  have space: "execute_byte e ?r1 =
      (if i = length (method_string m)
       then Next (?r1\<lparr>rch := CHR '' '', rnread := rnread ?r1 + 1, p_state := s_req_spaces_before_url,
         rparser := (rparser ?r1)\<lparr>index := index (rparser ?r1) + 1\<rparr>\<rparr>)
       else set_errno_and_goto_error HPE_INVALID_METHOD (?r1\<lparr>rch := CHR '' '', rnread := rnread ?r1 + 1\<rparr>))"
    using method_byte(2) [of ?r1 e "CHR '' ''"] assms(1-3,6) n i le by (simp add: nth_append)
  show ?thesis
  proof (cases "i = length (method_string m)")
    case True
    then have "execute_byte e ?r1 = Next (?r1\<lparr>rch := CHR '' '', rnread := rnread ?r1 + 1, p_state := s_req_spaces_before_url,
         rparser := (rparser ?r1)\<lparr>index := index (rparser ?r1) + 1\<rparr>\<rparr>)" using space by simp
    then have two: "reaches e ?r1 (?r1\<lparr>rch := CHR '' '', rp := Suc (rp ?r1), rnread := rnread ?r1 + 1, p_state := s_req_spaces_before_url,
         rparser := (rparser ?r1)\<lparr>index := index (rparser ?r1) + 1\<rparr>\<rparr>)" by (rule reaches_to) simp_all
    from reaches_trans [OF one two] show ?thesis using True Some y assms(1,2) by (auto simp: method_accepted_def)
  next
    case False
    then show ?thesis using one space inside Some y
      by (auto simp: method_refused_def set_errno_and_goto_error_def SET_ERRNO_def on_parser_def)
  qed
qed

lemma method_known:
  assumes "first_method c = Some m0"
  shows "(\<exists>m. method_run (m0, 1) cs = Some (m, length (method_string m))) \<longleftrightarrow> (\<exists>m. method_string m = c # cs)"
    and "method_run (m0, 1) cs = Some (m, length (method_string m)) \<Longrightarrow> method_string m = c # cs"
proof -
  show sound: "method_string m = c # cs" if "method_run (m0, 1) cs = Some (m, length (method_string m))" for m
    using method_run_prefix [OF first_prefix(1) [OF assms] that] by (simp add: method_prefix_def)
  show "(\<exists>m. method_run (m0, 1) cs = Some (m, length (method_string m))) \<longleftrightarrow> (\<exists>m. method_string m = c # cs)"
  proof
    assume "\<exists>m. method_string m = c # cs"
    then obtain m where "method_string m = c # cs" by blast
    then show "\<exists>m. method_run (m0, 1) cs = Some (m, length (method_string m))"
      using method_run_complete [of m] assms by auto
  qed (use sound in blast)
qed

lemma method_execute:
  assumes q: "http_errno q = HPE_OK" "pstate q = s_start_req"
    and s: "s \<noteq> []" "CHR '' '' \<notin> set s" "hd s \<noteq> CR" "hd s \<noteq> LF" "unat (nread q) + length s + 1 \<le> unat mhs"
  shows "if \<exists>m. method_string m = s then
      \<exists>q'. http_parser_execute strict mhs quiet q (s @ '' '') w = Inr (length s + 1, q', w @ [(''message_begin'', [])]) \<and>
        http_errno q' = HPE_OK \<and> pstate q' = s_req_spaces_before_url \<and> method_string (pmethod q') = s
    else \<exists>n q' w'. http_parser_execute strict mhs quiet q (s @ '' '') w = Inr (n, q', w') \<and> http_errno q' = HPE_INVALID_METHOD"
proof -
  obtain c cs where cs: "s = c # cs" using s(1) by (cases s) auto
  let ?d = "s @ '' ''" and ?e = "execute_env strict mhs quiet q (s @ '' '')" and ?r = "execute_start q w"
  have e: "settings ?e = quiet" "edata ?e = [c] @ cs @ '' ''" "max_header_size ?e = mhs" by (simp_all add: execute_env_def cs)
  have first: "p_state ?r = s_start_req" "rp ?r < length (edata ?e)" "edata ?e ! rp ?r = c" "c \<noteq> CR" "c \<noteq> LF"
      "unat (rnread ?r) + 1 \<le> unat (max_header_size ?e)" "http_errno (rparser ?r) = HPE_OK"
    using q s cs by (simp_all add: execute_start_def execute_env_def)
  have error: "\<exists>n q' w'. http_parser_execute strict mhs quiet q ?d w = Inr (n, q', w') \<and> http_errno q' = HPE_INVALID_METHOD"
    if "method_refused ?e ?r"
    using that execute_error [OF q(1), of ?d strict mhs quiet w] by (auto simp: method_refused_def execute_env_def)
  show ?thesis
  proof (cases "first_method c")
    case None
    then have "\<nexists>m. method_string m = s" using method_run_complete cs by (metis list.sel(1) option.distinct(1))
    moreover have "method_refused ?e ?r"
      using method_first(2) [OF e(1) first None] first(2) reaches_refl [of ?e ?r] by (auto simp: method_refused_def)
    ultimately show ?thesis using error by simp
  next
    case (Some m0)
    let ?q1 = "(clear_message q)\<lparr>pmethod := m0, index := 1, pstate := s_req_method\<rparr>"
    let ?r1 = "?r\<lparr>rch := c, rp := 1, rnread := nread q + 1, p_state := s_req_method, rworld := w @ [(''message_begin'', [])], rparser := ?q1\<rparr>"
    have one: "reaches ?e ?r ?r1"
      by (rule reaches_to [OF method_first(1) [OF e(1) first Some]]) (simp_all add: execute_start_def)
    have n: "unat (nread q + 1) = unat (nread q) + 1" using count_one(2) [of ?r ?e] first(6) by (simp add: execute_start_def)
    have tail: "if \<exists>m. method_string m = s then method_accepted ?e ?r1 (fst (the (method_run (m0, 1) cs))) else method_refused ?e ?r1"
      using method_tail [of ?e "[c]" cs ?r1 "[c]"] e cs s first_prefix(1) [OF Some] n method_known(1) [OF Some, of cs]
      by (cases "\<exists>m. method_string m = c # cs") simp_all
    show ?thesis
    proof (cases "\<exists>m. method_string m = s")
      case True
      then obtain m where run: "method_run (m0, 1) cs = Some (m, length (method_string m))"
        using method_known(1) [OF Some, of cs] cs by auto
      note m = run method_known(2) [OF Some run, folded cs]
      obtain r' where two: "reaches ?e ?r1 r'" and r': "rp r' = length ?d" "p_state r' = s_req_spaces_before_url" "marks r' = (\<lambda>_. None)"
          "rworld r' = w @ [(''message_begin'', [])]" "http_errno (rparser r') = HPE_OK" "pmethod (rparser r') = m"
        using tail True m q by (auto simp: method_accepted_def execute_start_def execute_env_def initial_marks_def url_states_def clear_message_def)
      have "http_parser_execute strict mhs quiet q ?d w = finish (flush_marks ?e r')"
        using execute_reaches [OF q(1) _ reaches_trans [OF one two]] r'(1) by simp
      then show ?thesis using True flush_no_marks [OF r'(3,5), of ?e] r' m(2) by (simp add: finish_def RETURN_def execute_env_def)
    next
      case False
      then have "method_refused ?e ?r" using tail reaches_trans [OF one] by (auto simp: method_refused_def)
      then show ?thesis using False error by simp
    qed
  qed
qed

end
