(* ===== verification/Http_Bodies.thy ===== *)
theory Http_Bodies
  imports Http_Reach
begin

text \<open>
  Message bodies as the parser delivers them to an embedder that records its callbacks:
  bodies of known length cut into buffers, and chunked bodies.
\<close>

section \<open>Bodies of known length\<close>

lemma bytes_to_read_min:
  assumes "length (edata e) < 2 ^ 64"
  shows "unat (bytes_to_read e r) = min (unat (content_length (rparser r))) (length (edata e) - rp r)"
proof -
  have "unat (of_nat (length (edata e) - rp r) :: uint64) = length (edata e) - rp r"
    using assms by (simp add: unat_of_nat take_bit_nat_eq_self del: of_nat_diff)
  then show ?thesis by (auto simp add: bytes_to_read_def min_def word_le_nat_alt simp del: of_nat_diff)
qed

lemma read_body_all:
  assumes "length (edata e) < 2 ^ 64" "marks r = (\<lambda>_. None)" "unat (content_length (rparser r)) \<le> length (edata e) - rp r"
  shows "read_body e r = r\<lparr>rp := rp r + unat (content_length (rparser r)) - 1, marks := (\<lambda>_. None)(body_mark := Some (rp r)),
    rparser := (rparser r)\<lparr>content_length := 0\<rparr>\<rparr>"
proof -
  have "bytes_to_read e r = content_length (rparser r)"
    using bytes_to_read_min [OF assms(1), of r] assms(3) by (simp add: word_unat_eq_iff)
  then show ?thesis using assms(2) by (simp add: read_body_def Let_def MARK_def on_parser_def)
qed

lemma read_body_part:
  assumes "length (edata e) < 2 ^ 64" "marks r = (\<lambda>_. None)" "length (edata e) - rp r < unat (content_length (rparser r))"
    and "rp r \<le> length (edata e)"
  defines "c \<equiv> content_length (rparser r) - of_nat (length (edata e) - rp r)"
  shows "read_body e r = r\<lparr>rp := length (edata e) - 1, marks := (\<lambda>_. None)(body_mark := Some (rp r)),
      rparser := (rparser r)\<lparr>content_length := c\<rparr>\<rparr>"
    and "unat c = unat (content_length (rparser r)) - (length (edata e) - rp r)"
proof -
  let ?n = "of_nat (length (edata e) - rp r) :: uint64"
  have u: "unat (bytes_to_read e r) = length (edata e) - rp r"
    using bytes_to_read_min [OF assms(1), of r] assms(3) by simp
  then have "bytes_to_read e r = ?n" by (metis of_nat_unat ucast_id)
  then show "read_body e r = r\<lparr>rp := length (edata e) - 1, marks := (\<lambda>_. None)(body_mark := Some (rp r)),
      rparser := (rparser r)\<lparr>content_length := c\<rparr>\<rparr>"
    using assms(2,4) u by (simp add: read_body_def Let_def MARK_def on_parser_def c_def del: of_nat_diff)
  have "?n \<le> content_length (rparser r)" using u \<open>bytes_to_read e r = ?n\<close> assms(3) by (simp add: word_le_nat_alt)
  then show "unat c = unat (content_length (rparser r)) - (length (edata e) - rp r)"
    using u \<open>bytes_to_read e r = ?n\<close> by (simp add: c_def unat_sub del: of_nat_diff)
qed

lemma reexecute_again:
  "reexecute 7 e r = (case dispatch e r of Reexecute r' \<Rightarrow> reexecute 6 e r' | x \<Rightarrow> x)"
  using reexecute.simps(2) [of 6 e r] by (simp add: eval_nat_numeral)

lemma body_byte:
  assumes "\<not> PARSING_HEADER (p_state r)" "rp r < length (edata e)"
  shows "execute_byte e r = (case dispatch e (r\<lparr>rch := edata e ! rp r\<rparr>) of Reexecute r' \<Rightarrow> reexecute 7 e r' | x \<Rightarrow> x)"
  using assms by (simp add: execute_byte_def Let_def reexecute_bound)

lemma NEW_MESSAGE_irrelevant [simp]:
  "NEW_MESSAGE strict (q\<lparr>pstate := s\<rparr>) = NEW_MESSAGE strict q"
  "NEW_MESSAGE strict (q\<lparr>nread := n\<rparr>) = NEW_MESSAGE strict q"
  unfolding NEW_MESSAGE_def http_should_keep_alive_def http_message_needs_eof_def start_state_def has_flag_def by simp_all

lemma message_done:
  assumes "settings e = quiet" "http_errno (rparser r) = HPE_OK" "\<not> upgrade (rparser r)"
  shows "do_message_done e r =
    Next (r\<lparr>p_state := NEW_MESSAGE (estrict e) (rparser r), rworld := rworld r @ [(''message_complete'', [])],
      rparser := (rparser r)\<lparr>pstate := NEW_MESSAGE (estrict e) (rparser r)\<rparr>\<rparr>)"
  using assms by (simp add: do_message_done_def message_complete_def CALLBACK_NOTIFY_def notify_recorded new_message_def UPDATE_STATE_def)

lemma flush_body:
  assumes "settings e = quiet" "http_errno (rparser r) = HPE_OK" "marks r = (\<lambda>_. None)(body_mark := Some m)" "m \<le> rp r"
    and "rp r = length (edata e)"
  shows "flush_marks e r = RETURN (length (edata e))
    (r\<lparr>rparser := (rparser r)\<lparr>pstate := p_state r\<rparr>, marks := (\<lambda>_. None), rworld := rworld r @ [(''body'', drop m (edata e))]\<rparr>)"
  using assms by (simp add: flush_marks_def assert_that_def mark_count_def no_mark_no_callback CALLBACK_DATA_NOADVANCE_def [of e body_mark]
    body_recorded)

text \<open>A buffer with a part of the body, and the buffer with the rest of it.\<close>

lemma identity_part:
  assumes q: "http_errno q = HPE_OK" "pstate q = s_body_identity" "content_length q \<noteq> ULLONG_MAX"
    and data: "data \<noteq> []" "length data < unat (content_length q)"
  shows "\<exists>c. http_parser_execute strict mhs quiet q data w = Inr (length data, q\<lparr>content_length := c\<rparr>, w @ [(''body'', data)]) \<and>
    unat c = unat (content_length q) - length data"
proof -
  let ?e = "execute_env strict mhs quiet q data" and ?r = "(execute_start q w)\<lparr>rch := data ! 0\<rparr>"
  let ?c = "content_length q - of_nat (length data)"
  let ?r2 = "?r\<lparr>rp := length data, marks := (\<lambda>_. None)(body_mark := Some 0), rparser := q\<lparr>content_length := ?c\<rparr>\<rparr>"
  have len: "length data < 2 ^ 64" using data(2) unsigned_less [of "content_length q", where ?'a = nat] by simp
  have none: "initial_marks s_body_identity = (\<lambda>_. None)" by (simp add: initial_marks_def url_states_def)
  have read: "read_body ?e ?r = ?r\<lparr>rp := length data - 1, marks := (\<lambda>_. None)(body_mark := Some 0), rparser := q\<lparr>content_length := ?c\<rparr>\<rparr>"
    and c: "unat ?c = unat (content_length q) - length data"
    using read_body_part [of ?e ?r] len data(2) none q(2) by (simp_all add: execute_env_def execute_start_def)
  have "?c \<noteq> 0" using c data(2) by (metis diff_is_0_eq not_le unsigned_0)
  then have "execute_byte ?e (execute_start q w) = Next (read_body ?e ?r)"
    using body_byte [of "execute_start q w" ?e] q data none read
    by (auto simp: PARSING_HEADER_iff execute_env_def execute_start_def dispatch_def do_body_identity_def length_known_def assert_that_def Let_def)
  then have "reaches ?e (execute_start q w) ?r2"
    using reaches_one [of ?e "execute_start q w" "read_body ?e ?r"] read data(1) by (simp add: execute_start_def)
  moreover have "flush_marks ?e ?r2 = Returned (length data) (q\<lparr>content_length := ?c\<rparr>) (w @ [(''body'', data)])"
    using flush_body [of ?e ?r2 0] q by (simp add: execute_env_def execute_start_def RETURN_def)
  ultimately show ?thesis using execute_reaches [OF q(1) data(1), of strict mhs quiet w ?r2] c
    by (auto simp: finish_def intro: exI [of _ ?c])
qed

lemma identity_rest:
  assumes q: "http_errno q = HPE_OK" "pstate q = s_body_identity" "content_length q \<noteq> ULLONG_MAX" "\<not> upgrade q"
    and data: "data \<noteq> []" "length data = unat (content_length q)"
  shows "http_parser_execute strict mhs quiet q data w =
    Inr (length data, q\<lparr>content_length := 0, pstate := NEW_MESSAGE strict (q\<lparr>content_length := 0\<rparr>)\<rparr>,
         w @ [(''body'', data), (''message_complete'', [])])"
proof -
  let ?e = "execute_env strict mhs quiet q data" and ?r = "(execute_start q w)\<lparr>rch := data ! 0\<rparr>"
  let ?s = "NEW_MESSAGE strict (q\<lparr>content_length := 0\<rparr>)"
  let ?r2 = "?r\<lparr>rp := length data, p_state := ?s, marks := (\<lambda>_. None), rworld := w @ [(''body'', data), (''message_complete'', [])],
    rparser := q\<lparr>content_length := 0, pstate := ?s\<rparr>\<rparr>"
  have len: "length data < 2 ^ 64" using data(2) unsigned_less [of "content_length q", where ?'a = nat] by simp
  have none: "initial_marks s_body_identity = (\<lambda>_. None)" by (simp add: initial_marks_def url_states_def)
  let ?r1 = "?r\<lparr>rp := length data - 1, marks := (\<lambda>_. None)(body_mark := Some 0), rparser := q\<lparr>content_length := 0\<rparr>\<rparr>"
  have read: "read_body ?e ?r = ?r1"
    using read_body_all [of ?e ?r] len data(2) none q(2) by (simp add: execute_env_def execute_start_def)
  have "content_length q \<noteq> 0" using data by auto
  then have body: "dispatch ?e ?r = andthen (CALLBACK_DATA_ER ?e body_mark (length data) (length data - 1) (?r1\<lparr>p_state := s_message_done\<rparr>)) Reexecute"
    using q(2,3) data(1) read by (simp add: execute_start_def dispatch_def do_body_identity_def length_known_def assert_that_def Let_def UPDATE_STATE_def)
  have "CALLBACK_DATA_ER ?e body_mark (length data) (length data - 1) (?r1\<lparr>p_state := s_message_done\<rparr>) =
      Next (?r1\<lparr>p_state := s_message_done, marks := (\<lambda>_. None), rworld := w @ [(''body'', data)],
        rparser := q\<lparr>content_length := 0, pstate := s_message_done\<rparr>\<rparr>)"
    using body_recorded [of ?e "?r1\<lparr>p_state := s_message_done\<rparr>" 0 "length data" "length data - 1"] q(1)
    by (simp add: execute_env_def execute_start_def)
  then have "execute_byte ?e (execute_start q w) = Next (?r2\<lparr>rp := length data - 1\<rparr>)"
    using body_byte [of "execute_start q w" ?e] body q data(1)
    by (simp add: PARSING_HEADER_iff execute_env_def execute_start_def reexecute_again) (simp add: dispatch_def message_done)
  then have "reaches ?e (execute_start q w) ?r2"
    using reaches_one [of ?e "execute_start q w" "?r2\<lparr>rp := length data - 1\<rparr>"] data(1) by (simp add: execute_start_def)
  moreover have "flush_marks ?e ?r2 = Returned (length data) (q\<lparr>content_length := 0, pstate := ?s\<rparr>) (rworld ?r2)"
    using flush_no_marks [of ?r2 ?e] q by (simp add: execute_env_def execute_start_def RETURN_def)
  ultimately show ?thesis using execute_reaches [OF q(1) data(1), of strict mhs quiet w ?r2] by (simp add: finish_def)
qed

text \<open>Buffers in a row.\<close>

fun execute_all :: "bool \<Rightarrow> uint32 \<Rightarrow> 'w http_parser_settings \<Rightarrow> http_parser \<Rightarrow> string list \<Rightarrow> 'w
    \<Rightarrow> fault + (nat \<times> http_parser \<times> 'w)" where
  "execute_all strict mhs ss q [] w = Inr (0, q, w)"
| "execute_all strict mhs ss q (b # bs) w =
     (case http_parser_execute strict mhs ss q b w of
        Inl f \<Rightarrow> Inl f
      | Inr (n, q1, w1) \<Rightarrow>
          (case execute_all strict mhs ss q1 bs w1 of
             Inl f \<Rightarrow> Inl f
           | Inr (m, q2, w2) \<Rightarrow> Inr (n + m, q2, w2)))"

lemma identity_stream:
  assumes "http_errno q = HPE_OK" "pstate q = s_body_identity" "content_length q \<noteq> ULLONG_MAX" "\<not> upgrade q"
    and "bs \<noteq> []" "list_all (\<lambda>b. b \<noteq> []) bs" "length (concat bs) = unat (content_length q)"
  shows "execute_all strict mhs quiet q bs w =
    Inr (length (concat bs), q\<lparr>content_length := 0, pstate := NEW_MESSAGE strict (q\<lparr>content_length := 0\<rparr>)\<rparr>,
         w @ map (Pair ''body'') bs @ [(''message_complete'', [])])"
  using assms
proof (induction bs arbitrary: q w)
  case (Cons b bs)
  show ?case
  proof (cases bs)
    case Nil
    then show ?thesis using identity_rest [OF Cons.prems(1-4), of b strict mhs w] Cons.prems by simp
  next
    case (Cons b' bs')
    have "length b < unat (content_length q)" using Cons.prems local.Cons by (auto simp: neq_Nil_conv)
    then obtain c where c: "http_parser_execute strict mhs quiet q b w = Inr (length b, q\<lparr>content_length := c\<rparr>, w @ [(''body'', b)])"
        "unat c = unat (content_length q) - length b"
      using identity_part [OF Cons.prems(1-3), of b strict mhs w] Cons.prems(6) by auto
    have "b \<noteq> []" using Cons.prems(6) by simp
    then have "unat c < unat (content_length q)" using c(2) \<open>length b < unat (content_length q)\<close> by simp
    then have "unat c \<noteq> unat ULLONG_MAX"
      using unsigned_less [of "content_length q", where ?'a = nat] ULLONG_MAX_unat by simp
    then have "c \<noteq> ULLONG_MAX" by auto
    then show ?thesis using Cons.IH [of "q\<lparr>content_length := c\<rparr>" "w @ [(''body'', b)]"] Cons.prems c local.Cons by simp
  qed
qed simp

section \<open>Chunked bodies\<close>

record http_chunk =
  chunk_digits :: string
  chunk_extension :: string
  chunk_bytes :: string

definition chunk_line :: "http_chunk \<Rightarrow> string" where
  "chunk_line c = chunk_digits c @ chunk_extension c @ [CR, LF]"

definition render_chunk :: "http_chunk \<Rightarrow> string" where
  "render_chunk c = chunk_line c @ chunk_bytes c @ [CR, LF]"

definition wf_chunk :: "uint32 \<Rightarrow> http_chunk \<Rightarrow> bool" where
  "wf_chunk limit c \<longleftrightarrow>
     chunk_digits c \<noteq> [] \<and> list_all IS_HEX (chunk_digits c) \<and> hex_number (chunk_digits c) = length (chunk_bytes c) \<and>
     (chunk_extension c = [] \<or> hd (chunk_extension c) \<in> {CHR '';'', CHR '' ''} \<and> CR \<notin> set (chunk_extension c)) \<and>
     length (chunk_line c) \<le> unat limit"

definition chunk_events :: "http_chunk \<Rightarrow> (string \<times> string) list" where
  "chunk_events c = [(''chunk_header'', []), (''body'', chunk_bytes c), (''chunk_complete'', [])]"

lemma chunk_number:
  assumes "edata e = pre @ ds @ post" "rp r = length pre" "p_state r = s_chunk_size" "flagged (rparser r) 0"
    and "list_all (\<lambda>c. unhex_val c \<noteq> - 1) ds" "hex_from (unat (content_length (rparser r))) ds < HEX_LIMIT"
    and "unat (rnread r) + length ds \<le> unat (max_header_size e)"
  shows "\<exists>c. reaches e r (r\<lparr>rch := c, rp := length pre + length ds, rnread := rnread r + of_nat (length ds),
    rparser := (rparser r)\<lparr>content_length := of_nat (hex_from (unat (content_length (rparser r))) ds)\<rparr>\<rparr>)"
  using assms
proof (induction ds arbitrary: pre r)
  case Nil
  show ?case using reaches_refl [of e r] by (intro exI [of _ "rch r"]) (simp add: Nil.prems(2) [symmetric])
next
  case (Cons c ds)
  let ?q = "rparser r" and ?v = "unat (content_length (rparser r)) * 16 + nat (unhex_val c)"
  have c: "unhex_val c \<noteq> - 1" and ds: "list_all (\<lambda>c. unhex_val c \<noteq> - 1) ds" using Cons.prems(5) by simp_all
  have at: "rp r < length (edata e)" "edata e ! rp r = c" using Cons.prems(1,2) by simp_all
  have small: "?v < HEX_LIMIT" using Cons.prems(6) hex_from_ge [of ?v ds] by simp
  let ?r1 = "r\<lparr>rch := c, rnread := rnread r + 1, rparser := ?q\<lparr>content_length := content_length ?q * 16 + of_int (unhex_val c)\<rparr>\<rparr>"
  have byte: "execute_byte e r = Next ?r1"
    using chunk_size_byte(1) [OF Cons.prems(3,4) at _ c] Cons.prems(7) small by simp
  have v: "unat (content_length ?q * 16 + of_int (unhex_val c)) = ?v"
    using accumulate16(1) [of "content_length ?q" "of_int (unhex_val c)"] hex_refused [of "nat (unhex_val c)" "content_length ?q"]
      unhex_range [OF c] small by simp
  have n: "unat (rnread r + 1) = unat (rnread r) + 1" using count_one(2) [of r e] Cons.prems(7) by simp
  obtain c' where "reaches e (?r1\<lparr>rp := Suc (rp r)\<rparr>) (?r1\<lparr>rch := c', rp := length (pre @ [c]) + length ds,
      rnread := rnread ?r1 + of_nat (length ds), rparser := (rparser ?r1)\<lparr>content_length := of_nat (hex_from ?v ds)\<rparr>\<rparr>)"
    using Cons.IH [of "pre @ [c]" "?r1\<lparr>rp := Suc (rp r)\<rparr>"] Cons.prems ds v n by auto
  then have "reaches e r (?r1\<lparr>rch := c', rp := length (pre @ [c]) + length ds,
      rnread := rnread ?r1 + of_nat (length ds), rparser := (rparser ?r1)\<lparr>content_length := of_nat (hex_from ?v ds)\<rparr>\<rparr>)"
    using reaches_trans [OF reaches_one [OF byte]] by simp
  then show ?case by (auto simp: add.commute add.left_commute)
qed

lemma chunk_byte:
  assumes "p_state r \<in> {s_chunk_size, s_chunk_parameters}" "flagged (rparser r) 0" "rp r < length (edata e)"
    and "edata e ! rp r = c" "unat (rnread r) + 1 \<le> unat (max_header_size e)"
  shows "c = CR \<Longrightarrow> reaches e r (r\<lparr>rch := c, rp := Suc (rp r), rnread := rnread r + 1, p_state := s_chunk_size_almost_done\<rparr>)"
    and "c \<noteq> CR \<Longrightarrow> p_state r = s_chunk_parameters \<or> c = CHR '';'' \<or> c = CHR '' '' \<Longrightarrow>
      reaches e r (r\<lparr>rch := c, rp := Suc (rp r), rnread := rnread r + 1, p_state := s_chunk_parameters\<rparr>)"
proof -
  let ?r1 = "r\<lparr>rch := c, rnread := rnread r + 1\<rparr>"
  have step: "execute_byte e r = (case dispatch e ?r1 of Reexecute r' \<Rightarrow> reexecute 7 e r' | x \<Rightarrow> x)"
    using header_byte [of r e] assms by (auto simp: PARSING_HEADER_iff)
  show "reaches e r (r\<lparr>rch := c, rp := Suc (rp r), rnread := rnread r + 1, p_state := s_chunk_size_almost_done\<rparr>)" if "c = CR"
  proof -
    have "execute_byte e r = Next (?r1\<lparr>p_state := s_chunk_size_almost_done\<rparr>)" using step that assms(1,2)
      by (auto simp: dispatch_def do_chunk_size_def do_chunk_parameters_def assert_chunked_def assert_that_def UPDATE_STATE_def)
    then show ?thesis by (rule reaches_to) simp_all
  qed
  show "reaches e r (r\<lparr>rch := c, rp := Suc (rp r), rnread := rnread r + 1, p_state := s_chunk_parameters\<rparr>)"
    if "c \<noteq> CR" "p_state r = s_chunk_parameters \<or> c = CHR '';'' \<or> c = CHR '' ''"
  proof -
    have "unhex_val CHR '';'' = - 1" "unhex_val CHR '' '' = - 1" by code_simp+
    then have "execute_byte e r = Next (?r1\<lparr>p_state := s_chunk_parameters\<rparr>)" using step that assms(1,2)
      by (auto simp: dispatch_def do_chunk_size_def do_chunk_parameters_def assert_chunked_def assert_that_def UPDATE_STATE_def)
    then show ?thesis by (rule reaches_to) simp_all
  qed
qed

lemma chunk_parameters_run:
  assumes "edata e = pre @ xs @ post" "rp r = length pre" "p_state r = s_chunk_parameters" "flagged (rparser r) 0" "CR \<notin> set xs"
    and "unat (rnread r) + length xs \<le> unat (max_header_size e)"
  shows "\<exists>c. reaches e r (r\<lparr>rch := c, rp := length pre + length xs, rnread := rnread r + of_nat (length xs)\<rparr>)"
  using assms
proof (induction xs arbitrary: pre r)
  case Nil
  show ?case using reaches_refl [of e r] by (intro exI [of _ "rch r"]) (simp add: Nil.prems(2) [symmetric])
next
  case (Cons c xs)
  let ?r1 = "r\<lparr>rch := c, rp := Suc (rp r), rnread := rnread r + 1\<rparr>"
  have same: "?r1\<lparr>p_state := s_chunk_parameters\<rparr> = ?r1" using Cons.prems(3) by (cases r) simp
  have "reaches e r (?r1\<lparr>p_state := s_chunk_parameters\<rparr>)" using chunk_byte(2) [of r e c] Cons.prems by auto
  then have one: "reaches e r ?r1" unfolding same .
  have n: "unat (rnread r + 1) = unat (rnread r) + 1" using count_one(2) [of r e] Cons.prems(6) by simp
  obtain c' where "reaches e ?r1 (?r1\<lparr>rch := c', rp := length (pre @ [c]) + length xs, rnread := rnread ?r1 + of_nat (length xs)\<rparr>)"
    using Cons.IH [of "pre @ [c]" ?r1] Cons.prems n by auto
  from reaches_trans [OF one this] show ?case
    by (intro exI [of _ c']) (simp add: add.commute add.left_commute)
qed

text \<open>The rest of a chunk line behind its digits, up to the carriage return.\<close>

lemma chunk_line_rest:
  assumes "edata e = pre @ xs @ CR # post" "rp r = length pre" "p_state r = s_chunk_size" "flagged (rparser r) 0"
    and "xs = [] \<or> hd xs \<in> {CHR '';'', CHR '' ''} \<and> CR \<notin> set xs"
    and "unat (rnread r) + length xs + 1 \<le> unat (max_header_size e)"
  shows "reaches e r (r\<lparr>rch := CR, rp := length pre + length xs + 1, rnread := rnread r + of_nat (length xs + 1),
    p_state := s_chunk_size_almost_done\<rparr>)"
proof (cases xs)
  case Nil
  then show ?thesis using chunk_byte(1) [of r e CR] assms by simp
next
  case (Cons c ys)
  let ?r1 = "r\<lparr>rch := c, rp := Suc (rp r), rnread := rnread r + 1, p_state := s_chunk_parameters\<rparr>"
  have one: "reaches e r ?r1" using chunk_byte(2) [of r e c] assms Cons by auto
  have n: "unat (rnread r + 1) = unat (rnread r) + 1" using count_one(2) [of r e] assms(6) by simp
  obtain c' where two: "reaches e ?r1 (?r1\<lparr>rch := c', rp := length (pre @ [c]) + length ys, rnread := rnread ?r1 + of_nat (length ys)\<rparr>)"
    using chunk_parameters_run [of e "pre @ [c]" ys "CR # post" ?r1] assms Cons n by auto
  let ?r2 = "?r1\<lparr>rch := c', rp := length (pre @ [c]) + length ys, rnread := rnread ?r1 + of_nat (length ys)\<rparr>"
  have "unat (rnread r + 1 + of_nat (length ys)) = unat (rnread r) + 1 + length ys"
    using count_many(2) [of ?r1 "length ys" e] assms(6) Cons n by simp
  then have "reaches e ?r2 (?r2\<lparr>rch := CR, rp := Suc (rp ?r2), rnread := rnread ?r2 + 1, p_state := s_chunk_size_almost_done\<rparr>)"
    using assms Cons by (intro chunk_byte(1)) (simp_all add: nth_append)
  from reaches_trans [OF reaches_trans [OF one two] this] show ?thesis using Cons
    by (simp add: add.commute add.left_commute)
qed

text \<open>The digits and the rest of the line.\<close>

lemma chunk_line_run:
  assumes "edata e = pre @ ds @ xs @ CR # post" "rp r = length pre" "p_state r = s_chunk_size_start" "rnread r = 0"
    and "flagged (rparser r) 0" "ds \<noteq> []" "list_all (\<lambda>c. unhex_val c \<noteq> - 1) ds" "hex_number ds < HEX_LIMIT"
    and "xs = [] \<or> hd xs \<in> {CHR '';'', CHR '' ''} \<and> CR \<notin> set xs"
    and "length ds + length xs + 1 \<le> unat (max_header_size e)"
  shows "reaches e r (r\<lparr>rch := CR, rp := length pre + length ds + length xs + 1, rnread := of_nat (length ds + length xs + 1),
    rparser := (rparser r)\<lparr>content_length := of_nat (hex_number ds)\<rparr>, p_state := s_chunk_size_almost_done\<rparr>)"
proof -
  obtain c cs where ds: "ds = c # cs" using assms(6) by (cases ds) auto
  have c: "unhex_val c \<noteq> - 1" using assms(7) ds by simp
  let ?r1 = "r\<lparr>rch := c, rp := Suc (rp r), rnread := 1, rparser := (rparser r)\<lparr>content_length := of_int (unhex_val c)\<rparr>, p_state := s_chunk_size\<rparr>"
  have one: "reaches e r ?r1"
    by (rule reaches_to [OF chunk_size_first [of r e c]]) (use assms ds c in simp_all)
  have v: "hex_from (unat (content_length (rparser ?r1))) cs = hex_number ds"
    using unhex_range(3) [OF c] by (simp add: hex_number_def ds)
  have prems: "edata e = (pre @ [c]) @ cs @ xs @ CR # post" "rp ?r1 = length (pre @ [c])" "p_state ?r1 = s_chunk_size"
    "flagged (rparser ?r1) 0" "list_all (\<lambda>c. unhex_val c \<noteq> - 1) cs" "unat (rnread ?r1) + length cs \<le> unat (max_header_size e)"
    using assms ds by simp_all
  obtain c' where two: "reaches e ?r1 (?r1\<lparr>rch := c', rp := length (pre @ [c]) + length cs, rnread := rnread ?r1 + of_nat (length cs),
      rparser := (rparser ?r1)\<lparr>content_length := of_nat (hex_number ds)\<rparr>\<rparr>)"
    using chunk_number [OF prems(1-5) _ prems(6)] assms(8) unfolding v by blast
  let ?r2 = "?r1\<lparr>rch := c', rp := length (pre @ [c]) + length cs, rnread := rnread ?r1 + of_nat (length cs),
      rparser := (rparser ?r1)\<lparr>content_length := of_nat (hex_number ds)\<rparr>\<rparr>"
  have "unat (1 + of_nat (length cs) :: uint32) = 1 + length cs" using count_many(2) [of ?r1 "length cs" e] prems(6) by simp
  then have "reaches e ?r2 (?r2\<lparr>rch := CR, rp := length (pre @ ds) + length xs + 1, rnread := rnread ?r2 + of_nat (length xs + 1),
      p_state := s_chunk_size_almost_done\<rparr>)"
    using assms ds by (intro chunk_line_rest [where post = post]) simp_all
  from reaches_trans [OF reaches_trans [OF one two] this] show ?thesis by (rule reaches_eq) (simp add: ds add.commute add.left_commute)
qed

lemma chunk_header_end:
  assumes "settings e = quiet" "rp r < length (edata e)" "edata e ! rp r = LF" "p_state r = s_chunk_size_almost_done"
    and "http_errno (rparser r) = HPE_OK" "flagged (rparser r) 0" "unat (rnread r) + 1 \<le> unat (max_header_size e)"
  defines "s \<equiv> if content_length (rparser r) = 0 then s_header_field_start else s_chunk_data"
    and "q \<equiv> if content_length (rparser r) = 0 then add_flag F_TRAILING (rparser r) else rparser r"
  shows "reaches e r (r\<lparr>rch := LF, rp := Suc (rp r), rnread := 0, p_state := s, rworld := rworld r @ [(''chunk_header'', [])],
    rparser := q\<lparr>nread := 0, pstate := s\<rparr>\<rparr>)"
proof -
  let ?r1 = "r\<lparr>rch := LF, rnread := rnread r + 1\<rparr>"
  have "execute_byte e r = (case do_chunk_size_almost_done e ?r1 of Reexecute r' \<Rightarrow> reexecute 7 e r' | x \<Rightarrow> x)"
    using header_byte [of r e] assms(2-4,7) by (simp add: PARSING_HEADER_iff dispatch_def)
  moreover have "do_chunk_size_almost_done e ?r1 = Next (r\<lparr>rch := LF, rnread := 0, p_state := s,
      rworld := rworld r @ [(''chunk_header'', [])], rparser := q\<lparr>nread := 0, pstate := s\<rparr>\<rparr>)"
    using assms(1,5,6)
    by (simp add: do_chunk_size_almost_done_def assert_chunked_def assert_that_def STRICT_CHECK_def zero_nread_def on_parser_def Let_def
        CALLBACK_NOTIFY_def notify_recorded UPDATE_STATE_def s_def q_def add_flag_def)
  ultimately have "execute_byte e r = Next (r\<lparr>rch := LF, rnread := 0, p_state := s,
      rworld := rworld r @ [(''chunk_header'', [])], rparser := q\<lparr>nread := 0, pstate := s\<rparr>\<rparr>)" by simp
  then show ?thesis by (rule reaches_to) simp_all
qed

lemma chunk_data_run:
  assumes "settings e = quiet" "edata e = pre @ bs @ [CR, LF] @ post" "length (edata e) < 2 ^ 64" "rp r = length pre"
    and "p_state r = s_chunk_data" "http_errno (rparser r) = HPE_OK" "flagged (rparser r) 0" "marks r = (\<lambda>_. None)"
    and "bs \<noteq> []" "unat (content_length (rparser r)) = length bs" "content_length (rparser r) \<noteq> ULLONG_MAX"
  shows "reaches e r (r\<lparr>rch := LF, rp := length (pre @ bs @ [CR, LF]), rnread := 0, p_state := s_chunk_size_start,
    rworld := rworld r @ [(''body'', bs), (''chunk_complete'', [])],
    rparser := (rparser r)\<lparr>content_length := 0, nread := 0, pstate := s_chunk_size_start\<rparr>\<rparr>)"
proof -
  let ?q = "(rparser r)\<lparr>content_length := 0\<rparr>"
  let ?r1 = "r\<lparr>rch := edata e ! rp r, rp := length (pre @ bs), marks := (\<lambda>_. None)(body_mark := Some (length pre)),
    rparser := ?q, p_state := s_chunk_data_almost_done\<rparr>"
  let ?r2 = "?r1\<lparr>rch := CR, rp := Suc (length (pre @ bs)), marks := (\<lambda>_. None), rworld := rworld r @ [(''body'', bs)],
    rparser := ?q\<lparr>pstate := s_chunk_data_done\<rparr>, p_state := s_chunk_data_done\<rparr>"
  have nonzero: "content_length (rparser r) \<noteq> 0" using assms(9,10) by auto
  have read: "read_body e (r\<lparr>rch := edata e ! rp r\<rparr>) = r\<lparr>rch := edata e ! rp r, rp := length (pre @ bs) - 1,
      marks := (\<lambda>_. None)(body_mark := Some (length pre)), rparser := ?q\<rparr>"
    using read_body_all [of e "r\<lparr>rch := edata e ! rp r\<rparr>"] assms(2-4,8,10) by simp
  have one: "reaches e r ?r1"
  proof (rule reaches_to)
    show "execute_byte e r = Next (?r1\<lparr>rp := length (pre @ bs) - 1\<rparr>)"
      using body_byte [of r e] assms(2,4,5,7,9,11) nonzero read
      by (simp add: PARSING_HEADER_iff dispatch_def do_chunk_data_def assert_chunked_def assert_that_def length_known_def UPDATE_STATE_def)
  qed (use assms(4,9) in \<open>auto simp: Suc_diff_le neq_Nil_conv\<close>)
  have at: "edata e ! length (pre @ bs) = CR" "edata e ! Suc (length (pre @ bs)) = LF" "Suc (length (pre @ bs)) < length (edata e)"
    "take (length bs) (drop (length pre) (edata e)) = bs"
    using assms(2) by (simp_all add: nth_append)
  have two: "reaches e ?r1 ?r2"
  proof (rule reaches_to)
    show "execute_byte e ?r1 = Next (?r2\<lparr>rp := length (pre @ bs)\<rparr>)"
      using body_byte [of ?r1 e] at assms(1,6,7) body_recorded [of e "?r1\<lparr>rch := CR, p_state := s_chunk_data_done\<rparr>" "length pre" "length (pre @ bs)"]
      by (simp add: PARSING_HEADER_iff dispatch_def do_chunk_data_almost_done_def assert_chunked_def assert_that_def STRICT_CHECK_def
          CALLBACK_DATA_def UPDATE_STATE_def)
  qed simp_all
  have "reaches e ?r2 (r\<lparr>rch := LF, rp := length (pre @ bs @ [CR, LF]), rnread := 0, p_state := s_chunk_size_start,
    rworld := rworld r @ [(''body'', bs), (''chunk_complete'', [])], marks := (\<lambda>_. None),
    rparser := (rparser r)\<lparr>content_length := 0, nread := 0, pstate := s_chunk_size_start\<rparr>\<rparr>)" (is "reaches e ?r2 ?r3")
  proof (rule reaches_to)
    show "execute_byte e ?r2 = Next (?r3\<lparr>rp := Suc (length (pre @ bs))\<rparr>)"
      using body_byte [of ?r2 e] at assms(1,6,7)
      by (simp add: PARSING_HEADER_iff dispatch_def do_chunk_data_done_def assert_chunked_def assert_that_def STRICT_CHECK_def
          zero_nread_def on_parser_def CALLBACK_NOTIFY_def notify_recorded UPDATE_STATE_def)
  qed simp_all
  from reaches_trans [OF reaches_trans [OF one two] this] show ?thesis using assms(8) by (cases r) simp
qed

text \<open>A whole chunk, and the last chunk with the end of the message.\<close>

lemma wf_chunk_prems:
  assumes "wf_chunk limit c" "length (chunk_bytes c) < HEX_LIMIT"
  shows "chunk_digits c \<noteq> []" "list_all (\<lambda>c. unhex_val c \<noteq> - 1) (chunk_digits c)" "hex_number (chunk_digits c) < HEX_LIMIT"
    "chunk_extension c = [] \<or> hd (chunk_extension c) \<in> {CHR '';'', CHR '' ''} \<and> CR \<notin> set (chunk_extension c)"
    "length (chunk_digits c) + length (chunk_extension c) + 1 \<le> unat limit"
proof -
  have "unhex_val x \<noteq> - 1" if "IS_HEX x" for x using that by (simp add: unhex_val_def unhex_value)
  then show "list_all (\<lambda>c. unhex_val c \<noteq> - 1) (chunk_digits c)" using assms(1)
    by (auto simp: wf_chunk_def list_all_iff)
qed (use assms in \<open>auto simp: wf_chunk_def chunk_line_def\<close>)

lemma unat_of_small: "n < HEX_LIMIT \<Longrightarrow> unat (of_nat n :: uint64) = n"
  by (simp add: HEX_LIMIT_def unat_of_nat take_bit_nat_eq_self)

lemma of_small:
  assumes "n < HEX_LIMIT"
  shows "(of_nat n :: uint64) = 0 \<longleftrightarrow> n = 0" "(of_nat n :: uint64) \<noteq> ULLONG_MAX"
proof -
  show "(of_nat n :: uint64) = 0 \<longleftrightarrow> n = 0"
  proof
    assume "(of_nat n :: uint64) = 0"
    then have "unat (of_nat n :: uint64) = 0" by (simp only: unsigned_0)
    then show "n = 0" unfolding unat_of_small [OF assms] .
  qed simp
  show "(of_nat n :: uint64) \<noteq> ULLONG_MAX"
  proof
    assume "(of_nat n :: uint64) = ULLONG_MAX"
    then have "unat (of_nat n :: uint64) = 2 ^ 64 - 1" by (simp only: ULLONG_MAX_unat)
    then show False using assms unfolding unat_of_small [OF assms] by (simp add: HEX_LIMIT_def)
  qed
qed

lemma chunk_line_reaches:
  assumes "settings e = quiet" "edata e = pre @ chunk_line c @ post" "length (edata e) < HEX_LIMIT" "wf_chunk (max_header_size e) c"
    and "rp r = length pre" "p_state r = s_chunk_size_start" "rnread r = 0" "http_errno (rparser r) = HPE_OK" "flagged (rparser r) 0"
    and "length (chunk_bytes c) \<le> length post"
  defines "q1 \<equiv> (rparser r)\<lparr>content_length := of_nat (length (chunk_bytes c))\<rparr>"
  defines "s \<equiv> if chunk_bytes c = [] then s_header_field_start else s_chunk_data"
    and "q \<equiv> if chunk_bytes c = [] then add_flag F_TRAILING q1 else q1"
  shows "reaches e r (r\<lparr>rch := LF, rp := length (pre @ chunk_line c), rnread := 0, p_state := s,
    rworld := rworld r @ [(''chunk_header'', [])], rparser := q\<lparr>nread := 0, pstate := s\<rparr>\<rparr>)"
proof -
  let ?n = "length (chunk_digits c) + length (chunk_extension c) + 1"
  have small: "length (chunk_bytes c) < HEX_LIMIT" using assms(2,3,10) by simp
  have number: "hex_number (chunk_digits c) = length (chunk_bytes c)" using assms(4) by (simp add: wf_chunk_def)
  have zero: "(of_nat (length (chunk_bytes c)) :: uint64) = 0 \<longleftrightarrow> chunk_bytes c = []"
    using of_small(1) [OF small] by simp
  let ?r1 = "r\<lparr>rch := CR, rp := length pre + ?n, rnread := of_nat ?n, rparser := q1, p_state := s_chunk_size_almost_done\<rparr>"
  have "edata e = pre @ chunk_digits c @ chunk_extension c @ CR # LF # post" using assms(2) by (simp add: chunk_line_def)
  from chunk_line_run [OF this assms(5-7,9) wf_chunk_prems [OF assms(4) small]]
  have one: "reaches e r ?r1" by (rule reaches_eq) (simp add: q1_def number)
  have "?n + 1 \<le> unat (max_header_size e)" using assms(4) by (simp add: wf_chunk_def chunk_line_def)
  then have "unat (of_nat ?n :: uint32) + 1 \<le> unat (max_header_size e)"
    using count_many(2) [of "?r1\<lparr>rnread := 0\<rparr>" ?n e] by simp
  then have "reaches e ?r1 (?r1\<lparr>rch := LF, rp := Suc (rp ?r1), rnread := 0, p_state := s, rworld := rworld r @ [(''chunk_header'', [])],
      rparser := q\<lparr>nread := 0, pstate := s\<rparr>\<rparr>)"
    using chunk_header_end [of e ?r1] assms(1,2,8,9) zero
    by (cases "chunk_bytes c = []") (simp_all add: q1_def q_def s_def nth_append chunk_line_def)
  from reaches_trans [OF one this] show ?thesis by (rule reaches_eq) (simp add: chunk_line_def)
qed

lemma chunk_reaches:
  assumes e: "settings e = quiet" "edata e = pre @ render_chunk c @ post" "length (edata e) < HEX_LIMIT"
    and c: "wf_chunk (max_header_size e) c" "chunk_bytes c \<noteq> []"
    and r: "rp r = length pre" "p_state r = s_chunk_size_start" "rnread r = 0" "http_errno (rparser r) = HPE_OK" "flagged (rparser r) 0"
      "marks r = (\<lambda>_. None)"
  shows "reaches e r (r\<lparr>rch := LF, rp := length (pre @ render_chunk c), rworld := rworld r @ chunk_events c,
    rparser := (rparser r)\<lparr>content_length := 0, nread := 0, pstate := s_chunk_size_start\<rparr>\<rparr>)"
proof -
  let ?q = "(rparser r)\<lparr>content_length := of_nat (length (chunk_bytes c)), nread := 0, pstate := s_chunk_data\<rparr>"
  let ?r1 = "r\<lparr>rch := LF, rp := length (pre @ chunk_line c), rnread := 0, p_state := s_chunk_data,
    rworld := rworld r @ [(''chunk_header'', [])], rparser := ?q\<rparr>"
  have split: "edata e = pre @ chunk_line c @ chunk_bytes c @ [CR, LF] @ post"
    "edata e = (pre @ chunk_line c) @ chunk_bytes c @ [CR, LF] @ post"
    using e(2) by (simp_all add: render_chunk_def)
  have one: "reaches e r ?r1"
    using chunk_line_reaches [OF e(1) split(1) e(3) c(1) r(1-5)] c(2) by simp
  have small: "length (chunk_bytes c) < HEX_LIMIT" using e(3) split(1) by simp
  have len: "length (edata e) < 2 ^ 64" using e(3) by (simp add: HEX_LIMIT_def)
  have "unat (content_length ?q) = length (chunk_bytes c)" "content_length ?q \<noteq> ULLONG_MAX"
    using unat_of_small [OF small] of_small(2) [OF small] by simp_all
  then have "reaches e ?r1 (?r1\<lparr>rch := LF, rp := length ((pre @ chunk_line c) @ chunk_bytes c @ [CR, LF]), rnread := 0,
      p_state := s_chunk_size_start, rworld := rworld ?r1 @ [(''body'', chunk_bytes c), (''chunk_complete'', [])],
      rparser := (rparser ?r1)\<lparr>content_length := 0, nread := 0, pstate := s_chunk_size_start\<rparr>\<rparr>)"
    by (intro chunk_data_run [OF e(1) split(2) len]) (use r(4-6) c(2) in simp_all)
  from reaches_trans [OF one this] show ?thesis
  proof (rule reaches_eq)
    show "?r1\<lparr>rch := LF, rp := length ((pre @ chunk_line c) @ chunk_bytes c @ [CR, LF]), rnread := 0,
      p_state := s_chunk_size_start, rworld := rworld ?r1 @ [(''body'', chunk_bytes c), (''chunk_complete'', [])],
      rparser := (rparser ?r1)\<lparr>content_length := 0, nread := 0, pstate := s_chunk_size_start\<rparr>\<rparr> =
      r\<lparr>rch := LF, rp := length (pre @ render_chunk c), rworld := rworld r @ chunk_events c,
        rparser := (rparser r)\<lparr>content_length := 0, nread := 0, pstate := s_chunk_size_start\<rparr>\<rparr>"
      using r(2,3) by (cases r) (simp add: render_chunk_def chunk_events_def)
  qed
qed

lemma chunks_reach:
  assumes "settings e = quiet" "edata e = pre @ concat (map render_chunk cs) @ post" "length (edata e) < HEX_LIMIT"
    and "list_all (\<lambda>c. wf_chunk (max_header_size e) c \<and> chunk_bytes c \<noteq> []) cs"
    and "rp r = length pre" "p_state r = s_chunk_size_start" "rnread r = 0" "http_errno (rparser r) = HPE_OK" "flagged (rparser r) 0"
      "marks r = (\<lambda>_. None)"
  shows "\<exists>ch n cl s. reaches e r (r\<lparr>rch := ch, rp := length (pre @ concat (map render_chunk cs)),
    rworld := rworld r @ concat (map chunk_events cs), rparser := (rparser r)\<lparr>content_length := cl, nread := n, pstate := s\<rparr>\<rparr>)"
  using assms
proof (induction cs arbitrary: pre r)
  case Nil
  show ?case using reaches_refl [of e r]
    by (intro exI [of _ "rch r"] exI [of _ "nread (rparser r)"] exI [of _ "content_length (rparser r)"] exI [of _ "pstate (rparser r)"])
      (simp add: Nil.prems(5) [symmetric])
next
  case (Cons c cs)
  let ?r1 = "r\<lparr>rch := LF, rp := length (pre @ render_chunk c), rworld := rworld r @ chunk_events c,
    rparser := (rparser r)\<lparr>content_length := 0, nread := 0, pstate := s_chunk_size_start\<rparr>\<rparr>"
  have one: "reaches e r ?r1" using chunk_reaches [of e pre c "concat (map render_chunk cs) @ post" r] Cons.prems by simp
  obtain ch n cl s where two: "reaches e ?r1 (?r1\<lparr>rch := ch, rp := length ((pre @ render_chunk c) @ concat (map render_chunk cs)),
      rworld := rworld ?r1 @ concat (map chunk_events cs), rparser := (rparser ?r1)\<lparr>content_length := cl, nread := n, pstate := s\<rparr>\<rparr>)"
    using Cons.IH [of "pre @ render_chunk c" ?r1] Cons.prems by auto
  from reaches_trans [OF one two] show ?case
    by (intro exI [of _ ch] exI [of _ n] exI [of _ cl] exI [of _ s]) (simp add: add.assoc)
qed

lemma trailer_end:
  assumes "settings e = quiet" "edata e = pre @ [CR, LF]" "rp r = length pre" "p_state r = s_header_field_start" "rnread r = 0"
    and "http_errno (rparser r) = HPE_OK" "flagged (rparser r) 4" "\<not> upgrade (rparser r)" "2 \<le> unat (max_header_size e)"
  defines "s \<equiv> NEW_MESSAGE (estrict e) (rparser r)"
  shows "reaches e r (r\<lparr>rch := LF, rp := length pre + 2, rnread := 2, p_state := s,
    rworld := rworld r @ [(''chunk_complete'', []), (''message_complete'', [])], rparser := (rparser r)\<lparr>pstate := s\<rparr>\<rparr>)"
proof -
  let ?r1 = "r\<lparr>rch := CR, rp := Suc (length pre), rnread := 1, p_state := s_headers_almost_done\<rparr>"
  let ?r2 = "?r1\<lparr>rch := LF, rnread := 2, p_state := s_message_done, rworld := rworld r @ [(''chunk_complete'', [])],
    rparser := (rparser r)\<lparr>pstate := s_message_done\<rparr>\<rparr>"
  let ?r3 = "?r1\<lparr>rch := LF, rnread := 2, p_state := s, rworld := rworld r @ [(''chunk_complete'', []), (''message_complete'', [])],
    rparser := (rparser r)\<lparr>pstate := s\<rparr>\<rparr>"
  have "execute_byte e r = Next (?r1\<lparr>rp := length pre\<rparr>)"
    using header_byte [of r e] assms(2-5,9) by (simp add: PARSING_HEADER_iff dispatch_def do_header_field_start_def UPDATE_STATE_def)
  then have one: "reaches e r ?r1" by (rule reaches_to) (use assms(3) in simp_all)
  have "dispatch e (?r1\<lparr>rch := LF, rnread := 2\<rparr>) = Reexecute ?r2"
    using assms(1,6,7)
    by (simp add: dispatch_def do_headers_almost_done_def STRICT_CHECK_def CALLBACK_NOTIFY_NOADVANCE_def notify_recorded UPDATE_STATE_def)
  moreover have "dispatch e ?r2 = Next ?r3" using message_done [of e ?r2] assms(1,6,8) by (simp add: dispatch_def s_def)
  ultimately have "execute_byte e ?r1 = Next ?r3"
    using header_byte [of ?r1 e] assms(2,9) by (simp add: PARSING_HEADER_iff nth_append reexecute_again)
  then have two: "reaches e ?r1 (?r3\<lparr>rp := Suc (rp ?r3)\<rparr>)" by (rule reaches_one) simp
  from reaches_trans [OF one two] show ?thesis by (rule reaches_eq) simp
qed

definition render_chunked :: "http_chunk list \<Rightarrow> http_chunk \<Rightarrow> string" where
  "render_chunked cs l = concat (map render_chunk cs) @ chunk_line l @ [CR, LF]"

lemma chunked_execute:
  assumes q: "http_errno q = HPE_OK" "pstate q = s_chunk_size_start" "has_flag q F_CHUNKED" "nread q = 0" "\<not> upgrade q"
    and cs: "list_all (\<lambda>c. wf_chunk mhs c \<and> chunk_bytes c \<noteq> []) cs" and l: "wf_chunk mhs l" "chunk_bytes l = []"
    and len: "length (render_chunked cs l) < HEX_LIMIT"
  shows "\<exists>q'. http_parser_execute strict mhs quiet q (render_chunked cs l) w =
      Inr (length (render_chunked cs l), q',
        w @ concat (map chunk_events cs) @ [(''chunk_header'', []), (''chunk_complete'', []), (''message_complete'', [])]) \<and>
    http_errno q' = HPE_OK \<and> pstate q' = NEW_MESSAGE strict q'"
proof -
  let ?d = "render_chunked cs l" and ?pre = "concat (map render_chunk cs)"
  let ?e = "execute_env strict mhs quiet q ?d" and ?r = "execute_start q w"
  have none: "marks ?r = (\<lambda>_. None)" using q(2) by (simp add: execute_start_def initial_marks_def url_states_def)
  have e: "settings ?e = quiet" "edata ?e = ?pre @ chunk_line l @ [CR, LF]" "edata ?e = (?pre @ chunk_line l) @ [CR, LF]"
    "max_header_size ?e = mhs" "estrict ?e = strict" "length (edata ?e) < HEX_LIMIT"
    using len by (simp_all add: execute_env_def render_chunked_def)
  obtain ch n cl s where one: "reaches ?e ?r (?r\<lparr>rch := ch, rp := length ?pre, rworld := w @ concat (map chunk_events cs),
      rparser := q\<lparr>content_length := cl, nread := n, pstate := s\<rparr>\<rparr>)" (is "reaches _ _ ?r1")
    using chunks_reach [of ?e "[]" cs "chunk_line l @ [CR, LF]" ?r] e cs q none by (auto simp: execute_start_def)
  let ?q2 = "(add_flag F_TRAILING (q\<lparr>nread := n, pstate := s, content_length := 0\<rparr>))\<lparr>nread := 0, pstate := s_header_field_start\<rparr>"
  let ?r2 = "?r1\<lparr>rch := LF, rp := length (?pre @ chunk_line l), rnread := 0, p_state := s_header_field_start,
      rworld := rworld ?r1 @ [(''chunk_header'', [])], rparser := ?q2\<rparr>"
  have two: "reaches ?e ?r1 ?r2"
    using chunk_line_reaches [of ?e ?pre l "[CR, LF]" ?r1] e l q by (simp add: execute_start_def)
  have "2 \<le> length (chunk_line l)" by (simp add: chunk_line_def)
  then have room: "2 \<le> unat mhs" using l(1) by (simp add: wf_chunk_def)
  let ?s = "NEW_MESSAGE strict ?q2"
  let ?r3 = "?r2\<lparr>rch := LF, rp := length ?d, rnread := 2, p_state := ?s,
    rworld := rworld ?r2 @ [(''chunk_complete'', []), (''message_complete'', [])], rparser := ?q2\<lparr>pstate := ?s\<rparr>\<rparr>"
  have "reaches ?e ?r2 ?r3"
    using trailer_end [of ?e "?pre @ chunk_line l" ?r2] e room q by (simp add: execute_start_def render_chunked_def)
  from execute_reaches [OF q(1) _ reaches_trans [OF reaches_trans [OF one two] this]]
  have "http_parser_execute strict mhs quiet q ?d w = finish (flush_marks ?e ?r3)" by (simp add: render_chunked_def)
  moreover have "flush_marks ?e ?r3 = RETURN (length (edata ?e)) ?r3" using none q(1) by (intro flush_no_marks) simp_all
  ultimately show ?thesis using q(1) by (simp add: finish_def RETURN_def execute_env_def)
qed

end
