(* ===== verification/Http_Field_Names.thy ===== *)
theory Http_Field_Names
  imports Http_Reach
begin

text \<open>
  Header names in a strict build: which names the matchers of \<^verbatim>\<open>http_parser_execute\<close> take for
  the headers that frame a message.
\<close>

section \<open>What the matchers have seen\<close>

definition field_tracks :: "header_states \<Rightarrow> nat \<Rightarrow> string \<Rightarrow> bool" where
  "field_tracks h i s \<longleftrightarrow>
     (case h of
        h_general \<Rightarrow> True
      | h_C \<Rightarrow> s = ''c'' \<and> i = 0
      | h_CO \<Rightarrow> s = ''co'' \<and> i = 1
      | h_CON \<Rightarrow> s = ''con'' \<and> i = 2
      | h_matching_connection \<Rightarrow> i + 1 < length CONNECTION \<and> s = take (i + 1) CONNECTION
      | h_matching_proxy_connection \<Rightarrow> i + 1 < length PROXY_CONNECTION \<and> s = take (i + 1) PROXY_CONNECTION
      | h_matching_content_length \<Rightarrow> i + 1 < length CONTENT_LENGTH \<and> s = take (i + 1) CONTENT_LENGTH
      | h_matching_transfer_encoding \<Rightarrow> i + 1 < length TRANSFER_ENCODING \<and> s = take (i + 1) TRANSFER_ENCODING
      | h_matching_upgrade \<Rightarrow> i + 1 < length UPGRADE \<and> s = take (i + 1) UPGRADE
      | h_connection \<Rightarrow> s = CONNECTION \<or> s = PROXY_CONNECTION
      | h_content_length \<Rightarrow> s = CONTENT_LENGTH
      | h_transfer_encoding \<Rightarrow> s = TRANSFER_ENCODING
      | h_upgrade \<Rightarrow> s = UPGRADE
      | _ \<Rightarrow> False)"

definition recognized :: "string \<Rightarrow> header_states option" where
  "recognized s =
     map_of [(CONNECTION, h_connection), (PROXY_CONNECTION, h_connection), (CONTENT_LENGTH, h_content_length),
             (TRANSFER_ENCODING, h_transfer_encoding), (UPGRADE, h_upgrade)] s"

lemma match_name_cases:
  assumes "c \<noteq> NUL" "Suc i < length name"
  shows "match_name name (Suc i) c =
    (if name ! Suc i \<noteq> c then Mismatch else if Suc (Suc i) = length name then Complete else Partial)"
  using assms by (auto simp: match_name_def cstr_at_def)

lemma match_field_eq:
  assumes "c \<noteq> NUL" "unat (index q) + 1 < length name" "length name < 31" "s = take (unat (index q) + 1) name"
  shows "unat (index (match_field name fin c q)) = unat (index q) + 1"
    and "header_state (match_field name fin c q) =
      (if s @ [c] = name then fin else if s @ [c] = take (unat (index q) + 2) name then header_state q else h_general)"
    and "match_field name fin c q = q\<lparr>header_state := header_state (match_field name fin c q), index := index (match_field name fin c q)\<rparr>"
proof -
  let ?i = "unat (index q)"
  have n: "unat (index q + 1) = ?i + 1"
    using assms(2,3) unat_add_no_wrap [of "index q" 1] by simp
  then show "unat (index (match_field name fin c q)) = ?i + 1"
    by (auto simp: match_field_def next_index_def Let_def split: name_match.splits)
  have len: "length (s @ [c]) = ?i + 2" using assms(2,4) by simp
  have grow: "take (?i + 2) name = s @ [name ! Suc ?i]" using assms(2,4) by (simp add: take_Suc_conv_app_nth)
  have full: "s @ [c] = name \<longleftrightarrow> Suc (Suc ?i) = length name \<and> name ! Suc ?i = c"
  proof
    assume eq: "s @ [c] = name"
    then have "Suc (Suc ?i) = length name" using len by auto
    then show "Suc (Suc ?i) = length name \<and> name ! Suc ?i = c" using eq grow by auto
  next
    assume "Suc (Suc ?i) = length name \<and> name ! Suc ?i = c"
    then show "s @ [c] = name" using grow by simp
  qed
  show "header_state (match_field name fin c q) =
      (if s @ [c] = name then fin else if s @ [c] = take (unat (index q) + 2) name then header_state q else h_general)"
    using match_name_cases [of c ?i name] assms(1,2) n unfolding full grow
    by (simp add: match_field_def next_index_def Let_def)
  show "match_field name fin c q = q\<lparr>header_state := header_state (match_field name fin c q), index := index (match_field name fin c q)\<rparr>"
    by (auto simp: match_field_def next_index_def Let_def split: name_match.splits)
qed

text \<open>The matcher of \<^verbatim>\<open>transfer-encoding\<close> runs as long as the name is a prefix of it.\<close>

definition encoding_tracks :: "header_states \<Rightarrow> string \<Rightarrow> bool" where
  "encoding_tracks h s \<longleftrightarrow>
     (length s < length TRANSFER_ENCODING \<and> s = take (length s) TRANSFER_ENCODING \<longrightarrow> h = h_matching_transfer_encoding)"

definition field_frame :: "http_parser \<Rightarrow> http_parser \<Rightarrow> bool" where
  "field_frame q q' \<longleftrightarrow> (\<exists>h i u. q' = q\<lparr>header_state := h, index := i, uses_transfer_encoding := u\<rparr>)"

lemma field_frame_intro:
  "q' = q\<lparr>header_state := header_state q', index := index q', uses_transfer_encoding := uses_transfer_encoding q'\<rparr> \<Longrightarrow> field_frame q q'"
  unfolding field_frame_def by blast

lemma field_frame_refl: "field_frame q q"
  by (rule field_frame_intro) simp

lemma field_frame_trans: "field_frame q q1 \<Longrightarrow> field_frame q1 q2 \<Longrightarrow> field_frame q q2"
  by (auto simp: field_frame_def [of q q1] field_frame_def [of q1 q2] intro: field_frame_intro)

lemma names_short:
  "length CONNECTION = 10" "length PROXY_CONNECTION = 16" "length CONTENT_LENGTH = 14" "length TRANSFER_ENCODING = 17" "length UPGRADE = 7"
  by code_simp+

lemma header_field_char_frame:
  assumes "header_field_char c ch q = Inr q1"
  shows "field_frame q q1"
proof (rule field_frame_intro)
  have m: "match_field name fin c q = q\<lparr>header_state := header_state (match_field name fin c q), index := index (match_field name fin c q)\<rparr>" for name fin
    by (auto simp: match_field_def next_index_def Let_def split: name_match.splits)
  have u: "uses_transfer_encoding (match_field name fin c q) = uses_transfer_encoding q" for name fin by (subst m) simp
  show "q1 = q\<lparr>header_state := header_state q1, index := index q1, uses_transfer_encoding := uses_transfer_encoding q1\<rparr>"
    using assms m u
    by (cases "header_state q") (auto simp: header_field_char_def next_index_def match_field_def Let_def split: if_splits name_match.splits)
qed

lemma matcher_tracks:
  assumes "c \<noteq> NUL" "length name < 31" "unat (index q) + 1 < length name" "s = take (unat (index q) + 1) name"
    and "field_tracks fin (unat (index q) + 1) name"
    and "\<And>j t. field_tracks (header_state q) j t \<longleftrightarrow> j + 1 < length name \<and> t = take (j + 1) name"
  shows "field_tracks (header_state (match_field name fin c q)) (unat (index (match_field name fin c q))) (s @ [c])"
proof -
  note m = match_field_eq [OF assms(1,3,2,4), of fin]
  consider (full) "s @ [c] = name" | (part) "s @ [c] \<noteq> name" "s @ [c] = take (unat (index q) + 2) name"
    | (miss) "s @ [c] \<noteq> name" "s @ [c] \<noteq> take (unat (index q) + 2) name" by blast
  then show ?thesis
  proof cases
    case part
    then have "unat (index q) + 2 < length name" using assms(3) by (metis One_nat_def add_2_eq_Suc' add_Suc_right linorder_not_le not_less_eq_eq order_antisym_conv order_less_imp_le plus_1_eq_Suc take_all)
    then show ?thesis using m part assms(6) [of "unat (index q) + 1"] by simp
  qed (use m assms(5) in \<open>simp_all add: field_tracks_def\<close>)
qed

lemma field_char_tracks:
  assumes "c \<noteq> NUL" "ch \<noteq> CHR '' ''" "field_tracks (header_state q) (unat (index q)) s" "header_state q \<noteq> h_general"
  shows "\<exists>q1. header_field_char c ch q = Inr q1 \<and> field_tracks (header_state q1) (unat (index q1)) (s @ [c])"
proof -
  have small: "unat (index q) < 20 \<Longrightarrow> unat (index q + 1) = unat (index q) + 1" using unat_add_no_wrap [of "index q" 1] by simp
  have prefixes: "take 4 CONNECTION = ''conn''" "take 4 CONTENT_LENGTH = ''cont''" by code_simp+
  show ?thesis
  proof (cases "header_state q")
    case h_CON
    then show ?thesis using assms small prefixes names_short by (auto simp: header_field_char_def field_tracks_def next_index_def)
  next
    case h_matching_connection
    then show ?thesis using assms names_short matcher_tracks [OF assms(1), of CONNECTION q s h_connection]
      by (simp add: header_field_char_def field_tracks_def)
  next
    case h_matching_proxy_connection
    then show ?thesis using assms names_short matcher_tracks [OF assms(1), of PROXY_CONNECTION q s h_connection]
      by (simp add: header_field_char_def field_tracks_def)
  next
    case h_matching_content_length
    then show ?thesis using assms names_short matcher_tracks [OF assms(1), of CONTENT_LENGTH q s h_content_length]
      by (simp add: header_field_char_def field_tracks_def)
  next
    case h_matching_transfer_encoding
    let ?m = "match_field TRANSFER_ENCODING h_transfer_encoding c q"
    have "field_tracks (header_state ?m) (unat (index ?m)) (s @ [c])"
      using matcher_tracks [OF assms(1), of TRANSFER_ENCODING q s h_transfer_encoding] h_matching_transfer_encoding assms(3) names_short
      by (simp add: field_tracks_def)
    then show ?thesis using h_matching_transfer_encoding
      by (cases "header_state ?m = h_transfer_encoding") (simp_all add: header_field_char_def Let_def)
  next
    case h_matching_upgrade
    then show ?thesis using assms names_short matcher_tracks [OF assms(1), of UPGRADE q s h_upgrade]
      by (simp add: header_field_char_def field_tracks_def)
  qed (use assms small in \<open>auto simp: header_field_char_def field_tracks_def next_index_def\<close>)
qed

lemma encoding_char:
  assumes "c \<noteq> NUL" "s \<noteq> []" "field_tracks (header_state q) (unat (index q)) s" "encoding_tracks (header_state q) s"
    and "header_field_char c ch q = Inr q1"
  shows "encoding_tracks (header_state q1) (s @ [c])"
    and "uses_transfer_encoding q1 \<longleftrightarrow> uses_transfer_encoding q \<or> s @ [c] = TRANSFER_ENCODING"
proof -
  let ?m = "match_field TRANSFER_ENCODING h_transfer_encoding c q"
  have hs: "header_state q = h_matching_transfer_encoding" if "s @ [c] = take (length s + 1) TRANSFER_ENCODING" "length s < length TRANSFER_ENCODING"
  proof -
    have "s = take (length s) TRANSFER_ENCODING" using that by (metis append_eq_conv_conj append_eq_append_conv_if le_add1 take_take min.absorb1)
    then show ?thesis using assms(4) that(2) by (simp add: encoding_tracks_def)
  qed
  have u: "uses_transfer_encoding (match_field name fin c q) = uses_transfer_encoding q" for name fin
    by (auto simp: match_field_def next_index_def Let_def split: name_match.splits)
  have "encoding_tracks (header_state q1) (s @ [c]) \<and>
    (uses_transfer_encoding q1 \<longleftrightarrow> uses_transfer_encoding q \<or> s @ [c] = TRANSFER_ENCODING)"
  proof (cases "header_state q = h_matching_transfer_encoding")
    case True
    then have t: "unat (index q) + 1 < length TRANSFER_ENCODING" "s = take (unat (index q) + 1) TRANSFER_ENCODING"
      using assms(3) by (simp_all add: field_tracks_def)
    have len: "length (s @ [c]) = unat (index q) + 2" using t by simp
    have q1: "q1 = (if header_state ?m = h_transfer_encoding then ?m\<lparr>uses_transfer_encoding := True\<rparr> else ?m)"
      using assms(5) True by (simp add: header_field_char_def Let_def)
    note m = match_field_eq(2) [OF assms(1) t(1) _ t(2), of h_transfer_encoding]
    show ?thesis unfolding encoding_tracks_def len q1 using m names_short u True by (simp split: if_splits)
  next
    case False
    then have "uses_transfer_encoding q1 = uses_transfer_encoding q" using assms(5) u
      by (cases "header_state q") (auto simp: header_field_char_def next_index_def split: if_splits)
    moreover have no: "\<not> (s @ [c] = take (length s + 1) TRANSFER_ENCODING \<and> length s < length TRANSFER_ENCODING)" using hs False by blast
    moreover have "s @ [c] \<noteq> TRANSFER_ENCODING"
    proof
      assume eq: "s @ [c] = TRANSFER_ENCODING"
      then have "length TRANSFER_ENCODING = length s + 1" by (metis length_append_singleton Suc_eq_plus1)
      then show False using no eq by simp
    qed
    ultimately show ?thesis by (auto simp: encoding_tracks_def)
  qed
  then show "encoding_tracks (header_state q1) (s @ [c])"
    "uses_transfer_encoding q1 \<longleftrightarrow> uses_transfer_encoding q \<or> s @ [c] = TRANSFER_ENCODING" by simp_all
qed

section \<open>The loop over a name\<close>

text \<open>The matchers as a fold over the lowered bytes, as far as they look at them.\<close>

definition field_begin :: "http_parser \<Rightarrow> char \<Rightarrow> http_parser" where
  "field_begin q c = q\<lparr>index := 0, header_state := field_start_state c\<rparr>"

definition field_next :: "http_parser \<Rightarrow> char \<Rightarrow> http_parser" where
  "field_next q c =
     (if header_state q = h_general then q
      else case header_field_char c c q of Inr q1 \<Rightarrow> q1 | Inl f \<Rightarrow> q)"

definition field_fold :: "http_parser \<Rightarrow> string \<Rightarrow> http_parser" where
  "field_fold q s = foldl field_next (field_begin q (hd s)) (tl s)"

lemma field_fold_append: "s \<noteq> [] \<Longrightarrow> field_fold q (s @ t) = foldl field_next (field_fold q s) t"
  by (simp add: field_fold_def)

lemma field_next_general: "header_state q = h_general \<Longrightarrow> foldl field_next q t = q"
  by (induction t) (simp_all add: field_next_def)

definition field_read :: "http_parser \<Rightarrow> string \<Rightarrow> http_parser \<Rightarrow> bool" where
  "field_read q s q' \<longleftrightarrow>
     field_fold q s = q' \<and> field_frame q q' \<and> field_tracks (header_state q') (unat (index q')) s \<and> encoding_tracks (header_state q') s \<and>
     (uses_transfer_encoding q' \<longleftrightarrow> uses_transfer_encoding q \<or> take (length TRANSFER_ENCODING) s = TRANSFER_ENCODING)"

lemma prefix_of_encoding:
  assumes "s @ t = take (length (s @ t)) TRANSFER_ENCODING"
  shows "s = take (length s) TRANSFER_ENCODING"
proof -
  have "s = take (length s) (s @ t)" by simp
  also have "\<dots> = take (length s) (take (length (s @ t)) TRANSFER_ENCODING)" by (rule arg_cong [OF assms])
  also have "\<dots> = take (length s) TRANSFER_ENCODING" by simp
  finally show ?thesis .
qed

lemma field_read_general:
  assumes "field_read q s q'" "header_state q' = h_general" "s \<noteq> []"
  shows "field_read q (s @ t) q'"
proof -
  let ?n = "length TRANSFER_ENCODING"
  have no: "\<not> (length s < ?n \<and> s = take (length s) TRANSFER_ENCODING)" using assms by (auto simp: field_read_def encoding_tracks_def)
  have "encoding_tracks h_general (s @ t)"
    using no prefix_of_encoding [of s t] by (auto simp: encoding_tracks_def)
  moreover have "take ?n (s @ t) = TRANSFER_ENCODING \<longleftrightarrow> take ?n s = TRANSFER_ENCODING"
  proof (cases "length s < ?n")
    case True
    have "take ?n (s @ t) \<noteq> TRANSFER_ENCODING"
    proof
      assume "take ?n (s @ t) = TRANSFER_ENCODING"
      then have "s = take (length s) TRANSFER_ENCODING" using True
        by (metis append_eq_conv_conj less_imp_le min_absorb1 take_take)
      then show False using no True by blast
    qed
    then show ?thesis using True by (metis less_irrefl length_take min_less_iff_disj)
  qed simp
  moreover have "field_fold q (s @ t) = q'"
    using assms field_next_general [OF assms(2), of t] by (simp add: field_fold_append field_read_def)
  ultimately show ?thesis using assms by (simp add: field_read_def field_tracks_def)
qed

lemma field_read_char:
  assumes "field_read q0 s q" "s \<noteq> []" "c \<noteq> NUL" "ch \<noteq> CHR '' ''" "header_state q \<noteq> h_general" "c \<noteq> CHR '' ''"
  shows "\<exists>q1. header_field_char c ch q = Inr q1 \<and> field_read q0 (s @ [c]) q1"
proof -
  let ?n = "length TRANSFER_ENCODING"
  have r: "field_frame q0 q" "field_tracks (header_state q) (unat (index q)) s" "encoding_tracks (header_state q) s"
    "uses_transfer_encoding q \<longleftrightarrow> uses_transfer_encoding q0 \<or> take ?n s = TRANSFER_ENCODING"
    using assms(1) by (simp_all add: field_read_def)
  obtain q1 where q1: "header_field_char c ch q = Inr q1" "field_tracks (header_state q1) (unat (index q1)) (s @ [c])"
    using field_char_tracks [OF assms(3,4) r(2) assms(5)] by blast
  note u = encoding_char [OF assms(3,2) r(2,3) q1(1)]
  have "take ?n (s @ [c]) = TRANSFER_ENCODING \<longleftrightarrow> take ?n s = TRANSFER_ENCODING \<or> s @ [c] = TRANSFER_ENCODING"
  proof (cases "length s < ?n")
    case True
    then have "take ?n (s @ [c]) = s @ [c]" "take ?n s \<noteq> TRANSFER_ENCODING" by (auto dest: arg_cong [of _ _ length])
    then show ?thesis by simp
  next
    case False
    then have "s @ [c] \<noteq> TRANSFER_ENCODING" by (auto dest: arg_cong [of _ _ length])
    then show ?thesis using False by simp
  qed
  moreover have "field_fold q0 (s @ [c]) = q1"
  proof -
    have "header_field_char c c q = header_field_char c ch q" using assms(4,6) by (cases "header_state q") (simp_all add: header_field_char_def)
    then show ?thesis using assms(1,2,5) q1(1) by (simp add: field_fold_append field_read_def [of q0 s] field_next_def)
  qed
  ultimately show ?thesis using q1 u r field_frame_trans [OF r(1) header_field_char_frame [OF q1(1)]] by (auto simp: field_read_def)
qed

lemma skip_tokens_stops:
  assumes "p < m" "TOKEN (estrict e) (edata e ! m) = NUL"
  shows "skip_tokens e pe p < m"
  using assms
proof (induction e pe p rule: skip_tokens.induct)
  case (1 e pe p)
  show ?case
  proof (cases "p + 1 < pe \<and> TOKEN (estrict e) (edata e ! (p + 1)) \<noteq> NUL")
    case True
    then have "p + 1 < m" using 1(2,3) by (metis Suc_eq_plus1 Suc_lessI)
    then show ?thesis using 1(1) [OF True] 1(3) True by (subst skip_tokens.simps) simp
  next
    case False
    then show ?thesis using 1(2) by (subst skip_tokens.simps) auto
  qed
qed

lemma field_loop_read:
  assumes "p \<le> m" "m < length (edata e)" "TOKEN (estrict e) (edata e ! m) = NUL"
    and "\<forall>i. p \<le> i \<and> i < m \<longrightarrow> TOKEN (estrict e) (edata e ! i) \<notin> {NUL, CHR '' ''} \<and> edata e ! i \<noteq> CHR '' ''"
    and "s \<noteq> []" "field_read q0 s q"
  shows "\<exists>q'. header_field_loop e q p ch = Inr (q', m, edata e ! m) \<and>
    field_read q0 (s @ map (TOKEN (estrict e)) (take (m - p) (drop p (edata e)))) q'"
  using assms
proof (induction e q p ch arbitrary: s rule: header_field_loop.induct)
  case (1 e q p ch0)
  show ?case
  proof (cases "p = m")
    case True
    then show ?thesis using 1(3-) by (subst header_field_loop.simps) (auto simp: Let_def)
  next
    case False
    then have p: "p < m" "p < length (edata e)" "TOKEN (estrict e) (edata e ! p) \<noteq> NUL" "edata e ! p \<noteq> CHR '' ''"
      "TOKEN (estrict e) (edata e ! p) \<noteq> CHR '' ''" using 1(3-) by auto
    show ?thesis
    proof (cases "header_state q = h_general")
      case True
      let ?p = "Suc (skip_tokens e (chunk_end e p) p)"
      have le: "p < ?p" "?p \<le> m" using skip_tokens_ge [of p e "chunk_end e p"] skip_tokens_stops [OF p(1) 1(5), of "chunk_end e p"] by auto
      let ?t = "map (TOKEN (estrict e)) (take (?p - p) (drop p (edata e)))"
      have "take (m - p) (drop p (edata e)) = take (?p - p) (drop p (edata e)) @ take (m - ?p) (drop ?p (edata e))"
        using le take_add [of "?p - p" "m - ?p" "drop p (edata e)"] by simp
      then have join: "s @ map (TOKEN (estrict e)) (take (m - p) (drop p (edata e))) =
          (s @ ?t) @ map (TOKEN (estrict e)) (take (m - ?p) (drop ?p (edata e)))" by simp
      have "header_field_loop e q p ch0 = header_field_loop e q ?p (edata e ! p)"
        using p True by (subst header_field_loop.simps) (simp add: Let_def)
      moreover have "field_read q0 (s @ ?t) q" using field_read_general [OF 1(8) True 1(7)] .
      ultimately show ?thesis
        using 1(1) [OF _ _ refl refl _ True, of "s @ ?t"] 1(4-7) le p unfolding join by auto
    next
      case False
      obtain q1 where q1: "header_field_char (TOKEN (estrict e) (edata e ! p)) (edata e ! p) q = Inr q1"
          "field_read q0 (s @ [TOKEN (estrict e) (edata e ! p)]) q1"
        using field_read_char [OF 1(8,7) p(3,4) False p(5)] by blast
      have "take (m - p) (drop p (edata e)) = edata e ! p # take (m - Suc p) (drop (Suc p) (edata e))"
        using p by (simp add: Cons_nth_drop_Suc [symmetric] take_Cons')
      then have join: "s @ map (TOKEN (estrict e)) (take (m - p) (drop p (edata e))) =
          (s @ [TOKEN (estrict e) (edata e ! p)]) @ map (TOKEN (estrict e)) (take (m - Suc p) (drop (Suc p) (edata e)))" by simp
      have "header_field_loop e q p ch0 = header_field_loop e q1 (Suc p) (edata e ! p)"
        using p False q1(1) by (subst header_field_loop.simps) (simp add: Let_def)
      then show ?thesis
        using 1(2) [OF _ _ refl refl _ False q1(1), of "s @ [TOKEN (estrict e) (edata e ! p)]"] 1(4-7) q1(2) p unfolding join by auto
    qed
  qed
qed

lemma recognized_names:
  "recognized CONNECTION = Some h_connection" "recognized PROXY_CONNECTION = Some h_connection"
  "recognized CONTENT_LENGTH = Some h_content_length" "recognized TRANSFER_ENCODING = Some h_transfer_encoding"
  "recognized UPGRADE = Some h_upgrade"
  by code_simp+

lemma recognized_iff:
  assumes "field_read q s q'" "h \<in> {h_connection, h_content_length, h_transfer_encoding, h_upgrade}"
  shows "header_state q' = h \<longleftrightarrow> recognized s = Some h"
proof
  assume "header_state q' = h"
  then have "field_tracks h (unat (index q')) s" using assms(1) by (simp add: field_read_def)
  then show "recognized s = Some h" using assms(2) by (auto simp: field_tracks_def recognized_names)
next
  assume r: "recognized s = Some h"
  have "(s, h) \<in> {(CONNECTION, h_connection), (PROXY_CONNECTION, h_connection), (CONTENT_LENGTH, h_content_length),
      (TRANSFER_ENCODING, h_transfer_encoding), (UPGRADE, h_upgrade)}"
    using map_of_SomeD [OF r [unfolded recognized_def]] by simp
  then have "header_state (field_fold q s) = h"
    by (auto simp: field_fold_def field_begin_def field_start_state_def field_next_def header_field_char_def match_field_def
        next_index_def match_name_def cstr_at_def Let_def names_short PROXY_CONNECTION_def CONNECTION_def CONTENT_LENGTH_def
        TRANSFER_ENCODING_def UPGRADE_def)
  then show "header_state q' = h" using assms(1) by (simp add: field_read_def)
qed

section \<open>The parser\<close>

lemma field_first:
  assumes "p_state r = s_header_field_start" "rp r < length (edata e)" "edata e ! rp r = c" "c \<noteq> CR" "c \<noteq> LF"
    and "TOKEN (estrict e) c \<noteq> NUL" "unat (rnread r) + 1 \<le> unat (max_header_size e)" "marks r = (\<lambda>_. None)"
  shows "execute_byte e r = Next (r\<lparr>rch := c, rnread := rnread r + 1, p_state := s_header_field,
      marks := (\<lambda>_. None)(header_field_mark := Some (rp r)), rparser := field_begin (rparser r) (TOKEN (estrict e) c)\<rparr>)"
  using header_byte [of r e] assms
  by (simp add: PARSING_HEADER_iff dispatch_def do_header_field_start_def Let_def MARK_def on_parser_def UPDATE_STATE_def field_begin_def)

lemma field_read_begin: "field_read q [c] (field_begin q c)"
proof -
  have "take 1 PROXY_CONNECTION = ''p''" "take 1 TRANSFER_ENCODING = ''t''" "take 1 UPGRADE = ''u''" by code_simp+
  moreover have "take 17 [c] \<noteq> TRANSFER_ENCODING" using names_short(4) by (auto dest: arg_cong [of _ _ length])
  ultimately show ?thesis using names_short
    by (auto simp: field_read_def field_fold_def field_begin_def field_tracks_def encoding_tracks_def field_start_state_def
        intro: field_frame_intro)
qed

lemma colon_no_token: "STRICT_TOKEN CHR '':'' = NUL"
  by code_simp

lemma line_end_no_token: "STRICT_TOKEN CR = NUL" "STRICT_TOKEN LF = NUL"
  by code_simp+

lemma token_no_space: "STRICT_TOKEN c \<noteq> CHR '' ''"
proof
  assume space: "STRICT_TOKEN c = CHR '' ''"
  then have "c \<noteq> CHR '' ''" "tokens ! byte_index c = CHR '' ''" by (auto simp: STRICT_TOKEN_def split: if_splits)
  then have "token_code (byte_index c) = 32" using tokens_nth [of c] by (simp add: byte_index_def)
  then have "byte_index c = 32" by (auto simp: token_code_def split: if_splits)
  then have "(of_char c :: nat) = of_char (CHR '' '')" by (simp add: byte_index_def)
  then show False using \<open>c \<noteq> CHR '' ''\<close> by (simp only: of_char_eq_iff)
qed

text \<open>The rest of the name, the colon and the callback.\<close>

lemma field_scan:
  assumes e: "estrict e" "edata e = pre @ s @ '':'' @ rest"
    and r: "p_state r = s_header_field" "rp r = length pre + 1" "http_errno (rparser r) = HPE_OK"
      "field_read q0 [TOKEN True (hd s)] (rparser r)"
    and s: "s \<noteq> []" "list_all (\<lambda>c. STRICT_TOKEN c \<noteq> NUL) s" "unat (rnread r) + length s \<le> unat (max_header_size e)"
  shows "\<exists>q'. field_read q0 (map STRICT_TOKEN s) q' \<and> http_errno q' = HPE_OK \<and>
    execute_byte e r = (case CALLBACK_DATA e header_field_mark (r\<lparr>rch := CHR '':'', rp := length pre + length s,
        rnread := rnread r + of_nat (length s), rparser := q', p_state := s_header_value_discard_ws\<rparr>) of
      Reexecute r' \<Rightarrow> reexecute 7 e r' | x \<Rightarrow> x)"
proof -
  let ?p = "length pre + 1" and ?m = "length pre + length s"
  have token: "TOKEN (estrict e) c = STRICT_TOKEN c" for c using e(1) by (simp add: TOKEN_def)
  have at: "edata e ! ?m = CHR '':''" "?m < length (edata e)" "?p \<le> ?m" using e(2) s(1) by (auto simp: nth_append Suc_le_eq)
  have colon: "TOKEN (estrict e) (edata e ! ?m) = NUL" using colon_no_token by (simp add: token at(1))
  have inside: "\<forall>i. ?p \<le> i \<and> i < ?m \<longrightarrow> TOKEN (estrict e) (edata e ! i) \<notin> {NUL, CHR '' ''} \<and> edata e ! i \<noteq> CHR '' ''"
  proof (intro allI impI)
    fix i assume i: "?p \<le> i \<and> i < ?m"
    then have "edata e ! i = s ! (i - length pre)" "i - length pre < length s" using e(2) by (auto simp: nth_append)
    then show "TOKEN (estrict e) (edata e ! i) \<notin> {NUL, CHR '' ''} \<and> edata e ! i \<noteq> CHR '' ''"
      using s(2) token_no_space by (auto simp: token list_all_length STRICT_TOKEN_def)
  qed
  have name: "[TOKEN True (hd s)] @ map (TOKEN (estrict e)) (take (?m - ?p) (drop ?p (edata e))) = map STRICT_TOKEN s"
    using s(1) e by (cases s) (simp_all add: TOKEN_def)
  obtain q' where loop: "header_field_loop e (rparser r) ?p (edata e ! ?p) = Inr (q', ?m, CHR '':'')" and q': "field_read q0 (map STRICT_TOKEN s) q'"
    using field_loop_read [OF at(3,2) colon inside _ r(4), of "edata e ! ?p"] unfolding name at(1) by auto
  have ok: "http_errno q' = HPE_OK" using q' r(3,4) by (auto simp: field_read_def field_frame_def)
  let ?r1 = "r\<lparr>rch := edata e ! ?p, rnread := rnread r + 1\<rparr>"
  let ?r2 = "r\<lparr>rch := CHR '':'', rp := ?m, rnread := rnread r + of_nat (length s), rparser := q'\<rparr>"
  have count: "COUNT_HEADER_SIZE e (?m - ?p) (r\<lparr>rnread := rnread r + 1, rparser := q', rp := ?m, rch := CHR '':''\<rparr>) = Next ?r2"
  proof -
    have "unat (rnread r) + 1 \<le> unat (max_header_size e)" using s(1,3) by (cases s) simp_all
    then have "unat (rnread r + 1) + (?m - ?p) \<le> unat (max_header_size e)" using count_one(2) [of r e] s(1,3) by (cases s) simp_all
    moreover have "rnread r + 1 + of_nat (?m - ?p) = rnread r + of_nat (length s)" using s(1) by (cases s) simp_all
    ultimately show ?thesis
      using count_many(1) [of "r\<lparr>rnread := rnread r + 1, rparser := q', rp := ?m, rch := CHR '':''\<rparr>" "?m - ?p" e] by simp
  qed
  have "do_header_field e ?r1 = CALLBACK_DATA e header_field_mark (?r2\<lparr>p_state := s_header_value_discard_ws\<rparr>)"
    using loop count r(2) at(2) by (simp add: do_header_field_def Let_def UPDATE_STATE_def)
  moreover have "execute_byte e r = (case do_header_field e ?r1 of Reexecute r' \<Rightarrow> reexecute 7 e r' | x \<Rightarrow> x)"
    using header_byte [of r e] r(1,2) at(2,3) s(1,3) by (cases s) (simp_all add: PARSING_HEADER_iff dispatch_def)
  ultimately show ?thesis using q' ok by auto
qed

lemma field_rest:
  assumes e: "settings e = quiet" "estrict e" "edata e = pre @ s @ '':'' @ rest"
    and r: "p_state r = s_header_field" "rp r = length pre + 1" "http_errno (rparser r) = HPE_OK"
      "marks r = (\<lambda>_. None)(header_field_mark := Some (length pre))" "field_read q0 [TOKEN True (hd s)] (rparser r)"
    and s: "s \<noteq> []" "list_all (\<lambda>c. STRICT_TOKEN c \<noteq> NUL) s" "unat (rnread r) + length s \<le> unat (max_header_size e)"
  shows "\<exists>q'. field_read q0 (map STRICT_TOKEN s) q' \<and>
    reaches e r (r\<lparr>rch := CHR '':'', rp := length pre + length s + 1, rnread := rnread r + of_nat (length s),
      p_state := s_header_value_discard_ws, marks := (\<lambda>_. None),
      rworld := rworld r @ [(''header_field'', s)], rparser := q'\<lparr>pstate := s_header_value_discard_ws\<rparr>\<rparr>)"
proof -
  obtain q' where q': "field_read q0 (map STRICT_TOKEN s) q'" "http_errno q' = HPE_OK"
    and byte: "execute_byte e r = (case CALLBACK_DATA e header_field_mark (r\<lparr>rch := CHR '':'', rp := length pre + length s,
        rnread := rnread r + of_nat (length s), rparser := q', p_state := s_header_value_discard_ws\<rparr>) of
      Reexecute r' \<Rightarrow> reexecute 7 e r' | x \<Rightarrow> x)"
    using field_scan [OF e(2,3) r(1-3,5) s] by blast
  let ?r2 = "r\<lparr>rch := CHR '':'', rp := length pre + length s, rnread := rnread r + of_nat (length s), rparser := q',
    p_state := s_header_value_discard_ws\<rparr>"
  let ?r3 = "?r2\<lparr>marks := (\<lambda>_. None), rworld := rworld r @ [(''header_field'', s)],
    rparser := q'\<lparr>pstate := s_header_value_discard_ws\<rparr>\<rparr>"
  have "CALLBACK_DATA e header_field_mark ?r2 = Next ?r3"
    using data_recorded [of e header_field_mark "''header_field''" ?r2 "length pre" "length pre + length s"] e(1,3) r(4) q'(2)
    by (simp add: CALLBACK_DATA_def data_cb_def quiet_def recorder_def)
  then have "execute_byte e r = Next ?r3" using byte by simp
  then have "reaches e r (r\<lparr>rch := CHR '':'', rp := length pre + length s + 1, rnread := rnread r + of_nat (length s),
      p_state := s_header_value_discard_ws, marks := (\<lambda>_. None), rworld := rworld r @ [(''header_field'', s)],
      rparser := q'\<lparr>pstate := s_header_value_discard_ws\<rparr>\<rparr>)"
    by (rule reaches_to) (use r(2) s(1) in \<open>simp_all add: Suc_le_eq\<close>)
  then show ?thesis using q' by blast
qed

lemma name_reaches:
  assumes e: "settings e = quiet" "estrict e" "edata e = pre @ s @ '':'' @ rest"
    and r: "p_state r = s_header_field_start" "rp r = length pre" "http_errno (rparser r) = HPE_OK" "marks r = (\<lambda>_. None)"
    and s: "s \<noteq> []" "list_all (\<lambda>c. STRICT_TOKEN c \<noteq> NUL) s" "unat (rnread r) + length s + 1 \<le> unat (max_header_size e)"
  shows "\<exists>q'. field_read (rparser r) (map STRICT_TOKEN s) q' \<and>
    reaches e r (r\<lparr>rch := CHR '':'', rp := length pre + length s + 1, rnread := rnread r + of_nat (length s) + 1,
      p_state := s_header_value_discard_ws, rworld := rworld r @ [(''header_field'', s)],
      rparser := q'\<lparr>pstate := s_header_value_discard_ws\<rparr>\<rparr>)"
proof -
  obtain c cs where cs: "s = c # cs" using s(1) by (cases s) auto
  have token: "STRICT_TOKEN c \<noteq> NUL" using s(2) cs by simp
  then have c: "c \<noteq> CR" "c \<noteq> LF" using line_end_no_token by auto
  let ?r1 = "r\<lparr>rch := c, rnread := rnread r + 1, p_state := s_header_field,
      marks := (\<lambda>_. None)(header_field_mark := Some (length pre)), rparser := field_begin (rparser r) (STRICT_TOKEN c), rp := length pre + 1\<rparr>"
  have first: "execute_byte e r = Next (?r1\<lparr>rp := length pre\<rparr>)"
    using field_first [of r e c] r e c token s(3) cs by (simp add: TOKEN_def)
  have one: "reaches e r ?r1" by (rule reaches_to [OF first]) (simp_all add: r(2))
  have n: "unat (rnread r + 1) = unat (rnread r) + 1" using count_one(2) [of r e] s(3) by simp
  have read: "field_read (rparser r) [TOKEN True (hd s)] (rparser ?r1)"
    using field_read_begin [of "rparser r" "STRICT_TOKEN c"] cs by (simp add: TOKEN_def)
  have "http_errno (rparser ?r1) = HPE_OK" using r(3) by (simp add: field_begin_def)
  then obtain q' where q': "field_read (rparser r) (map STRICT_TOKEN s) q'" and two: "reaches e ?r1 (?r1\<lparr>rch := CHR '':'',
      rp := length pre + length s + 1, rnread := rnread ?r1 + of_nat (length s), p_state := s_header_value_discard_ws, marks := (\<lambda>_. None),
      rworld := rworld ?r1 @ [(''header_field'', s)], rparser := q'\<lparr>pstate := s_header_value_discard_ws\<rparr>\<rparr>)"
    using field_rest [OF e(1-3), of ?r1 "rparser r"] read s n by auto
  show ?thesis
    by (intro exI [of _ q'] conjI q' reaches_eq [OF reaches_trans [OF one two]]) (use r(4) in \<open>cases r; simp\<close>)
qed

lemma no_initial_marks: "s \<in> {s_header_field_start, s_header_value_discard_ws} \<Longrightarrow> initial_marks s = (\<lambda>_. None)"
  by (auto simp: initial_marks_def url_states_def)

lemma field_name_execute:
  assumes q: "http_errno q = HPE_OK" "pstate q = s_header_field_start"
    and s: "s \<noteq> []" "list_all (\<lambda>c. STRICT_TOKEN c \<noteq> NUL) s" "unat (nread q) + length s + 1 \<le> unat mhs"
  shows "\<exists>q' n. http_parser_execute True mhs quiet q (s @ '':'') w =
      Inr (length s + 1, q'\<lparr>nread := n, pstate := s_header_value_discard_ws\<rparr>, w @ [(''header_field'', s)]) \<and>
    field_read q (map STRICT_TOKEN s) q'"
proof -
  let ?d = "s @ '':''" and ?e = "execute_env True mhs quiet q (s @ '':'')" and ?r = "execute_start q w"
  have e: "settings ?e = quiet" "estrict ?e" "edata ?e = s @ '':''" "max_header_size ?e = mhs" by (simp_all add: execute_env_def)
  have r: "p_state ?r = s_header_field_start" "rp ?r = 0" "http_errno (rparser ?r) = HPE_OK" "marks ?r = (\<lambda>_. None)" "rnread ?r = nread q" "rparser ?r = q" "rworld ?r = w"
    using q by (simp_all add: execute_start_def no_initial_marks)
  let ?n = "nread q + of_nat (length s) + 1"
  obtain q' where q': "field_read q (map STRICT_TOKEN s) q'" and run: "reaches ?e ?r (?r\<lparr>rch := CHR '':'', rp := length s + 1, rnread := ?n,
      p_state := s_header_value_discard_ws, rworld := w @ [(''header_field'', s)], rparser := q'\<lparr>pstate := s_header_value_discard_ws\<rparr>\<rparr>)"
      (is "reaches _ _ ?r1")
    using name_reaches [OF e(1,2), of "[]" s "[]" ?r] r e(3,4) s by auto
  have "http_errno q' = HPE_OK" using q' q(1) by (auto simp: field_read_def field_frame_def)
  then have "flush_marks ?e ?r1 = RETURN (length (edata ?e)) ?r1" by (intro flush_no_marks) (simp_all add: r(4))
  moreover have "http_parser_execute True mhs quiet q ?d w = finish (flush_marks ?e ?r1)"
    using execute_reaches [OF q(1) _ run] by simp
  ultimately have "http_parser_execute True mhs quiet q ?d w =
      Inr (length s + 1, q'\<lparr>nread := ?n, pstate := s_header_value_discard_ws\<rparr>, w @ [(''header_field'', s)])"
    by (simp add: finish_def RETURN_def e(3))
  then show ?thesis using q' by blast
qed

end
