(* ===== verification/Http_Header_Lines.thy ===== *)
theory Http_Header_Lines
  imports Http_Bodies Http_Field_Names
begin

text \<open>
  Whole header lines: an ordinary value, from the colon to the end of its line, and the next
  name behind it.
\<close>

section \<open>Values\<close>

definition blank :: "char \<Rightarrow> bool" where
  "blank c \<longleftrightarrow> c = CHR '' '' \<or> c = HT"

definition plain_value :: "string \<Rightarrow> bool" where
  "plain_value u \<longleftrightarrow> list_all (\<lambda>c. IS_HEADER_CHAR c \<and> c \<noteq> CR \<and> c \<noteq> LF) u \<and> dropWhile blank u \<noteq> []"

text \<open>The header states in which the value of a header means nothing to the parser.\<close>

definition ordinary :: "header_states \<Rightarrow> bool" where
  "ordinary h \<longleftrightarrow> h \<notin> {h_upgrade, h_transfer_encoding, h_matching_transfer_encoding_token_start, h_content_length,
     h_content_length_ws, h_connection, h_matching_connection_token_start}"

lemma blank_reaches:
  assumes "p_state r = s_header_value_discard_ws" "edata e = pre @ u @ rest" "rp r = length pre" "list_all blank u"
    and "unat (rnread r) + length u \<le> unat (max_header_size e)"
  shows "\<exists>c. reaches e r (r\<lparr>rch := c, rp := length pre + length u, rnread := rnread r + of_nat (length u)\<rparr>)"
  using assms
proof (induction u arbitrary: pre r)
  case Nil
  then show ?case by (intro exI [of _ "rch r"]) (simp flip: Nil.prems(3) add: reaches_refl)
next
  case (Cons c u)
  let ?r1 = "r\<lparr>rch := c, rnread := rnread r + 1, rp := Suc (length pre)\<rparr>"
  have c: "c = CHR '' '' \<or> c = HT" using Cons.prems(4) by (simp add: blank_def)
  have "execute_byte e r = Next (r\<lparr>rch := c, rnread := rnread r + 1\<rparr>)"
    using header_byte [of r e] Cons.prems c by (simp add: PARSING_HEADER_iff dispatch_def do_header_value_discard_ws_def)
  then have one: "reaches e r ?r1" by (rule reaches_to) (use Cons.prems(3) in simp_all)
  have n: "unat (rnread r + 1) = unat (rnread r) + 1" using count_one(2) [of r e] Cons.prems(5) by simp
  obtain c' where "reaches e ?r1 (?r1\<lparr>rch := c', rp := length (pre @ [c]) + length u, rnread := rnread ?r1 + of_nat (length u)\<rparr>)"
    using Cons.IH [of ?r1 "pre @ [c]"] Cons.prems n by auto
  with one have "reaches e r (r\<lparr>rch := c', rp := length pre + length (c # u), rnread := rnread r + of_nat (length (c # u))\<rparr>)"
    using reaches_trans reaches_eq by (fastforce simp: add.assoc)
  then show ?case by blast
qed

lemma value_first:
  assumes "p_state r = s_header_value_discard_ws" "rp r < length (edata e)" "edata e ! rp r = c"
    and "\<not> blank c" "c \<noteq> CR" "c \<noteq> LF" "ordinary (header_state (rparser r))"
    and "marks r = (\<lambda>_. None)" "unat (rnread r) + 1 \<le> unat (max_header_size e)"
  shows "execute_byte e r = Next (r\<lparr>rch := c, rnread := rnread r + 1, marks := (\<lambda>_. None)(header_value_mark := Some (rp r)),
    p_state := s_header_value, rparser := (rparser r)\<lparr>index := 0, header_state := h_general\<rparr>\<rparr>)"
  using header_byte [of r e] assms
  by (cases "header_state (rparser r)")
    (simp_all add: PARSING_HEADER_iff dispatch_def do_header_value_discard_ws_def do_header_value_start_def Let_def MARK_def
      on_parser_def UPDATE_STATE_def blank_def ordinary_def)

lemma skip_value_to:
  assumes "edata e = pre @ v @ CR # rest" "list_all (\<lambda>c. IS_HEADER_CHAR c \<and> c \<noteq> CR \<and> c \<noteq> LF) v"
    and "length pre + length v < pe"
  shows "skip_value e pe (length pre) ch = (True, length pre + length v - 1, CR)"
  using assms
proof (induction v arbitrary: pre ch)
  case Nil
  then show ?case by (subst skip_value.simps) (simp add: Let_def)
next
  case (Cons c v)
  have "skip_value e pe (length pre) ch = skip_value e pe (length (pre @ [c])) c"
    using Cons.prems by (subst skip_value.simps) (simp add: Let_def)
  then show ?case using Cons.IH [of "pre @ [c]"] Cons.prems by simp
qed

lemma value_general:
  assumes data: "edata e = pre @ v @ CR # rest" "list_all (\<lambda>c. IS_HEADER_CHAR c \<and> c \<noteq> CR \<and> c \<noteq> LF) v" "length v < unat (max_header_size e)"
    and mark: "marks r = (\<lambda>_. None)(header_value_mark := Some m)" "m \<le> length pre"
    and ok: "http_errno (rparser r) = HPE_OK" "unat (rnread r) + length v \<le> unat (max_header_size e)"
    and cb: "on_header_value (settings e) = Some (record_data P ''header_value'')" "\<not> P ''header_value''"
  shows "header_value_loop e (length pre) (length pre) h_general r =
    Next (r\<lparr>rp := length pre + length v, rch := CR, p_state := s_header_almost_done, rnread := rnread r + of_nat (length v),
      rparser := (rparser r)\<lparr>header_state := h_general, pstate := s_header_almost_done\<rparr>,
      rworld := rworld r @ [(''header_value'', drop m pre @ v)], marks := (\<lambda>_. None)\<rparr>)"
proof -
  let ?p = "length pre + length v"
  have bytes: "take (?p - m) (drop m (edata e)) = drop m pre @ v" using data(1) mark(2) by simp
  have line: "header_value_loop e (length pre) ?p h_general r1 =
      Next (r\<lparr>rp := ?p, rch := CR, p_state := s_header_almost_done, rnread := rnread r + of_nat (length v),
        rparser := (rparser r)\<lparr>header_state := h_general, pstate := s_header_almost_done\<rparr>,
        rworld := rworld r @ [(''header_value'', drop m pre @ v)], marks := (\<lambda>_. None)\<rparr>)"
    if "r1 = r\<lparr>rp := p', rch := c'\<rparr>" for r1 p' c'
    using value_line_end [of e ?p r1 m "length pre" "record_data P ''header_value''" h_general "pdata (rparser r)"
        "rworld r @ [(''header_value'', drop m pre @ v)]"] that data(1) mark ok cb bytes
    by (simp add: nth_append record_data_def)
  show ?thesis
  proof (cases v)
    case Nil
    then show ?thesis using line [where p' = "rp r" and c' = "rch r"] by simp
  next
    case (Cons c v')
    have c: "edata e ! length pre = c" "length pre < length (edata e)" "IS_HEADER_CHAR c" "c \<noteq> CR" "c \<noteq> LF"
      using data Cons by auto
    have skip: "skip_value e (chunk_end e (length pre)) (length pre) c = (True, ?p - 1, CR)"
      by (rule skip_value_to [OF data(1,2)]) (use data in \<open>simp add: chunk_end_def\<close>)
    have "last_byte e (?p - 1) = ?p - 1" "Suc (?p - 1) = ?p" using data(1) Cons by (simp_all add: last_byte_def)
    then have "header_value_loop e (length pre) (length pre) h_general r =
        header_value_loop e (length pre) ?p h_general (r\<lparr>rp := length pre, rch := CR\<rparr>)"
      using c skip by (subst header_value_loop.simps) (simp add: Let_def)
    then show ?thesis using line [where p' = "length pre" and c' = CR] by simp
  qed
qed

text \<open>From behind the colon to behind the line feed.\<close>

lemma value_reaches:
  assumes data: "edata e = pre @ u @ [CR, LF] @ rest" "plain_value u"
    and r: "p_state r = s_header_value_discard_ws" "rp r = length pre" "marks r = (\<lambda>_. None)" "http_errno (rparser r) = HPE_OK"
      "ordinary (header_state (rparser r))"
    and room: "unat (rnread r) + length u + 2 \<le> unat (max_header_size e)"
    and cb: "on_header_value (settings e) = Some (record_data P ''header_value'')" "\<not> P ''header_value''"
  shows "reaches e r (r\<lparr>rch := LF, rp := length pre + length u + 2, rnread := rnread r + of_nat (length u) + 2,
    p_state := s_header_value_lws, rworld := rworld r @ [(''header_value'', dropWhile blank u)],
    rparser := (rparser r)\<lparr>index := 0, header_state := h_general, pstate := s_header_almost_done\<rparr>\<rparr>)"
proof -
  define b v where "b = takeWhile blank u" and "v = dropWhile blank u"
  have u: "u = b @ v" "list_all blank b" by (auto simp: b_def v_def list_all_iff dest: set_takeWhileD)
  obtain c v' where v: "v = c # v'" "\<not> blank c"
    using data(2) hd_dropWhile [of blank u] by (cases v) (auto simp: plain_value_def v_def)
  have plain: "list_all (\<lambda>c. IS_HEADER_CHAR c \<and> c \<noteq> CR \<and> c \<noteq> LF) (c # v')" using data(2) u v by (simp add: plain_value_def)
  let ?pre = "pre @ b" and ?n = "rnread r + of_nat (length b)"
  obtain c0 where one: "reaches e r (r\<lparr>rch := c0, rp := length ?pre, rnread := ?n\<rparr>)" (is "reaches e r ?r1")
    using blank_reaches [OF r(1) _ r(2) u(2), of e "v @ [CR, LF] @ rest"] data(1) u(1) room by auto
  have n: "unat ?n = unat (rnread r) + length b" using count_many(2) [of r "length b" e] room u(1) by simp
  let ?r2 = "r\<lparr>rch := c, rnread := ?n + 1, marks := (\<lambda>_. None)(header_value_mark := Some (length ?pre)),
    p_state := s_header_value, rparser := (rparser r)\<lparr>index := 0, header_state := h_general\<rparr>, rp := length ?pre + 1\<rparr>"
  have "execute_byte e ?r1 = Next (?r2\<lparr>rp := length ?pre\<rparr>)"
    using value_first [of ?r1 e c] r(1,3,5) data(1) u(1) v plain n room by (simp add: nth_append)
  then have two: "reaches e ?r1 ?r2" by (rule reaches_to) simp_all
  have n2: "unat (?n + 1) = unat (rnread r) + length b + 1" using count_one(2) [of ?r1 e] n room u(1) v by simp
  have n3: "unat (?n + 2) = unat (rnread r) + length b + 2"
    using count_one(2) [of ?r2 e] n2 room u(1) v by (simp add: add.assoc)
  let ?v' = "r\<lparr>rch := CR, rnread := ?n + 2 + of_nat (length v'), marks := (\<lambda>_. None), p_state := s_header_almost_done,
    rparser := (rparser r)\<lparr>index := 0, header_state := h_general, pstate := s_header_almost_done\<rparr>,
    rworld := rworld r @ [(''header_value'', v)], rp := length pre + length u\<rparr>"
  have len: "length ?pre + 1 + length v' = length pre + length u" using u(1) v(1) by simp
  have "execute_byte e ?r2 = Next ?v'"
  proof -
    let ?r2' = "?r2\<lparr>rch := edata e ! (length ?pre + 1), rnread := ?n + 2\<rparr>"
    have "dispatch e ?r2' = header_value_loop e (length (?pre @ [c])) (length (?pre @ [c])) h_general ?r2'"
      by (simp add: dispatch_def do_header_value_def)
    also have "\<dots> = Next ?v'"
      using value_general [of e "?pre @ [c]" v' "LF # rest" ?r2' "length ?pre" P] data(1) u(1) v(1) plain r(4) room n3 cb len
      by (simp add: add.assoc)
    finally show ?thesis using header_byte [of ?r2 e] n2 room u(1) v(1) data(1)
      by (simp add: PARSING_HEADER_iff add.assoc)
  qed
  then have three: "reaches e ?r2 (?v'\<lparr>rp := length pre + length u + 1\<rparr>)" (is "reaches _ _ ?r3") by (rule reaches_to) (use len in simp_all)
  have n4: "unat (?n + 2 + of_nat (length v')) = unat (rnread r) + length b + 2 + length v'"
    using count_many(2) [of "?r2\<lparr>rnread := ?n + 2\<rparr>" "length v'" e] n3 room u(1) v(1) by simp
  let ?r4 = "?r3\<lparr>rch := LF, rp := length pre + length u + 2, rnread := ?n + 2 + of_nat (length v') + 1, p_state := s_header_value_lws\<rparr>"
  have "execute_byte e ?r3 = Next (?r4\<lparr>rp := length pre + length u + 1\<rparr>)"
    using header_byte [of ?r3 e] n4 room u(1) v(1) data(1)
    by (simp add: PARSING_HEADER_iff dispatch_def do_header_almost_done_def UPDATE_STATE_def nth_append)
  then have four: "reaches e ?r3 ?r4" by (rule reaches_to) simp_all
  have "?n + 2 + of_nat (length v') + 1 = rnread r + of_nat (length u) + 2" using u(1) v(1) by simp
  then show ?thesis
    by (intro reaches_eq [OF reaches_trans [OF one reaches_trans [OF two reaches_trans [OF three four]]]])
      (use r(3) in \<open>cases r; simp add: v_def\<close>)
qed


lemma ordinary_name:
  assumes "field_read q s q'" "recognized s = None"
  shows "ordinary (header_state q')"
proof -
  have "header_state q' \<notin> {h_connection, h_content_length, h_transfer_encoding, h_upgrade}"
    using recognized_iff [OF assms(1)] assms(2) by auto
  moreover have "field_tracks (header_state q') (unat (index q')) s" using assms(1) by (simp add: field_read_def)
  ultimately show ?thesis by (cases "header_state q'") (simp_all add: field_tracks_def ordinary_def)
qed

lemma longer_unrecognized:
  assumes "length TRANSFER_ENCODING < length s"
  shows "recognized s = None"
  using assms names_short by (auto simp: recognized_def split: if_splits)

text \<open>Behind the line feed, a byte that continues no value begins the next line.\<close>

lemma next_line:
  assumes "p_state r = s_header_value_lws" "header_state (rparser r) = h_general" "rp r < length (edata e)"
    and "\<not> blank (edata e ! rp r)" "edata e ! rp r \<noteq> LF" "unat (rnread r) + 1 \<le> unat (max_header_size e)"
  shows "execute_byte e r = execute_byte e (r\<lparr>p_state := s_header_field_start\<rparr>)"
proof -
  let ?r1 = "r\<lparr>rch := edata e ! rp r, rnread := rnread r + 1, p_state := s_header_field_start\<rparr>"
  have "execute_byte e r = reexecute 7 e ?r1"
    using header_byte [of r e] assms
    by (simp add: PARSING_HEADER_iff dispatch_def do_header_value_lws_def blank_def UPDATE_STATE_def on_parser_def
        value_flag_def connection_flag_def)
  moreover have "\<exists>x. dispatch e ?r1 = x \<and> (\<forall>r'. x \<noteq> Reexecute r')"
    using assms(5) by (simp add: dispatch_def do_header_field_start_def Let_def set_errno_and_goto_error_def)
  moreover have "execute_byte e (r\<lparr>p_state := s_header_field_start\<rparr>) =
      (case dispatch e (r\<lparr>p_state := s_header_field_start, rch := edata e ! rp r, rnread := rnread r + 1\<rparr>) of
         Reexecute r' \<Rightarrow> reexecute 7 e r' | x \<Rightarrow> x)"
    using header_byte [of "r\<lparr>p_state := s_header_field_start\<rparr>" e] assms by (simp add: PARSING_HEADER_iff)
  moreover have "r\<lparr>p_state := s_header_field_start, rch := edata e ! rp r, rnread := rnread r + 1\<rparr> = ?r1" by simp
  ultimately show ?thesis by (auto simp: reexecute_again split: outcome.split)
qed


section \<open>Names that only begin like a transfer encoding\<close>

lemma headers_end_refused:
  assumes r: "p_state r = s_headers_almost_done" "rp r < length (edata e)" "edata e ! rp r = LF" "http_errno (rparser r) = HPE_OK"
      "unat (rnread r) + 1 \<le> unat (max_header_size e)"
    and e: "settings e = quiet" "\<not> lenient e"
    and q: "uses_transfer_encoding (rparser r)" "ptype (rparser r) = HTTP_REQUEST" "\<not> has_flag (rparser r) F_CHUNKED"
      "\<not> has_flag (rparser r) F_TRAILING" "\<not> has_flag (rparser r) F_SKIPBODY" "\<not> announced_upgrade (rparser r)"
  shows "if has_flag (rparser r) F_CONTENTLENGTH
    then \<exists>r1. execute_byte e r = GotoError r1 \<and> http_errno (rparser r1) = HPE_UNEXPECTED_CONTENT_LENGTH
    else \<exists>n q' w'. execute_byte e r = Returned n q' w' \<and> http_errno q' = HPE_INVALID_TRANSFER_ENCODING"
proof -
  let ?r = "r\<lparr>rch := LF, rnread := rnread r + 1\<rparr>"
  have byte: "execute_byte e r = (case dispatch e ?r of Reexecute r' \<Rightarrow> reexecute 7 e r' | x \<Rightarrow> x)"
    using header_byte [of r e] r by (simp add: PARSING_HEADER_iff)
  have both: "length_and_encoding e (rparser ?r) \<longleftrightarrow> has_flag (rparser r) F_CONTENTLENGTH"
    using e(2) q(1,3) by (simp add: length_and_encoding_def)
  show ?thesis
  proof (cases "has_flag (rparser r) F_CONTENTLENGTH")
    case True
    then show ?thesis using byte both r(1) q(4)
      by (simp add: dispatch_def do_headers_almost_done_def STRICT_CHECK_def set_errno_and_goto_error_def SET_ERRNO_def on_parser_def)
  next
    case False
    let ?r2 = "?r\<lparr>p_state := s_headers_done, rparser := (rparser r)\<lparr>upgrade := False\<rparr>, rworld := rworld r @ [(''headers_complete'', [])]\<rparr>"
    have call: "on_headers_complete (settings e) = Some (record_notify ''headers_complete'')" using e(1) by (simp add: quiet_def recorder_def)
    have "dispatch e ?r = Reexecute ?r2"
      using False both r(1,4) q(4,6) call
      by (simp add: dispatch_def do_headers_almost_done_def STRICT_CHECK_def headers_complete_callback_def record_notify_def
          on_parser_def UPDATE_STATE_def Let_def)
    moreover have "\<exists>n q' w'. do_headers_done e ?r2 = Returned n q' w' \<and> http_errno q' = HPE_INVALID_TRANSFER_ENCODING"
      using q e(2) by (simp add: do_headers_done_def STRICT_CHECK_def zero_nread_def on_parser_def Let_def has_flag_def RETURN_def SET_ERRNO_def)
    then obtain n q' w' where "dispatch e ?r2 = Returned n q' w'" "http_errno q' = HPE_INVALID_TRANSFER_ENCODING"
      by (auto simp: dispatch_def)
    ultimately show ?thesis using False byte by (simp add: reexecute_again)
  qed
qed


lemma encoding_prefix_execute:
  assumes q: "http_errno q = HPE_OK" "pstate q = s_header_field_start" "ptype q = HTTP_REQUEST" "\<not> lenient_http_headers q"
      "\<not> has_flag q F_CHUNKED" "\<not> has_flag q F_TRAILING" "\<not> has_flag q F_SKIPBODY" "\<not> announced_upgrade q"
    and s: "list_all (\<lambda>c. STRICT_TOKEN c \<noteq> NUL) s" "take (length TRANSFER_ENCODING) (map STRICT_TOKEN s) = TRANSFER_ENCODING"
      "length TRANSFER_ENCODING < length s" "plain_value u" "unat (nread q) + length s + length u + 5 \<le> unat mhs"
  shows "\<exists>n q' w'. http_parser_execute True mhs quiet q (s @ '':'' @ u @ [CR, LF, CR, LF]) w = Inr (n, q', w') \<and>
    http_errno q' = (if has_flag q F_CONTENTLENGTH then HPE_UNEXPECTED_CONTENT_LENGTH else HPE_INVALID_TRANSFER_ENCODING)"
proof -
  let ?d = "s @ '':'' @ u @ [CR, LF, CR, LF]"
  let ?e = "execute_env True mhs quiet q ?d" and ?r = "execute_start q w"
  have e: "settings ?e = quiet" "estrict ?e" "edata ?e = ?d" "max_header_size ?e = mhs" "\<not> lenient ?e" using q(4) by (simp_all add: execute_env_def)
  have r: "p_state ?r = s_header_field_start" "rp ?r = 0" "http_errno (rparser ?r) = HPE_OK" "marks ?r = (\<lambda>_. None)" "rnread ?r = nread q" "rparser ?r = q"
    using q(1,2) by (simp_all add: execute_start_def no_initial_marks)
  have "s \<noteq> []" using s(3) by auto
  then obtain q1 where read: "field_read q (map STRICT_TOKEN s) q1" and one: "reaches ?e ?r (?r\<lparr>rch := CHR '':'', rp := length s + 1,
      rnread := nread q + of_nat (length s) + 1, p_state := s_header_value_discard_ws, rworld := rworld ?r @ [(''header_field'', s)],
      rparser := q1\<lparr>pstate := s_header_value_discard_ws\<rparr>\<rparr>)" (is "reaches _ _ ?r1")
    using name_reaches [OF e(1,2), of "[]" s "u @ [CR, LF, CR, LF]" ?r] r e(3,4) s by auto
  have frame: "field_frame q q1" and uses: "uses_transfer_encoding q1" using read s(2) by (simp_all add: field_read_def)
  have ord: "ordinary (header_state q1)" by (rule ordinary_name [OF read longer_unrecognized]) (use s(3) in simp)
  have n1: "unat (nread q + of_nat (length s) + 1) = unat (nread q) + length s + 1"
    using count_many(2) [of ?r "length s + 1" ?e] s(5) e(4) r(5) by (simp add: ac_simps)
  let ?n2 = "nread q + of_nat (length s) + 1 + of_nat (length u) + 2"
  let ?q2 = "q1\<lparr>index := 0, header_state := h_general, pstate := s_header_almost_done\<rparr>"
  let ?r2 = "?r1\<lparr>rch := LF, rp := length s + length u + 3, rnread := ?n2, p_state := s_header_value_lws,
    rworld := rworld ?r1 @ [(''header_value'', dropWhile blank u)], rparser := ?q2\<rparr>"
  have "http_errno q1 = HPE_OK" using frame q(1) by (auto simp: field_frame_def)
  then have two: "reaches ?e ?r1 ?r2"
    using value_reaches [of ?e "s @ '':''" u "[CR, LF]" ?r1 "\<lambda>_. False"] e s(4,5) r(4) ord n1 by (simp add: numeral_3_eq_3)
  have n2: "unat ?n2 = unat (nread q) + length s + length u + 3"
    using count_many(2) [of ?r1 "length u + 2" ?e] n1 s(5) e(4) by (simp add: ac_simps)
  let ?r3 = "?r2\<lparr>rch := CR, rp := length s + length u + 4, rnread := ?n2 + 1, p_state := s_headers_almost_done\<rparr>"
  have at: "edata ?e ! (length s + length u + 3) = CR" "edata ?e ! (length s + length u + 4) = LF"
    by (simp_all add: execute_env_def nth_append nth_Cons')
  have "execute_byte ?e ?r2 = execute_byte ?e (?r2\<lparr>p_state := s_header_field_start\<rparr>)"
    by (rule next_line) (use at e n2 s(5) in \<open>simp_all add: blank_def\<close>)
  also have "\<dots> = Next (?r3\<lparr>rp := length s + length u + 3\<rparr>)"
    using header_byte [of "?r2\<lparr>p_state := s_header_field_start\<rparr>" ?e] at e n2 s(5)
    by (simp add: PARSING_HEADER_iff dispatch_def do_header_field_start_def UPDATE_STATE_def)
  finally have three: "reaches ?e ?r2 ?r3" by (rule reaches_to) simp_all
  have n3: "unat (?n2 + 1) = unat (nread q) + length s + length u + 4"
    using count_one(2) [of ?r2 ?e] n2 s(5) e(4) by simp
  note run = reaches_trans [OF one reaches_trans [OF two three]]
  have flag: "flagged q1 k = flagged q k" for k using frame by (auto simp: field_frame_def)
  have same: "ptype ?q2 = ptype q" "http_errno ?q2 = http_errno q" "announced_upgrade ?q2 = announced_upgrade q"
    using frame by (auto simp: field_frame_def announced_upgrade_def has_flag_def)
  have "if has_flag (rparser ?r3) F_CONTENTLENGTH
    then \<exists>r1. execute_byte ?e ?r3 = GotoError r1 \<and> http_errno (rparser r1) = HPE_UNEXPECTED_CONTENT_LENGTH
    else \<exists>n q' w'. execute_byte ?e ?r3 = Returned n q' w' \<and> http_errno q' = HPE_INVALID_TRANSFER_ENCODING"
    by (rule headers_end_refused) (use at e q n3 s(5) uses flag same in simp_all)
  moreover have "rp ?r3 < length ?d" "?d \<noteq> []" by simp_all
  ultimately show ?thesis
    using execute_error [OF q(1) _ run] execute_returned [OF q(1) _ run] flag by (auto split: if_splits)
qed

section \<open>Pausing at every name\<close>

definition pausing :: "(string \<times> string) list http_parser_settings" where
  "pausing = recorder (\<lambda>name. name = ''header_field'')"

lemma blank_no_token: "blank c \<Longrightarrow> STRICT_TOKEN c = NUL"
proof -
  have "STRICT_TOKEN CHR '' '' = NUL" "STRICT_TOKEN HT = NUL" by code_simp+
  then show "blank c \<Longrightarrow> STRICT_TOKEN c = NUL" by (auto simp: blank_def)
qed

lemma name_paused:
  assumes e: "settings e = pausing" "edata e = pre @ s @ '':'' @ rest"
    and r: "marks r = (\<lambda>_. None)(header_field_mark := Some (length pre))" "rp r = length pre + length s" "http_errno (rparser r) = HPE_OK"
  shows "CALLBACK_DATA e header_field_mark r = Returned (length pre + length s + 1)
    ((rparser r)\<lparr>pstate := p_state r, http_errno := HPE_PAUSED\<rparr>) (rworld r @ [(''header_field'', s)])"
  using assms
  by (simp add: CALLBACK_DATA_def CALLBACK_DATA_ER_def assert_that_def data_cb_def pausing_def recorder_def record_data_def
      after_callback_def UPDATE_STATE_def Let_def)

lemma paused_line:
  assumes q: "http_errno q = HPE_OK" "pstate q = s_header_value_discard_ws" "ordinary (header_state q)"
    and u: "plain_value u" and s: "s \<noteq> []" "list_all (\<lambda>c. STRICT_TOKEN c \<noteq> NUL) s" "recognized (map STRICT_TOKEN s) = None"
    and room: "unat (nread q) + length u + length s + 3 \<le> unat mhs"
  shows "\<exists>q'. http_parser_execute True mhs pausing q (u @ [CR, LF] @ s @ '':'' @ rest) w =
      Inr (length u + length s + 3, q', w @ [(''header_value'', dropWhile blank u), (''header_field'', s)]) \<and>
    http_errno q' = HPE_PAUSED \<and> pstate q' = s_header_value_discard_ws \<and> ordinary (header_state q') \<and> nread q' = nread q"
proof -
  let ?d = "u @ [CR, LF] @ s @ '':'' @ rest"
  let ?e = "execute_env True mhs pausing q ?d" and ?r = "execute_start q w"
  have e: "settings ?e = pausing" "estrict ?e" "edata ?e = ?d" "max_header_size ?e = mhs" by (simp_all add: execute_env_def)
  have r: "p_state ?r = s_header_value_discard_ws" "rp ?r = 0" "http_errno (rparser ?r) = HPE_OK" "marks ?r = (\<lambda>_. None)" "rnread ?r = nread q" "rparser ?r = q" "rworld ?r = w"
    using q(1,2) by (simp_all add: execute_start_def no_initial_marks)
  have cb: "on_header_value (settings ?e) = Some (record_data (\<lambda>name. name = ''header_field'') ''header_value'')"
    unfolding e(1) by (simp add: pausing_def recorder_def)
  let ?q1 = "q\<lparr>index := 0, header_state := h_general, pstate := s_header_almost_done\<rparr>" and ?n1 = "nread q + of_nat (length u) + 2"
  let ?r1 = "?r\<lparr>rch := LF, rp := length u + 2, rnread := ?n1, p_state := s_header_value_lws,
    rworld := w @ [(''header_value'', dropWhile blank u)], rparser := ?q1\<rparr>"
  have one: "reaches ?e ?r ?r1"
    using value_reaches [of ?e "[]" u "s @ '':'' @ rest" ?r, OF _ u _ _ _ _ _ _ cb] e r q(3) room by simp
  have n1: "unat ?n1 = unat (nread q) + length u + 2"
    using count_many(2) [of ?r "length u + 2" ?e] room e(4) r(5) by (simp add: ac_simps)
  obtain c cs where cs: "s = c # cs" using s(1) by (cases s) auto
  have token: "STRICT_TOKEN c \<noteq> NUL" using s(2) cs by simp
  then have c: "c \<noteq> CR" "c \<noteq> LF" "\<not> blank c" using line_end_no_token blank_no_token by auto
  have at: "edata ?e ! (length u + 2) = c" "length u + 2 < length (edata ?e)"
    using cs by (simp_all add: execute_env_def nth_append)
  let ?q2 = "field_begin ?q1 (STRICT_TOKEN c)"
  let ?r2 = "?r1\<lparr>rch := c, rnread := ?n1 + 1, p_state := s_header_field,
      marks := (\<lambda>_. None)(header_field_mark := Some (length u + 2)), rparser := ?q2, rp := length u + 3\<rparr>"
  have "execute_byte ?e ?r1 = execute_byte ?e (?r1\<lparr>p_state := s_header_field_start\<rparr>)"
    by (rule next_line) (use at c e n1 room in simp_all)
  also have "\<dots> = Next (?r2\<lparr>rp := length u + 2\<rparr>)"
    using field_first [of "?r1\<lparr>p_state := s_header_field_start\<rparr>" ?e c] at c token e n1 room r(4) by (simp add: TOKEN_def)
  finally have two: "reaches ?e ?r1 ?r2" by (rule reaches_to) simp_all
  have n2: "unat (?n1 + 1) = unat (nread q) + length u + 3" using count_one(2) [of ?r1 ?e] n1 room e(4) by simp
  have read: "field_read ?q1 [TOKEN True (hd s)] ?q2" using field_read_begin [of ?q1 "STRICT_TOKEN c"] cs by (simp add: TOKEN_def)
  obtain q' where q': "field_read ?q1 (map STRICT_TOKEN s) q'" "http_errno q' = HPE_OK"
    and byte: "execute_byte ?e ?r2 = (case CALLBACK_DATA ?e header_field_mark (?r2\<lparr>rch := CHR '':'', rp := length (u @ [CR, LF]) + length s,
        rnread := rnread ?r2 + of_nat (length s), rparser := q', p_state := s_header_value_discard_ws\<rparr>) of
      Reexecute r' \<Rightarrow> reexecute 7 ?e r' | x \<Rightarrow> x)"
    using field_scan [OF e(2), of "u @ [CR, LF]" s rest ?r2 ?q1] read s(1,2) e(3,4) n2 room q(1) by (auto simp: field_begin_def)
  let ?q3 = "q'\<lparr>pstate := s_header_value_discard_ws, http_errno := HPE_PAUSED\<rparr>"
  have "execute_byte ?e ?r2 = Returned (length u + length s + 3) ?q3 (w @ [(''header_value'', dropWhile blank u), (''header_field'', s)])"
    unfolding byte using name_paused [OF e(1), of "u @ [CR, LF]" s rest] e(3) q'(2) by simp
  moreover have "rp ?r2 < length ?d" using cs by simp
  ultimately have "http_parser_execute True mhs pausing q ?d w =
      Inr (length u + length s + 3, ?q3, w @ [(''header_value'', dropWhile blank u), (''header_field'', s)])"
    using execute_returned [OF q(1) _ reaches_trans [OF one two]] by simp
  moreover have "nread q' = nread q" using q'(1) by (auto simp: field_read_def field_frame_def)
  ultimately show ?thesis using ordinary_name [OF q'(1) s(3)] by (intro exI [of _ ?q3]) simp
qed

text \<open>Feeding a buffer to a parser whose callbacks may pause it, and resuming it each time.\<close>

fun resume_execute :: "nat \<Rightarrow> bool \<Rightarrow> uint32 \<Rightarrow> 'w http_parser_settings \<Rightarrow> http_parser \<Rightarrow> string \<Rightarrow> 'w
    \<Rightarrow> fault + (string \<times> http_parser \<times> 'w)" where
  "resume_execute 0 strict mhs ss q data w = Inr (data, q, w)"
| "resume_execute (Suc k) strict mhs ss q data w =
     (case http_parser_execute strict mhs ss q data w of
        Inl f \<Rightarrow> Inl f
      | Inr (n, q1, w1) \<Rightarrow>
          if http_errno q1 = HPE_PAUSED then
            case http_parser_pause False q1 of
              Inl f \<Rightarrow> Inl f
            | Inr q2 \<Rightarrow> resume_execute k strict mhs ss q2 (drop n data) w1
          else Inr (drop n data, q1, w1))"

text \<open>
  Header lines as a parser that stands behind a colon sees them: the value, the line end, and
  the next name with its colon.
\<close>

definition render_lines :: "(string \<times> string) list \<Rightarrow> string" where
  "render_lines ls = concat (map (\<lambda>(u, s). u @ [CR, LF] @ s @ '':'') ls)"

definition line_events :: "string \<times> string \<Rightarrow> (string \<times> string) list" where
  "line_events l = (case l of (u, s) \<Rightarrow> [(''header_value'', dropWhile blank u), (''header_field'', s)])"

definition plain_line :: "string \<times> string \<Rightarrow> bool" where
  "plain_line l \<longleftrightarrow> (case l of (u, s) \<Rightarrow>
     plain_value u \<and> s \<noteq> [] \<and> list_all (\<lambda>c. STRICT_TOKEN c \<noteq> NUL) s \<and> recognized (map STRICT_TOKEN s) = None)"

lemma paused_lines:
  assumes "http_errno q = HPE_OK" "pstate q = s_header_value_discard_ws" "ordinary (header_state q)"
    and "list_all (\<lambda>l. plain_line l \<and> unat (nread q) + length (fst l) + length (snd l) + 3 \<le> unat mhs) ls"
  shows "\<exists>q'. resume_execute (length ls) True mhs pausing q (render_lines ls @ rest) w = Inr (rest, q', w @ concat (map line_events ls)) \<and>
    http_errno q' = HPE_OK \<and> pstate q' = s_header_value_discard_ws \<and> ordinary (header_state q') \<and> nread q' = nread q"
  using assms
proof (induction ls arbitrary: q w)
  case Nil
  then show ?case by (simp add: render_lines_def)
next
  case (Cons l ls)
  obtain u s where l: "l = (u, s)" by (cases l)
  have plain: "plain_value u" "s \<noteq> []" "list_all (\<lambda>c. STRICT_TOKEN c \<noteq> NUL) s" "recognized (map STRICT_TOKEN s) = None"
    and room: "unat (nread q) + length u + length s + 3 \<le> unat mhs"
    using Cons.prems(4) l by (simp_all add: plain_line_def)
  obtain q1 where run: "http_parser_execute True mhs pausing q (u @ [CR, LF] @ s @ '':'' @ render_lines ls @ rest) w =
      Inr (length u + length s + 3, q1, w @ line_events l)"
    and q1: "http_errno q1 = HPE_PAUSED" "pstate q1 = s_header_value_discard_ws" "ordinary (header_state q1)" "nread q1 = nread q"
    using paused_line [OF Cons.prems(1-3) plain room] l by (auto simp: line_events_def)
  let ?q2 = "q1\<lparr>nread := nread q1, http_errno := HPE_OK\<rparr>"
  have "resume_execute (length (l # ls)) True mhs pausing q (render_lines (l # ls) @ rest) w =
      resume_execute (length ls) True mhs pausing ?q2 (render_lines ls @ rest) (w @ line_events l)"
    using run q1(1) by (simp add: render_lines_def l http_parser_pause_def numeral_3_eq_3)
  moreover have "\<exists>q'. resume_execute (length ls) True mhs pausing ?q2 (render_lines ls @ rest) (w @ line_events l) =
      Inr (rest, q', (w @ line_events l) @ concat (map line_events ls)) \<and>
    http_errno q' = HPE_OK \<and> pstate q' = s_header_value_discard_ws \<and> ordinary (header_state q') \<and> nread q' = nread ?q2"
    by (rule Cons.IH) (use Cons.prems(4) q1 in simp_all)
  ultimately show ?case using q1(4) by simp
qed

end
