(* ===== verification/Http_Message_Properties.thy ===== *)
theory Http_Message_Properties
  imports Http_Methods Http_Header_Lines
begin

text \<open>
  The properties of the message parser \<^verbatim>\<open>http_parser_execute\<close>, over whole histories of a
  parser and over the parts of a message.
\<close>

section \<open>Samples\<close>

definition plain_parser :: "http_parser_type \<Rightarrow> http_parser" where
  "plain_parser t = (http_parser_init t 0)\<lparr>lenient_http_headers := False, allow_chunked_length := False\<rparr>"

definition sample_post :: string where
  "sample_post = ''POST /a HTTP/1.1'' @ [CR, LF] @ ''Content-Length: 5'' @ [CR, LF, CR, LF] @ ''ab''"

definition post_parser :: http_parser where
  "post_parser = (plain_parser HTTP_REQUEST)
     \<lparr>flags := 128, pstate := s_body_identity, header_state := h_content_length_num, content_length := 3,
      http_major := 1, http_minor := 1, pmethod := HTTP_POST\<rparr>"

lemma plain_session: "session strict mhs ss (plain_parser t)"
  unfolding plain_parser_def by (rule session_init)

lemma quiet_embedder: "embedder quiet"
  unfolding quiet_def by (rule recording.embedder_axioms)

lemma post_session: "session True 8192 quiet post_parser"
proof (rule session_execute [OF plain_session])
  show "length sample_post < 2 ^ 64" by (simp add: sample_post_def)
  show "http_parser_execute True 8192 quiet (plain_parser HTTP_REQUEST) sample_post [] =
    Inr (41, post_parser,
      [(''message_begin'', []), (''url'', ''/a''), (''header_field'', ''Content-Length''), (''header_value'', ''5''),
       (''headers_complete'', []), (''body'', ''ab'')])" by code_simp
qed

section \<open>Histories of a parser\<close>

text \<open>
  C22. Memory safety and totality of \<^verbatim>\<open>http_parser_execute\<close>: in every history of a parser whose
  callbacks keep the contract of \<^verbatim>\<open>http_parser.h\<close>, a call on any buffer reads only inside the
  buffer, its tables and its method names, fails no assertion and returns.  It consumes at
  most the buffer (the end of the stream in the middle of a message is the exception, with
  the error set and 1 returned), and all of it unless it reports an error or an upgrade; a parser in
  error or paused is left alone.
\<close>

theorem execute_safe:
  assumes "embedder ss" "session strict mhs ss q" "length data < 2 ^ 64"
  shows "\<exists>n q' w'. http_parser_execute strict mhs ss q data w = Inr (n, q', w') \<and>
    (n \<le> length data \<or> data = [] \<and> n = 1 \<and> http_errno q' = HPE_INVALID_EOF_STATE) \<and>
    (http_errno q' = HPE_OK \<longrightarrow> n = length data \<or> upgrade q') \<and>
    (http_errno q \<noteq> HPE_OK \<longrightarrow> n = 0 \<and> q' = q \<and> w' = w)"
  by (rule embedder.session_execute_ok [OF assms])

theorem execute_safe_witness:
  "embedder quiet \<and> session True 8192 quiet post_parser \<and> length ''cde'' < 2 ^ 64 \<and>
   (\<exists>n q' w'. http_parser_execute True 8192 quiet post_parser ''cde'' [] = Inr (n, q', w') \<and>
    (n \<le> length ''cde'' \<or> ''cde'' = [] \<and> n = 1 \<and> http_errno q' = HPE_INVALID_EOF_STATE) \<and>
    (http_errno q' = HPE_OK \<longrightarrow> n = length ''cde'' \<or> upgrade q') \<and>
    (http_errno post_parser \<noteq> HPE_OK \<longrightarrow> n = 0 \<and> q' = post_parser \<and> w' = []))"
proof (intro conjI)
  show "length ''cde'' < 2 ^ 64" by simp
  then show "\<exists>n q' w'. http_parser_execute True 8192 quiet post_parser ''cde'' [] = Inr (n, q', w') \<and>
    (n \<le> length ''cde'' \<or> ''cde'' = [] \<and> n = 1 \<and> http_errno q' = HPE_INVALID_EOF_STATE) \<and>
    (http_errno q' = HPE_OK \<longrightarrow> n = length ''cde'' \<or> upgrade q') \<and>
    (http_errno post_parser \<noteq> HPE_OK \<longrightarrow> n = 0 \<and> q' = post_parser \<and> w' = [])"
    by (rule execute_safe [OF quiet_embedder post_session])
qed (rule quiet_embedder post_session)+

text \<open>
  C23. How a message is framed, in every history of a parser: it reads a body of known length
  only after a content length and without any transfer encoding, it reads chunks only after
  \<^verbatim>\<open>chunked\<close> as the last encoding, and a message with both headers gets to its body only with the option that
  permits it.
\<close>

theorem message_framing:
  assumes "embedder ss" "session strict mhs ss q" "alive q"
  shows "(pstate q = s_body_identity \<longrightarrow>
      has_flag q F_CONTENTLENGTH \<and> \<not> has_flag q F_CHUNKED \<and> \<not> uses_transfer_encoding q \<and>
      content_length q \<noteq> 0 \<and> content_length q \<noteq> ULLONG_MAX) \<and>
    (pstate q \<in> chunk_states \<longrightarrow> has_flag q F_CHUNKED) \<and>
    (pstate q \<in> chunk_states \<union> {s_body_identity, s_body_identity_eof} \<and> uses_transfer_encoding q \<and> has_flag q F_CONTENTLENGTH \<longrightarrow>
      (if has_flag q F_CHUNKED then allow_chunked_length q else lenient_http_headers q))"
proof -
  have chunk: "chunk_ok (pstate q) q" and framing: "framing_ok (pstate q) q"
    using embedder.session_resumable [OF assms] by (simp_all add: resumable_def parser_ok_def)
  show ?thesis
  proof (intro conjI impI)
    assume both: "pstate q \<in> chunk_states \<union> {s_body_identity, s_body_identity_eof} \<and> uses_transfer_encoding q \<and> has_flag q F_CONTENTLENGTH"
    then have "pstate q \<in> {s_headers_done, s_body_identity, s_body_identity_eof} \<union> chunk_states" by blast
    then show "if has_flag q F_CHUNKED then allow_chunked_length q else lenient_http_headers q"
      using framing both unfolding framing_ok_def by simp
  qed (use chunk framing in \<open>simp_all add: chunk_ok_def framing_ok_def\<close>)
qed

theorem message_framing_witness:
  "embedder quiet \<and> session True 8192 quiet post_parser \<and> alive post_parser \<and>
   pstate post_parser = s_body_identity \<and> has_flag post_parser F_CONTENTLENGTH \<and> \<not> has_flag post_parser F_CHUNKED"
proof -
  have "alive post_parser" "pstate post_parser = s_body_identity" by code_simp+
  then show ?thesis using message_framing [OF quiet_embedder post_session] quiet_embedder post_session by simp
qed

text \<open>
  C30. Bounds, in every history of a parser, as long as it is not in an error (it is OK or
  paused): the header bytes it has counted stay within the limit, the status code has at most
  three digits, and the version numbers one digit each.  (A parser that has reported an error
  may be past them: the error is how it stops there.)
\<close>

theorem parser_bounds:
  assumes "embedder ss" "session strict mhs ss q" "alive q"
  shows "nread q \<le> mhs \<and> status_code q \<le> 999 \<and> http_major q \<le> 9 \<and> http_minor q \<le> 9"
  using embedder.session_resumable [OF assms]
  by (simp add: resumable_def parser_ok_def bounds_ok_def)

theorem parser_bounds_witness:
  "embedder quiet \<and> session True 8192 quiet post_parser \<and> alive post_parser \<and>
   nread post_parser \<le> 8192 \<and> status_code post_parser \<le> 999 \<and> http_major post_parser \<le> 9 \<and> http_minor post_parser \<le> 9"
proof -
  have "alive post_parser" by code_simp
  then show ?thesis using parser_bounds [OF quiet_embedder post_session] quiet_embedder post_session by simp
qed

section \<open>Numbers that frame a body\<close>

text \<open>
  C28. A content length is read exactly or refused.  In front of the value of a first
  \<^verbatim>\<open>Content-Length\<close> header, a line of digits within the header limit either stores the number
  it denotes and reports its digits, or, from 18446744073709551610 on, fails with
  \<^verbatim>\<open>HPE_INVALID_CONTENT_LENGTH\<close>: the sixty-four-bit arithmetic never wraps.
\<close>

theorem content_length_exact:
  assumes "http_errno q = HPE_OK" "pstate q = s_header_value_discard_ws" "header_state q = h_content_length"
    and "\<not> has_flag q F_CONTENTLENGTH"
    and "ds \<noteq> []" "list_all IS_NUM ds" "unat (nread q) + length ds + 1 \<le> unat mhs"
  shows "if decimal_number ds < 18446744073709551610 then
      \<exists>q'. http_parser_execute strict mhs quiet q (ds @ [CR]) w =
             Inr (length ds + 1, q', w @ [(''header_value'', ds)]) \<and>
           http_errno q' = HPE_OK \<and> pstate q' = s_header_almost_done \<and> has_flag q' F_CONTENTLENGTH \<and>
           unat (content_length q') = decimal_number ds
    else \<exists>n q'. http_parser_execute strict mhs quiet q (ds @ [CR]) w = Inr (n, q', w) \<and>
           http_errno q' = HPE_INVALID_CONTENT_LENGTH"
proof (cases "decimal_number ds < DECIMAL_LIMIT")
  case True
  let ?q = "(length_parser q (decimal_number ds))\<lparr>pstate := s_header_almost_done\<rparr>"
  have "record_data (\<lambda>_. False) ''header_value'' ?q ds w = (0, ?q\<lparr>pdata := pdata ?q\<rparr>, w @ [(''header_value'', ds)])"
    by (simp add: record_data_def)
  moreover have "on_header_value quiet = Some (record_data (\<lambda>_. False) ''header_value'')"
    by (simp add: quiet_def recorder_def)
  ultimately show ?thesis
    using content_length_accepted [OF assms True, of quiet _ w] assms(1) True
    by (auto simp: length_parser_def DECIMAL_LIMIT_def unat_of_nat)
next
  case False
  then show ?thesis using content_length_refused [OF assms, of strict quiet w] by (simp add: DECIMAL_LIMIT_def)
qed

definition length_sample :: http_parser where
  "length_sample = (plain_parser HTTP_REQUEST)\<lparr>pstate := s_header_value_discard_ws, header_state := h_content_length, nread := 30\<rparr>"

theorem content_length_exact_witness:
  "\<exists>q'. http_parser_execute True 8192 quiet length_sample (''0042'' @ [CR]) [] = Inr (5, q', [(''header_value'', ''0042'')]) \<and>
     unat (content_length q') = 42"
proof -
  have prems: "http_errno length_sample = HPE_OK" "pstate length_sample = s_header_value_discard_ws"
    "header_state length_sample = h_content_length" "\<not> has_flag length_sample F_CONTENTLENGTH"
    "''0042'' \<noteq> []" "list_all IS_NUM ''0042''" "unat (nread length_sample) + length ''0042'' + 1 \<le> unat (8192 :: uint32)"
    by code_simp+
  have "decimal_number ''0042'' = 42" by code_simp
  then show ?thesis using content_length_exact [OF prems, of True "[]"] by auto
qed

text \<open>
  C29. A chunk size is read exactly or refused, from 2^64 - 16 on: the sixty-four-bit
  arithmetic never wraps.  A digit is every byte \<^verbatim>\<open>unhex\<close> does not reject.
\<close>

theorem chunk_size_exact:
  assumes "http_errno q = HPE_OK" "pstate q = s_chunk_size_start" "has_flag q F_CHUNKED" "nread q = 0"
    and "ds \<noteq> []" "list_all (\<lambda>c. unhex_val c \<noteq> - 1) ds" "length ds < unat mhs"
  shows "if hex_number ds < 2 ^ 64 - 16 then
      \<exists>q'. http_parser_execute strict mhs ss q (ds @ [CR]) w = Inr (length ds + 1, q', w) \<and>
        http_errno q' = HPE_OK \<and> pstate q' = s_chunk_size_almost_done \<and> unat (content_length q') = hex_number ds
    else \<exists>n q'. http_parser_execute strict mhs ss q (ds @ [CR]) w = Inr (n, q', w) \<and>
      http_errno q' = HPE_INVALID_CONTENT_LENGTH"
proof (cases "hex_number ds < HEX_LIMIT")
  case True
  then show ?thesis using chunk_size_execute(1) [OF assms True, of strict ss w] assms(1)
    by (simp add: HEX_LIMIT_def unat_of_nat)
next
  case False
  then show ?thesis using chunk_size_execute(2) [OF assms, of strict ss w] by (simp add: HEX_LIMIT_def)
qed

definition chunk_sample :: http_parser where
  "chunk_sample = (plain_parser HTTP_RESPONSE)
     \<lparr>pstate := s_chunk_size_start, flags := F_CHUNKED, uses_transfer_encoding := True, http_major := 1, http_minor := 1,
      status_code := 200\<rparr>"

theorem chunk_size_exact_witness:
  "\<exists>q'. http_parser_execute True 8192 quiet chunk_sample (''1fA'' @ [CR]) [] = Inr (4, q', []) \<and>
     http_errno q' = HPE_OK \<and> unat (content_length q') = 506"
proof -
  have prems: "http_errno chunk_sample = HPE_OK" "pstate chunk_sample = s_chunk_size_start"
    "has_flag chunk_sample F_CHUNKED" "nread chunk_sample = 0"
    "''1fA'' \<noteq> []" "list_all (\<lambda>c. unhex_val c \<noteq> - 1) ''1fA''" "length ''1fA'' < unat (8192 :: uint32)"
    by code_simp+
  have "hex_number ''1fA'' = 506" by code_simp
  then show ?thesis using chunk_size_exact [OF prems, of True quiet "[]"] by auto
qed

section \<open>Bodies\<close>

text \<open>
  C25. A body of known length, cut into buffers in any way: the parser hands over every buffer
  exactly as it came, in order, reports the end of the message behind the last byte and
  nothing before it, and is ready for the next message or closed, as the connection rules of the message say.
\<close>

theorem identity_body_stream:
  assumes "http_errno q = HPE_OK" "pstate q = s_body_identity" "content_length q \<noteq> ULLONG_MAX" "\<not> upgrade q"
    and "bs \<noteq> []" "list_all (\<lambda>b. b \<noteq> []) bs" "length (concat bs) = unat (content_length q)"
  shows "\<exists>q'. execute_all strict mhs quiet q bs w =
      Inr (length (concat bs), q', w @ map (Pair ''body'') bs @ [(''message_complete'', [])]) \<and>
    http_errno q' = HPE_OK \<and> content_length q' = 0 \<and> pstate q' = NEW_MESSAGE strict q'"
  using identity_stream [OF assms, of strict mhs w] assms(1) by simp

theorem identity_body_stream_witness:
  "\<exists>q'. execute_all True 8192 quiet post_parser [''c'', ''de''] [] =
      Inr (3, q', [(''body'', ''c''), (''body'', ''de''), (''message_complete'', [])]) \<and>
    http_errno q' = HPE_OK \<and> pstate q' = NEW_MESSAGE True q'"
proof -
  have prems: "http_errno post_parser = HPE_OK" "pstate post_parser = s_body_identity" "content_length post_parser \<noteq> ULLONG_MAX"
    "\<not> upgrade post_parser" "[''c'', ''de''] \<noteq> []" "list_all (\<lambda>b. b \<noteq> []) [''c'', ''de'']"
    "length (concat [''c'', ''de'']) = unat (content_length post_parser)" by code_simp+
  have n: "length (concat [''c'', ''de'']) = 3" by simp
  show ?thesis using identity_body_stream [OF prems, of True 8192 "[]"] unfolding n by (auto simp del: execute_all.simps)
qed

text \<open>
  C24. Round trip of the chunked encoding: a body written as chunks, with sizes in hexadecimal
  digits of either case, leading zeros and chunk extensions at will, and closed by the last
  chunk, is parsed in one call to its end, and the callbacks hear the same chunks, one
  \<^verbatim>\<open>on_body\<close> each, between \<^verbatim>\<open>on_chunk_header\<close> and \<^verbatim>\<open>on_chunk_complete\<close>, then the end of the message.
\<close>

theorem chunked_roundtrip:
  assumes "http_errno q = HPE_OK" "pstate q = s_chunk_size_start" "has_flag q F_CHUNKED" "nread q = 0" "\<not> upgrade q"
    and "list_all (\<lambda>c. wf_chunk mhs c \<and> chunk_bytes c \<noteq> []) cs" "wf_chunk mhs l" "chunk_bytes l = []"
    and "length (render_chunked cs l) < 2 ^ 64 - 16"
  shows "\<exists>q'. http_parser_execute strict mhs quiet q (render_chunked cs l) w =
      Inr (length (render_chunked cs l), q',
        w @ concat (map chunk_events cs) @ [(''chunk_header'', []), (''chunk_complete'', []), (''message_complete'', [])]) \<and>
    http_errno q' = HPE_OK \<and> pstate q' = NEW_MESSAGE strict q'"
  using chunked_execute [OF assms(1-8)] assms(9) by (simp add: HEX_LIMIT_def)

definition sample_chunk :: http_chunk where
  "sample_chunk = \<lparr>chunk_digits = ''0a'', chunk_extension = '';x=1'', chunk_bytes = ''hello'' @ [CR, LF] @ ''you''\<rparr>"

definition sample_last :: http_chunk where
  "sample_last = \<lparr>chunk_digits = ''00'', chunk_extension = [], chunk_bytes = []\<rparr>"

theorem chunked_roundtrip_witness:
  "\<exists>q'. http_parser_execute True 8192 quiet chunk_sample (render_chunked [sample_chunk] sample_last) [] =
      Inr (26, q',
        [(''chunk_header'', []), (''body'', ''hello'' @ [CR, LF] @ ''you''), (''chunk_complete'', []),
         (''chunk_header'', []), (''chunk_complete'', []), (''message_complete'', [])]) \<and>
    http_errno q' = HPE_OK \<and> pstate q' = NEW_MESSAGE True q'"
proof -
  have prems: "http_errno chunk_sample = HPE_OK" "pstate chunk_sample = s_chunk_size_start" "has_flag chunk_sample F_CHUNKED"
    "nread chunk_sample = 0" "\<not> upgrade chunk_sample"
    "list_all (\<lambda>c. wf_chunk 8192 c \<and> chunk_bytes c \<noteq> []) [sample_chunk]" "wf_chunk 8192 sample_last" "chunk_bytes sample_last = []"
    by code_simp+
  have n: "length (render_chunked [sample_chunk] sample_last) = 26" by code_simp
  have events: "concat (map chunk_events [sample_chunk]) =
    [(''chunk_header'', []), (''body'', ''hello'' @ [CR, LF] @ ''you''), (''chunk_complete'', [])]" by code_simp
  show ?thesis using chunked_roundtrip [OF prems, of True "[]"] unfolding n events by simp
qed

section \<open>Names\<close>

text \<open>
  C26. Methods: at the start of a request the parser accepts a name followed by a space exactly
  when it is one of the 34 names of \<^verbatim>\<open>HTTP_METHOD_MAP\<close>, and then its method is the one of that
  name; every other name is \<^verbatim>\<open>HPE_INVALID_METHOD\<close>.  The switch that jumps between candidates
  in the middle of a name confuses no two methods and loses none.
\<close>

theorem method_names_exact:
  assumes "http_errno q = HPE_OK" "pstate q = s_start_req"
    and "s \<noteq> []" "CHR '' '' \<notin> set s" "hd s \<noteq> CR" "hd s \<noteq> LF" "unat (nread q) + length s + 1 \<le> unat mhs"
  shows "if \<exists>m. method_string m = s then
      \<exists>q'. http_parser_execute strict mhs quiet q (s @ '' '') w = Inr (length s + 1, q', w @ [(''message_begin'', [])]) \<and>
        http_errno q' = HPE_OK \<and> pstate q' = s_req_spaces_before_url \<and> method_string (pmethod q') = s
    else \<exists>n q' w'. http_parser_execute strict mhs quiet q (s @ '' '') w = Inr (n, q', w') \<and> http_errno q' = HPE_INVALID_METHOD"
  by (rule method_execute [OF assms])

theorem method_names_exact_witness:
  "\<exists>q'. http_parser_execute True 8192 quiet (plain_parser HTTP_REQUEST) (''PROPPATCH'' @ '' '') [] =
     Inr (10, q', [(''message_begin'', [])]) \<and> method_string (pmethod q') = ''PROPPATCH''"
proof -
  have prems: "http_errno (plain_parser HTTP_REQUEST) = HPE_OK" "pstate (plain_parser HTTP_REQUEST) = s_start_req"
    "''PROPPATCH'' \<noteq> []" "CHR '' '' \<notin> set ''PROPPATCH''" "hd ''PROPPATCH'' \<noteq> CR" "hd ''PROPPATCH'' \<noteq> LF"
    "unat (nread (plain_parser HTTP_REQUEST)) + length ''PROPPATCH'' + 1 \<le> unat (8192 :: uint32)" by code_simp+
  have "method_string HTTP_PROPPATCH = ''PROPPATCH''" by code_simp
  then have "\<exists>m. method_string m = ''PROPPATCH''" by blast
  then show ?thesis using method_names_exact [OF prems, of True "[]"] by (auto simp del: append.simps)
qed

text \<open>
  C27. Header names, in a strict build: the parser hands over a name as it came and takes it for
  \<^verbatim>\<open>Connection\<close>, \<^verbatim>\<open>Content-Length\<close>, \<^verbatim>\<open>Transfer-Encoding\<close> or \<^verbatim>\<open>Upgrade\<close> exactly when it is that
  name (or \<^verbatim>\<open>Proxy-Connection\<close> for the first) in any mixture of cases.  The message is marked as using a
  transfer encoding by every name that begins with \<^verbatim>\<open>transfer-encoding\<close>, whatever follows.
\<close>

theorem header_names_exact:
  assumes "http_errno q = HPE_OK" "pstate q = s_header_field_start"
    and "s \<noteq> []" "list_all (\<lambda>c. STRICT_TOKEN c \<noteq> NUL) s" "unat (nread q) + length s + 1 \<le> unat mhs"
  shows "\<exists>q'. http_parser_execute True mhs quiet q (s @ '':'') w = Inr (length s + 1, q', w @ [(''header_field'', s)]) \<and>
    http_errno q' = HPE_OK \<and> pstate q' = s_header_value_discard_ws \<and>
    (\<forall>h \<in> {h_connection, h_content_length, h_transfer_encoding, h_upgrade}.
       header_state q' = h \<longleftrightarrow> recognized (map STRICT_TOKEN s) = Some h) \<and>
    (uses_transfer_encoding q' \<longleftrightarrow>
       uses_transfer_encoding q \<or> take (length TRANSFER_ENCODING) (map STRICT_TOKEN s) = TRANSFER_ENCODING)"
proof -
  obtain q' n where run: "http_parser_execute True mhs quiet q (s @ '':'') w =
      Inr (length s + 1, q'\<lparr>nread := n, pstate := s_header_value_discard_ws\<rparr>, w @ [(''header_field'', s)])"
    and read: "field_read q (map STRICT_TOKEN s) q'"
    using field_name_execute [OF assms] by blast
  have "http_errno q' = HPE_OK" using read assms(1) by (auto simp: field_read_def field_frame_def)
  moreover have "uses_transfer_encoding q' \<longleftrightarrow>
      uses_transfer_encoding q \<or> take (length TRANSFER_ENCODING) (map STRICT_TOKEN s) = TRANSFER_ENCODING"
    using read by (simp add: field_read_def)
  ultimately show ?thesis unfolding run using recognized_iff [OF read]
    by (intro exI [of _ "q'\<lparr>nread := n, pstate := s_header_value_discard_ws\<rparr>"]) simp
qed

definition field_sample :: http_parser where
  "field_sample = (plain_parser HTTP_REQUEST)\<lparr>pstate := s_header_field_start, nread := 16\<rparr>"

theorem header_names_exact_witness:
  "\<exists>q'. http_parser_execute True 8192 quiet field_sample (''Content-LENGTH'' @ '':'') [] =
      Inr (15, q', [(''header_field'', ''Content-LENGTH'')]) \<and> header_state q' = h_content_length \<and> \<not> uses_transfer_encoding q'"
proof -
  have prems: "http_errno field_sample = HPE_OK" "pstate field_sample = s_header_field_start" "''Content-LENGTH'' \<noteq> []"
    "list_all (\<lambda>c. STRICT_TOKEN c \<noteq> NUL) ''Content-LENGTH''"
    "unat (nread field_sample) + length ''Content-LENGTH'' + 1 \<le> unat (8192 :: uint32)" by code_simp+
  have facts: "recognized (map STRICT_TOKEN ''Content-LENGTH'') = Some h_content_length" "\<not> uses_transfer_encoding field_sample"
    "take (length TRANSFER_ENCODING) (map STRICT_TOKEN ''Content-LENGTH'') \<noteq> TRANSFER_ENCODING"
    "length ''Content-LENGTH'' + 1 = 15" by code_simp+
  show ?thesis using header_names_exact [OF prems, of "[]"] facts unfolding facts(4) by (auto simp del: append.simps)
qed



section \<open>Pausing\<close>

text \<open>
  C32. A pause forgets the header bytes of the call it interrupts: \<^verbatim>\<open>nread\<close> is a local variable
  that only \<^verbatim>\<open>RETURN\<close> and \<^verbatim>\<open>SET_ERRNO\<close> write back, and a paused callback leaves without them.  So
  an embedder that pauses in \<^verbatim>\<open>on_header_field\<close> and resumes gets through any number of header
  lines of a request or response without an error, however far they exceed the limit
  together, as long as each alone fits in what the limit leaves: every value and name is
  reported, and the counter is in the end what it was.  (For ordinary headers in a strict
  build, from behind the colon of a name.)
\<close>

theorem pause_forgets_nread:
  assumes "http_errno q = HPE_OK" "pstate q = s_header_value_discard_ws" "ordinary (header_state q)"
    and "list_all (\<lambda>l. plain_line l \<and> unat (nread q) + length (fst l) + length (snd l) + 3 \<le> unat mhs) ls"
  shows "\<exists>q'. resume_execute (length ls) True mhs pausing q (render_lines ls @ rest) w = Inr (rest, q', w @ concat (map line_events ls)) \<and>
    http_errno q' = HPE_OK \<and> pstate q' = s_header_value_discard_ws \<and> nread q' = nread q"
  using paused_lines [OF assms] by blast

definition value_sample :: http_parser where
  "value_sample = (plain_parser HTTP_REQUEST)\<lparr>pstate := s_header_value_discard_ws, nread := 18\<rparr>"

theorem pause_forgets_nread_witness:
  "length (render_lines (replicate 9 ('' bbbbb'', ''A''))) = 90 \<and>
   (\<exists>q' w'. resume_execute 9 True 32 pausing value_sample (render_lines (replicate 9 ('' bbbbb'', ''A'')) @ []) [] = Inr ([], q', w') \<and>
      http_errno q' = HPE_OK \<and> nread q' = 18)"
proof -
  have prems: "http_errno value_sample = HPE_OK" "pstate value_sample = s_header_value_discard_ws" "ordinary (header_state value_sample)"
    "list_all (\<lambda>l. plain_line l \<and> unat (nread value_sample) + length (fst l) + length (snd l) + 3 \<le> unat (32 :: uint32))
       (replicate 9 ('' bbbbb'', ''A''))" by code_simp+
  have n: "length (replicate 9 ('' bbbbb'', ''A'')) = 9" "length (render_lines (replicate 9 ('' bbbbb'', ''A''))) = 90" "nread value_sample = 18"
    by code_simp+
  show ?thesis using pause_forgets_nread [OF prems, of "[]" "[]"] unfolding n by blast
qed

end
