(* ===== verification/Spec2Isabelle.thy ===== *)
theory Spec2Isabelle
  imports Ring_Properties Http_Properties Http_Message_Properties
begin

text \<open>
  Verification library of the ring cache, an HTTP filter for Envoy (\<^verbatim>\<open>src/ring-cache\<close>), and of
  the HTTP parser the repository vendors (\<^verbatim>\<open>src/bazel/external/http_parser\<close>).

  \<^bold>\<open>The program.\<close>  A filter stream builds a key from the host and the path of a request and asks
  the shared cache (\<^verbatim>\<open>RingBufferCache\<close>) for it.  The answer is a hit, whose response is served
  from a ring of slots; or the stream becomes the leader of the key and publishes the
  response it gets from upstream, headers first and then chunk by chunk; or it becomes a
  follower that is backfilled with what the leader has published so far and then fed through
  its dispatcher.  A completed response is finalized: the oldest unpinned entries are evicted
  until it fits, and it takes the head slot.  The vendored parser is the C library
  \<^verbatim>\<open>http_parser\<close>: a state machine over buffers that calls back into its embedder, and a URL
  parser.  The two parts share no state; Envoy stands between them.

  \<^bold>\<open>Theories and sources.\<close>
  \<^item> \<^verbatim>\<open>Prelude\<close>: machine integers, faults, sequencing of fallible operations, ring arithmetic,
    and the locale of an inductive invariant of a transition system.
  \<^item> \<^verbatim>\<open>Ring_Cache\<close>: \<^verbatim>\<open>cache.h\<close> and \<^verbatim>\<open>cache.cc\<close>, the state of the cache as a record with explicit
    stores for entries and waiters, one definition per member function.
    \<^verbatim>\<open>Ring_Storage\<close>: the storage invariant (slots, key map, entries and size agree), eviction and
    insertion.  \<^verbatim>\<open>Ring_Cache_Inv\<close>: the invariant of the whole object under every public
    operation.  \<^verbatim>\<open>Ring_Response\<close>: the cache as an abstract response store, a locale interpreted
    on the operations of the cache.
  \<^item> \<^verbatim>\<open>Ring_Filter\<close>: \<^verbatim>\<open>filter.h\<close>, \<^verbatim>\<open>filter.cc\<close>, \<^verbatim>\<open>config.h\<close>, \<^verbatim>\<open>config.cc\<close> and \<^verbatim>\<open>cache.proto\<close>, every
    callback of the filter and the creation of the configuration.
  \<^item> \<^verbatim>\<open>Ring_System\<close>: all streams of a process around one cache as a step relation; critical
    sections are atomic, everything else interleaves, and any stream may get a response from
    outside the cache, such as a local reply of Envoy.  \<^verbatim>\<open>Ring_System_Inv\<close>, \<^verbatim>\<open>Ring_Followers\<close>,
    \<^verbatim>\<open>Ring_Hits\<close> and \<^verbatim>\<open>Ring_Delivery\<close>: its invariants, each an interpretation of the locale of the
    prelude.  \<^verbatim>\<open>Ring_Sample\<close>: one concrete run, for the witnesses.  \<^verbatim>\<open>Ring_Properties\<close>: the properties.
  \<^item> \<^verbatim>\<open>Http_Chars\<close>, \<^verbatim>\<open>Http_Char_Facts\<close>: the maps, enumerations, byte tables and character
    classes of \<^verbatim>\<open>http_parser.h\<close> and \<^verbatim>\<open>http_parser.c\<close>, and their description.
    \<^verbatim>\<open>Http_Parser\<close>: \<^verbatim>\<open>struct http_parser\<close> and the functions on it alone.
  \<^item> \<^verbatim>\<open>Http_Url\<close>: the URL parser.  \<^verbatim>\<open>Http_Url_Spans\<close>: its two character automata behind one
    locale.  \<^verbatim>\<open>Http_Url_Parse\<close>, \<^verbatim>\<open>Http_Url_Ref\<close>, \<^verbatim>\<open>Http_Url_Render\<close>: safety, refinement of a
    reference definition, round trip.  \<^verbatim>\<open>Http_Properties\<close>: the properties.
  \<^item> \<^verbatim>\<open>Http_Run\<close>: the variables and macros of \<^verbatim>\<open>http_parser_execute\<close>.  \<^verbatim>\<open>Http_Start_Line\<close>,
    \<^verbatim>\<open>Http_Headers\<close>, \<^verbatim>\<open>Http_Execute\<close>: one definition per state of its switch, in source order, then
    the switch, the loop and the function.
  \<^item> \<^verbatim>\<open>Http_Invariant\<close>: what each state says of the other fields.  \<^verbatim>\<open>Http_Callbacks\<close>: the locale
    \<open>embedder\<close>, the contract \<^verbatim>\<open>http_parser.h\<close> has with the program that supplies the callbacks
    (every field is private or read-only but \<^verbatim>\<open>data\<close>; a callback may pause).
    \<^verbatim>\<open>Http_Start_Safe\<close>, \<^verbatim>\<open>Http_Headers_Safe\<close>, \<^verbatim>\<open>Http_Body_Safe\<close>, \<^verbatim>\<open>Http_Execute_Safe\<close>: under it every
    state keeps the invariant.  \<^verbatim>\<open>Http_Sessions\<close>: histories of a parser as an inductive
    predicate, and the interpretations of the locale for the settings \<^verbatim>\<open>http_parser_settings_init\<close>
    leaves and for an embedder that records its callbacks and may pause.
  \<^item> \<^verbatim>\<open>Http_Numbers\<close>: content lengths and chunk sizes.  \<^verbatim>\<open>Http_Reach\<close>: runs of the loop as a
    relation that composes.  \<^verbatim>\<open>Http_Bodies\<close>, \<^verbatim>\<open>Http_Methods\<close>, \<^verbatim>\<open>Http_Field_Names\<close>,
    \<^verbatim>\<open>Http_Header_Lines\<close>: bodies, request methods, header names and whole header lines read by
    it.  \<^verbatim>\<open>Http_Message_Properties\<close>: the properties.

  \<^bold>\<open>What is shown.\<close>  Of the cache: no operation faults in a reachable world, pins count holders,
  memory stays within the capacity, a hit serves a response an upstream completed for the
  same key, there is one leader per key, a follower hears a prefix of the leader's response
  and can be fed to its end unless a closure of its dispatcher dangles; which closures can
  dangle, and how a local reply makes one; and where a key can get stuck, a response is
  dropped, or two requests share a key.  Of the
  URL parser: safety on every buffer, refinement of the reference, round trip.  Of the
  message parser: safety and totality of every call in every history, the framing rules
  against mixed length headers, bounds, exact numbers, exact method and header names, and
  the delivery of bodies in both encodings; and where the header limit can be bypassed and
  a harmless header name is mistaken.

  \<^bold>\<open>Conventions.\<close>  \<^verbatim>\<open>size_t\<close> and \<^verbatim>\<open>uint64_t\<close> are 64-bit words, \<^verbatim>\<open>uint32_t\<close> 32-bit, \<^verbatim>\<open>uint16_t\<close> 16-bit, bit
  fields keep their width.  A buffer is a string, a pointer into it an offset.  A failed
  assertion, a read outside a buffer, a use of a freed entry is a \<open>fault\<close> value, and the safety
  theorems say that it does not occur.  \<^verbatim>\<open>HTTP_PARSER_STRICT\<close> is the argument \<open>strict\<close> and the
  global \<^verbatim>\<open>max_header_size\<close> an argument of \<^verbatim>\<open>http_parser_execute\<close>.  The embedder's state is a type
  parameter that its callbacks transform.

  \<^bold>\<open>Bounds.\<close>  The loops of eviction run with a bound of one round per slot and one more, and
  the theorem on their outcome shows that it is never reached.  The loop of \<^verbatim>\<open>http_parser_execute\<close> runs with
  as many rounds as the buffer has bytes; every round advances, so that is enough.  The jump
  \<^verbatim>\<open>REEXECUTE\<close> runs with eight; each jump lowers the \<open>rank\<close> of the state, which is at most four.
  Running out of a bound is the fault \<open>OutOfFuel\<close>, which the safety theorem excludes with all
  others.  That theorem asks for buffers below 2^64 bytes, the range of \<^verbatim>\<open>size_t\<close>.  In the step
  relation of the cache a key and a response are shorter than 2^64 bytes, and no entry has
  2^32 holders at once, the range of its pin counter: a request beyond that is no step.

  \<^bold>\<open>Parameters.\<close>  Envoy's header map is a type parameter, and its \<^verbatim>\<open>size()\<close> a function parameter.
  Its dispatchers run posted closures in order, its filter manager calls a filter once per
  event; these are rules of the step relation.  A closure that would use the callbacks of a
  destroyed stream has undefined behaviour and is no step; a property says when one exists.  The address of a new entry or waiter is one
  never used before.

  \<^bold>\<open>Not modelled.\<close>  Logging (output without effect on the state), the registration macros of
  Envoy, the Bazel files and toolchain configurations, the integration tests and the slow
  upstream script (no logic of the program).  Lock acquisition itself is not a step: a critical section is one
  definition.
\<close>

end
